(* ===== verification/Prelude.thy ===== *)
theory Prelude
  imports
    Main
    "HOL-Library.Word"
    "HOL-Library.Multiset"
    "HOL-Library.List_Lexorder"
    "HOL-Library.Char_ord"
begin

text \<open>
  What the components share: the Go types the model uses (byte slices, fixed-width
  integers), the result of running code that may panic or run out of fuel, buffered Go
  channels, the generic transition system whose invariants hold in every reachable state,
  and lemmas on lists and relations that several components need.
\<close>

section \<open>Values\<close>

text \<open>
  A Go string is a sequence of bytes, which is what \<open>string\<close> is here (a list of 8-bit
  characters); a \<open>[]byte\<close> is a list of 8-bit words.
\<close>

type_synonym bytes = "8 word list"
type_synonym u32 = "32 word"
type_synonym u64 = "64 word"

text \<open>The conversions between \<open>string\<close> and \<open>[]byte\<close>.\<close>

definition byte_of_char :: "char \<Rightarrow> 8 word" where
  "byte_of_char c = word_of_nat (of_char c)"

definition str_bytes :: "string \<Rightarrow> bytes" where
  "str_bytes s = map byte_of_char s"

definition char_of_byte :: "8 word \<Rightarrow> char" where
  "char_of_byte b = char_of (unat b)"

lemma char_of_byte_of_char [simp]: "char_of_byte (byte_of_char c) = c"
  by (simp add: char_of_byte_def byte_of_char_def unat_of_nat take_bit_eq_mod [symmetric])

lemma str_bytes_inverse [simp]: "map char_of_byte (str_bytes s) = s"
  by (simp add: str_bytes_def comp_def)

lemma length_str_bytes [simp]: "length (str_bytes s) = length s"
  by (simp add: str_bytes_def)

named_theorems chan_simps \<open>behaviour of buffered channels\<close>
named_theorems dag_simps \<open>frame and lookup equations of the DAG stores\<close>
named_theorems pool_simps \<open>frame equations of the pool operations\<close>

text \<open>\<open>fmt.Sprintf("%d", n)\<close> for a non-negative number.\<close>

fun decimal :: "nat \<Rightarrow> string" where
  "decimal n = (if n < 10 then [char_of (48 + n)] else decimal (n div 10) @ [char_of (48 + n mod 10)])"

declare decimal.simps [simp del]

section \<open>Running code\<close>

text \<open>
  The outcome of running a piece of Go: it returns a value, it panics, or (for the loops
  that are modelled with fuel) the fuel was not enough.
\<close>

datatype 'a exec = Done 'a | Panic | OutOfFuel

fun exec_bind :: "'a exec \<Rightarrow> ('a \<Rightarrow> 'b exec) \<Rightarrow> 'b exec" where
  "exec_bind (Done x) f = f x"
| "exec_bind Panic f = Panic"
| "exec_bind OutOfFuel f = OutOfFuel"

lemma exec_bind_eq_Done:
  "exec_bind m f = Done y \<longleftrightarrow> (\<exists>x. m = Done x \<and> f x = Done y)"
  by (cases m) auto

lemma Done_eq_exec_bind:
  "Done y = exec_bind m f \<longleftrightarrow> (\<exists>x. m = Done x \<and> Done y = f x)"
  by (cases m) auto

lemma exec_bind_cong [fundef_cong]:
  "m = m' \<Longrightarrow> (\<And>x. m' = Done x \<Longrightarrow> f x = f' x) \<Longrightarrow> exec_bind m f = exec_bind m' f'"
  by (cases m') auto

section \<open>Buffered channels\<close>

text \<open>
  \<open>make(chan T, n)\<close>: a queue of at most \<open>n\<close> values and a closed flag. Only the
  non-blocking forms occur in this code base: a \<open>select\<close> with one communication case and
  a \<open>default\<close>. Sending on a closed channel and closing a closed channel panic; receiving
  from a closed and drained channel yields the zero value, here \<open>None\<close>.
\<close>

record 'a chan =
  buf :: "'a list"
  chan_cap :: nat
  chan_closed :: bool

definition make_chan :: "nat \<Rightarrow> 'a chan" where
  "make_chan n = \<lparr>buf = [], chan_cap = n, chan_closed = False\<rparr>"

definition try_send :: "'a \<Rightarrow> 'a chan \<Rightarrow> (bool \<times> 'a chan) exec" where
  "try_send x c =
     (if chan_closed c then Panic
      else if length (buf c) < chan_cap c then Done (True, c\<lparr>buf := buf c @ [x]\<rparr>)
      else Done (False, c))"

text \<open>
  The result of \<open>select { case v := <-ch: ... default: ... }\<close>: \<open>None\<close> for the default
  branch, \<open>Some None\<close> for the zero value of a closed channel, \<open>Some (Some v)\<close> for a value.
\<close>

definition try_recv :: "'a chan \<Rightarrow> 'a option option \<times> 'a chan" where
  "try_recv c =
     (case buf c of
        x # xs \<Rightarrow> (Some (Some x), c\<lparr>buf := xs\<rparr>)
      | [] \<Rightarrow> (if chan_closed c then Some None else None, c))"

definition close_chan :: "'a chan \<Rightarrow> 'a chan exec" where
  "close_chan c = (if chan_closed c then Panic else Done (c\<lparr>chan_closed := True\<rparr>))"

definition chan_ok :: "'a chan \<Rightarrow> bool" where
  "chan_ok c \<longleftrightarrow> length (buf c) \<le> chan_cap c"

lemma make_chan_simps [chan_simps, simp]:
  "buf (make_chan n) = []" "chan_cap (make_chan n) = n" "chan_closed (make_chan n) = False"
  by (simp_all add: make_chan_def)

lemma make_chan_ok [chan_simps, intro]: "chan_ok (make_chan n)"
  by (simp add: chan_ok_def make_chan_def)

lemma try_send_Done:
  "try_send x c = Done (b, c') \<Longrightarrow>
     chan_cap c' = chan_cap c \<and> chan_closed c' = chan_closed c \<and> \<not> chan_closed c \<and>
     buf c' = (if b then buf c @ [x] else buf c) \<and> (b \<longleftrightarrow> length (buf c) < chan_cap c)"
  by (auto simp: try_send_def split: if_splits)

lemma try_send_ok [chan_simps]:
  "try_send x c = Done (b, c') \<Longrightarrow> chan_ok c \<Longrightarrow> chan_ok c'"
  by (auto simp: try_send_def chan_ok_def split: if_splits)

lemma try_send_open [chan_simps]: "\<not> chan_closed c \<Longrightarrow> \<exists>b c'. try_send x c = Done (b, c')"
  by (auto simp: try_send_def)

lemma try_recv_ok [chan_simps]: "try_recv c = (r, c') \<Longrightarrow> chan_ok c \<Longrightarrow> chan_ok c'"
  by (auto simp: try_recv_def chan_ok_def split: list.splits if_splits)

lemma try_recv_frame:
  "try_recv c = (r, c') \<Longrightarrow> chan_cap c' = chan_cap c \<and> chan_closed c' = chan_closed c"
  by (auto simp: try_recv_def split: list.splits if_splits)

section \<open>Transition systems\<close>

text \<open>
  The concurrent parts of the code are step relations over a state. What they share is the
  passage from an inductive invariant to every reachable state and every run.
\<close>

locale transition_system =
  fixes init :: "'s \<Rightarrow> bool"
    and step :: "'s \<Rightarrow> 's \<Rightarrow> bool"
    and inv :: "'s \<Rightarrow> bool"
  assumes inv_init: "init s \<Longrightarrow> inv s"
    and inv_step: "inv s \<Longrightarrow> step s t \<Longrightarrow> inv t"
begin

lemma reachable_inv: "step\<^sup>*\<^sup>* s t \<Longrightarrow> init s \<Longrightarrow> inv t"
  by (induction rule: rtranclp_induct) (auto intro: inv_init inv_step)

lemma run_inv: "step\<^sup>*\<^sup>* s t \<Longrightarrow> inv s \<Longrightarrow> inv t"
  by (induction rule: rtranclp_induct) (auto intro: inv_step)

end

section \<open>Lists and relations\<close>

lemma find_missing: "find (\<lambda>p. m p = None) xs = None \<longleftrightarrow> set xs \<subseteq> dom m"
  by (auto simp: find_None_iff)

lemma case_option_Some_None: "(case x of None \<Rightarrow> None | Some p \<Rightarrow> Some (f p)) = None \<longleftrightarrow> x = None"
  by (cases x) simp_all

lemma closed_rtrancl: "r `` B \<subseteq> B \<Longrightarrow> (a, b) \<in> r\<^sup>* \<Longrightarrow> a \<in> B \<Longrightarrow> b \<in> B"
  by (rotate_tac 1, induction rule: rtrancl_induct) auto

lemma not_in_Range_trancl: "x \<notin> Range r \<Longrightarrow> (a, x) \<notin> r\<^sup>+"
  by (auto dest: trancl_range [THEN equalityD1, THEN subsetD, OF RangeI])

text \<open>
  Adding a node with edges to old nodes only keeps a relation acyclic: nothing points to
  the new node.
\<close>

lemma acyclic_add_source:
  assumes "acyclic r" and "x \<notin> Range r" and "x \<notin> P"
  shows "acyclic (r \<union> {x} \<times> P)"
proof (rule acyclicI, intro allI notI)
  let ?r = "r \<union> {x} \<times> P"
  have nx: "x \<notin> Range ?r" using assms(2,3) by auto
  fix a assume "(a, a) \<in> ?r\<^sup>+"
  moreover have "(a, b) \<in> ?r\<^sup>+ \<Longrightarrow> a \<noteq> x \<Longrightarrow> (a, b) \<in> r\<^sup>+ \<and> b \<noteq> x" for a b
  proof (induction rule: trancl_induct)
    case (base y)
    with nx show ?case by auto
  next
    case (step y z)
    then have "(a, y) \<in> r\<^sup>+" and "y \<noteq> x" by auto
    with step.hyps(2) nx show ?case by (auto intro: trancl_into_trancl)
  qed
  moreover have "a \<noteq> x"
    using \<open>(a, a) \<in> ?r\<^sup>+\<close> not_in_Range_trancl [OF nx] by auto
  ultimately have "(a, a) \<in> r\<^sup>+" by blast
  with assms(1) show False by (auto simp: acyclic_def)
qed

end
