(* ===== verification/Events.thy ===== *)
theory Events
  imports Prelude
begin

text \<open>
  The data of package \<open>dag\<close> (\<open>src/dag/dag.go\<close>): event types, events, beacon anchors and the
  errors its operations return; the reference graph of a map of events, and what it means
  for such a map to be well formed. Both stores (\<open>memory.go\<close>, \<open>ipfs.go\<close>) keep their events
  in a Go map from IDs to event pointers, modelled as a partial function.
\<close>

section \<open>Data\<close>

text \<open>
  \<open>EventType\<close> is a Go \<open>int\<close> with two named constants; other values can arrive through
  \<open>Import\<close>, so the type keeps its width.
\<close>

type_synonym event_type = u64

definition MainEvent :: event_type where "MainEvent = 0"
definition SubEvent :: event_type where "SubEvent = 1"

lemma event_type_distinct [simp]: "MainEvent \<noteq> SubEvent" "SubEvent \<noteq> MainEvent"
  by (simp_all add: MainEvent_def SubEvent_def)

record beacon_anchor =
  Round :: u64
  Anchor_Randomness :: bytes

record event =
  ID :: string
  Type :: event_type
  ParentID :: string
  Parents :: "string list"
  Children :: "string list"
  Data :: bytes
  Beacon :: "beacon_anchor option"

type_synonym event_map = "string \<rightharpoonup> event"

text \<open>
  The errors of the package. The first constructors are the wrapped sentinels of
  \<open>dag.go\<close> with the detail the wrapping adds; the others are the unwrapped
  \<open>fmt.Errorf\<close> values of the stores.
\<close>

datatype dag_error =
    ErrInvalidEvent string
  | ErrDuplicateEvent string
  | ErrMissingParent string
  | ErrNotFound
  | ErrNotFoundChild string
  | ErrCycleDetected string string
  | ErrEmptyID
  | ErrTraversal string
  | ErrSubNoParentID string
  | ErrSubBadParent string string
  | ErrRefMissingParent string string
  | ErrRefMissingChild string string
  | ErrParentFetch string dag_error
  | ErrChildFetch string dag_error
  | ErrComputeCID string
  | ErrIPFS string

section \<open>The reference graph\<close>

text \<open>
  \<open>edges m\<close> holds the pairs of an event and one of its \<open>Parents\<close>, the relation the
  cycle check of \<open>Verify\<close> walks. \<open>causal_edges\<close> adds the main event a sub-event names in
  \<open>ParentID\<close>.
\<close>

definition edges :: "event_map \<Rightarrow> (string \<times> string) set" where
  "edges m = {(c, p). \<exists>e. m c = Some e \<and> p \<in> set (Parents e)}"

definition refs :: "event \<Rightarrow> string list" where
  "refs e = (if Type e = SubEvent then [ParentID e] else []) @ Parents e"

definition causal_edges :: "event_map \<Rightarrow> (string \<times> string) set" where
  "causal_edges m = {(c, p). \<exists>e. m c = Some e \<and> p \<in> set (refs e)}"

lemma edges_subset_causal: "edges m \<subseteq> causal_edges m"
  by (auto simp: edges_def causal_edges_def refs_def)

text \<open>
  Well-formed: keys are the events' own non-empty IDs, sub-events name a parent, every
  reference resolves, and the causal relation has no cycle.
\<close>

definition refs_ok :: "event_map \<Rightarrow> bool" where
  "refs_ok m \<longleftrightarrow> (\<forall>i e. m i = Some e \<longrightarrow>
     (Type e = SubEvent \<longrightarrow> ParentID e \<noteq> [] \<and> ParentID e \<in> dom m) \<and> set (Parents e) \<subseteq> dom m)"

definition keys_ok :: "event_map \<Rightarrow> bool" where
  "keys_ok m \<longleftrightarrow> (\<forall>i e. m i = Some e \<longrightarrow> ID e = i \<and> i \<noteq> [])"

definition dag_wf :: "event_map \<Rightarrow> bool" where
  "dag_wf m \<longleftrightarrow> finite (dom m) \<and> keys_ok m \<and> refs_ok m \<and> acyclic (causal_edges m)"

definition children_exist :: "event_map \<Rightarrow> bool" where
  "children_exist m \<longleftrightarrow> (\<forall>i e. m i = Some e \<longrightarrow> set (Children e) \<subseteq> dom m)"

text \<open>
  The two directions of the graph agree: an ID occurs among an event's children exactly as
  often as the event with that ID refers to it.
\<close>

definition n_refs :: "event_map \<Rightarrow> string \<Rightarrow> string \<Rightarrow> nat" where
  "n_refs m c p = (case m c of None \<Rightarrow> 0 | Some e \<Rightarrow> count_list (refs e) p)"

definition children_exact :: "event_map \<Rightarrow> bool" where
  "children_exact m \<longleftrightarrow>
     (\<forall>p e c. m p = Some e \<longrightarrow> count_list (Children e) c = n_refs m c p)"

lemma refs_okD:
  "refs_ok m \<Longrightarrow> m i = Some e \<Longrightarrow> set (refs e) \<subseteq> dom m"
  by (auto simp: refs_ok_def refs_def)

lemma children_existD: "children_exist m \<Longrightarrow> m i = Some e \<Longrightarrow> set (Children e) \<subseteq> dom m"
  by (simp add: children_exist_def)

lemma edgesI: "m c = Some e \<Longrightarrow> p \<in> set (Parents e) \<Longrightarrow> (c, p) \<in> edges m"
  by (auto simp: edges_def)

lemma children_exact_exist:
  assumes "children_exact m" shows "children_exist m"
  unfolding children_exist_def
proof (intro allI impI subsetI)
  fix i e c assume "m i = Some e" and "c \<in> set (Children e)"
  then have "n_refs m c i \<noteq> 0"
    using assms by (metis children_exact_def count_list_0_iff)
  then show "c \<in> dom m" by (auto simp: n_refs_def split: option.splits)
qed

text \<open>
  What the well-formedness predicates see of an event: updating only the \<open>Children\<close> or the
  \<open>Beacon\<close> of stored events leaves the graph alone.
\<close>

definition same_refs :: "event \<Rightarrow> event \<Rightarrow> bool" where
  "same_refs a b \<longleftrightarrow> ID a = ID b \<and> Type a = Type b \<and> ParentID a = ParentID b \<and>
     Parents a = Parents b \<and> Data a = Data b"

definition same_graph :: "event_map \<Rightarrow> event_map \<Rightarrow> bool" where
  "same_graph m m' \<longleftrightarrow> dom m' = dom m \<and>
     (\<forall>i e e'. m i = Some e \<longrightarrow> m' i = Some e' \<longrightarrow> same_refs e e')"

lemma same_refs_refl [simp]: "same_refs e e"
  by (simp add: same_refs_def)

lemma same_graph_refl [simp]: "same_graph m m"
  by (auto simp: same_graph_def)

lemma same_refs_refs: "same_refs a b \<Longrightarrow> refs a = refs b"
  by (simp add: same_refs_def refs_def)

lemma same_refs_trans: "same_refs a b \<Longrightarrow> same_refs b c \<Longrightarrow> same_refs a c"
  by (simp add: same_refs_def)

lemma same_refs_sym: "same_refs a b \<Longrightarrow> same_refs b a"
  by (simp add: same_refs_def)

lemma same_graph_dom: "same_graph m m' \<Longrightarrow> dom m' = dom m"
  by (simp add: same_graph_def)

lemma same_graphD:
  assumes "same_graph m m'" and "m i = Some e"
  obtains e' where "m' i = Some e'" and "same_refs e e'"
proof -
  have "i \<in> dom m'" unfolding same_graph_dom [OF assms(1)] using assms(2) by (rule domI)
  then obtain e' where e': "m' i = Some e'" by blast
  with assms have "same_refs e e'" by (simp add: same_graph_def)
  with e' that show thesis by blast
qed

lemma same_graph_sym: "same_graph a b \<Longrightarrow> same_graph b a"
  by (simp add: same_graph_def same_refs_def)

lemma same_graph_trans:
  assumes "same_graph a b" and "same_graph b c" shows "same_graph a c"
  unfolding same_graph_def
proof (intro conjI allI impI)
  fix i e e' assume e: "a i = Some e" and e': "c i = Some e'"
  from same_graphD [OF assms(1) e] obtain x where x: "b i = Some x" and "same_refs e x" .
  moreover from assms(2) x e' have "same_refs x e'" by (auto simp: same_graph_def)
  ultimately show "same_refs e e'" by (blast intro: same_refs_trans)
qed (use assms in \<open>simp add: same_graph_def\<close>)

lemma same_graph_upd:
  "m i = Some e \<Longrightarrow> same_refs e e' \<Longrightarrow> same_graph m (m(i \<mapsto> e'))"
  by (auto simp: same_graph_def)

lemma same_graph_None:
  assumes "same_graph m m'" and "m i = None" shows "m' i = None"
proof -
  have "i \<notin> dom m'" unfolding same_graph_dom [OF assms(1)] using assms(2) by (simp add: domIff)
  then show ?thesis by (simp add: domIff)
qed

lemma same_graph_n_refs:
  assumes "same_graph m m'" shows "n_refs m' c p = n_refs m c p"
proof (cases "m c")
  case None
  with same_graph_None [OF assms] show ?thesis by (simp add: n_refs_def)
next
  case (Some e)
  from same_graphD [OF assms Some] obtain e' where "m' c = Some e'" and "same_refs e e'" .
  with Some show ?thesis by (simp add: n_refs_def same_refs_refs)
qed

lemma same_graph_causal_sub: "same_graph m m' \<Longrightarrow> causal_edges m \<subseteq> causal_edges m'"
  unfolding causal_edges_def by (auto elim!: same_graphD simp: same_refs_refs)

lemma same_graph_causal: "same_graph m m' \<Longrightarrow> causal_edges m' = causal_edges m"
  by (meson equalityI same_graph_causal_sub same_graph_sym)

lemma same_graph_refs_ok:
  assumes "same_graph m m'" and "refs_ok m" shows "refs_ok m'"
  unfolding refs_ok_def same_graph_dom [OF assms(1)]
proof (intro allI impI)
  fix i e' assume "m' i = Some e'"
  from same_graphD [OF same_graph_sym [OF assms(1)] this] obtain e
    where e: "m i = Some e" and "same_refs e' e" .
  moreover from assms(2) e have
    "(Type e = SubEvent \<longrightarrow> ParentID e \<noteq> [] \<and> ParentID e \<in> dom m) \<and> set (Parents e) \<subseteq> dom m"
    by (simp add: refs_ok_def)
  ultimately show "(Type e' = SubEvent \<longrightarrow> ParentID e' \<noteq> [] \<and> ParentID e' \<in> dom m) \<and>
      set (Parents e') \<subseteq> dom m"
    by (simp add: same_refs_def)
qed

lemma same_graph_wf:
  assumes g: "same_graph m m'" and wf: "dag_wf m" shows "dag_wf m'"
proof -
  have "keys_ok m'"
    using wf by (auto simp: dag_wf_def keys_ok_def same_refs_def
        elim!: same_graphD [OF same_graph_sym [OF g]])
  then show ?thesis
    using wf g same_graph_refs_ok [OF g] by (simp add: dag_wf_def same_graph_causal same_graph_dom)
qed

text \<open>
  Inserting a fresh event whose references resolve keeps a map well formed.
\<close>

lemma n_refs_insert:
  "m i = None \<Longrightarrow> n_refs (m(i \<mapsto> e)) c p = (if c = i then count_list (refs e) p else n_refs m c p)"
  by (simp add: n_refs_def)

lemma dag_wf_insert:
  assumes wf: "dag_wf m" and fresh: "ID e \<notin> dom m" and ne: "ID e \<noteq> []"
    and sub: "Type e = SubEvent \<Longrightarrow> ParentID e \<noteq> []" and refs: "set (refs e) \<subseteq> dom m"
  shows "dag_wf (m(ID e \<mapsto> e))"
proof -
  let ?m = "m(ID e \<mapsto> e)"
  have ce: "causal_edges ?m = causal_edges m \<union> {ID e} \<times> set (refs e)"
    using fresh by (auto simp: causal_edges_def split: if_splits)
  have "ID e \<notin> Range (causal_edges m)"
  proof
    assume "ID e \<in> Range (causal_edges m)"
    then obtain i ei where "m i = Some ei" and "ID e \<in> set (refs ei)"
      by (auto simp: causal_edges_def)
    then have "ID e \<in> dom m" using refs_okD [of m i ei] wf by (auto simp: dag_wf_def)
    with fresh show False by simp
  qed
  moreover have "ID e \<notin> set (refs e)" using refs fresh by auto
  ultimately have "acyclic (causal_edges ?m)"
    unfolding ce using wf by (intro acyclic_add_source) (simp_all add: dag_wf_def)
  moreover have "keys_ok ?m" using wf ne by (auto simp: dag_wf_def keys_ok_def)
  moreover have "refs_ok ?m"
  proof -
    have "refs_ok m" using wf by (simp add: dag_wf_def)
    then show ?thesis using sub refs unfolding refs_ok_def refs_def
      by (auto split: if_splits)
  qed
  ultimately show ?thesis using wf by (simp add: dag_wf_def)
qed

end
