(* ===== verification/CycleCheck.thy ===== *)
theory CycleCheck
  imports Events
begin

text \<open>
  The depth-first cycle detection that both \<open>Verify\<close> methods contain as a local closure
  (\<open>src/dag/memory.go\<close>, \<open>src/dag/ipfs.go\<close>): its definition with the \<open>visited\<close> and
  \<open>inStack\<close> maps as explicit state, the proof that it terminates without a nil
  dereference, and that it reports an error exactly when the parent graph has a cycle.
\<close>

section \<open>The search\<close>

text \<open>
  \<open>visited\<close> and \<open>inStack\<close> as the sets of IDs mapped to true. The recursion of the closure
  is bounded by fuel (the recursion depth); a lookup of an ID that is not in the map yields
  a nil pointer, whose \<open>Parents\<close> field read panics.
\<close>

type_synonym dfs_state = "string set \<times> string set"

function (sequential) checkCycle ::
    "event_map \<Rightarrow> nat \<Rightarrow> string \<Rightarrow> dfs_state \<Rightarrow> (dag_error option \<times> dfs_state) exec"
  and checkParents ::
    "event_map \<Rightarrow> nat \<Rightarrow> string \<Rightarrow> string list \<Rightarrow> dfs_state \<Rightarrow>
       (dag_error option \<times> dfs_state) exec" where
  "checkCycle m 0 i st = OutOfFuel"
| "checkCycle m (Suc n) i (visited, inStack) =
     (case m i of
        None \<Rightarrow> Panic
      | Some e \<Rightarrow>
          exec_bind (checkParents m n i (Parents e) (insert i visited, insert i inStack))
            (\<lambda>(r, visited', inStack'). Done (r, visited', inStack' - {i})))"
| "checkParents m n i [] st = Done (None, st)"
| "checkParents m n i (p # ps) (visited, inStack) =
     (if p \<notin> visited then
        exec_bind (checkCycle m n p (visited, inStack))
          (\<lambda>(r, st). case r of Some err \<Rightarrow> Done (Some err, st) | None \<Rightarrow> checkParents m n i ps st)
      else if p \<in> inStack then Done (Some (ErrCycleDetected i p), (visited, inStack))
      else checkParents m n i ps (visited, inStack))"
  by pat_completeness auto
termination
  by (relation "measures [\<lambda>x. case x of Inl (m, n, i, st) \<Rightarrow> n | Inr (m, n, i, ps, st) \<Rightarrow> n,
        \<lambda>x. case x of Inl (m, n, i, st) \<Rightarrow> 0 | Inr (m, n, i, ps, st) \<Rightarrow> Suc (length ps)]")
    auto

text \<open>The loop over all events, in the order the runtime happens to range over the map.\<close>

fun checkAll :: "event_map \<Rightarrow> nat \<Rightarrow> string list \<Rightarrow> dfs_state \<Rightarrow>
    (dag_error option \<times> dfs_state) exec" where
  "checkAll m n [] st = Done (None, st)"
| "checkAll m n (i # is) st =
     (if i \<notin> fst st then
        exec_bind (checkCycle m n i st)
          (\<lambda>(r, st'). case r of Some err \<Rightarrow> Done (Some err, st') | None \<Rightarrow> checkAll m n is st')
      else checkAll m n is st)"

section \<open>Correctness\<close>

definition parents_ok :: "event_map \<Rightarrow> bool" where
  "parents_ok m \<longleftrightarrow> (\<forall>i e. m i = Some e \<longrightarrow> set (Parents e) \<subseteq> dom m)"

text \<open>
  Finished nodes (visited and no longer on the stack) are closed under the parent relation
  and lie on no cycle.
\<close>

definition dfs_inv :: "event_map \<Rightarrow> string set \<Rightarrow> string set \<Rightarrow> bool" where
  "dfs_inv m V S \<longleftrightarrow> V \<subseteq> dom m \<and> S \<subseteq> V \<and> edges m `` (V - S) \<subseteq> V - S \<and>
     (\<forall>b \<in> V - S. (b, b) \<notin> (edges m)\<^sup>+)"

text \<open>What a call promises: \<open>T\<close> are the nodes it has finished if it reports no cycle.\<close>

definition dfs_post :: "event_map \<Rightarrow> string set \<Rightarrow> string set \<Rightarrow> string set \<Rightarrow>
    (dag_error option \<times> dfs_state) exec \<Rightarrow> bool" where
  "dfs_post m V S T res \<longleftrightarrow> (\<exists>r V' S'. res = Done (r, V', S') \<and>
     (r = None \<longrightarrow> S' = S \<and> V \<subseteq> V' \<and> T \<subseteq> V' - S \<and> dfs_inv m V' S) \<and>
     (r \<noteq> None \<longrightarrow> \<not> acyclic (edges m)))"

lemma dfs_post_widen:
  assumes "dfs_post m V' S T res" and "V \<subseteq> V'" and "T0 \<subseteq> V' - S" and "T' \<subseteq> T0 \<union> T"
  shows "dfs_post m V S T' res"
proof -
  from assms(1) obtain r V2 S2 where *: "res = Done (r, V2, S2)"
      "r = None \<longrightarrow> S2 = S \<and> V' \<subseteq> V2 \<and> T \<subseteq> V2 - S \<and> dfs_inv m V2 S"
      "r \<noteq> None \<longrightarrow> \<not> acyclic (edges m)"
    by (auto simp: dfs_post_def)
  moreover have "V' \<subseteq> V2 \<Longrightarrow> T \<subseteq> V2 - S \<Longrightarrow> V \<subseteq> V2 \<and> T' \<subseteq> V2 - S"
    using assms(2-4) by blast
  ultimately show ?thesis unfolding dfs_post_def by blast
qed

lemma dfs_inv_push:
  "dfs_inv m V S \<Longrightarrow> i \<in> dom m \<Longrightarrow> i \<notin> V \<Longrightarrow> dfs_inv m (insert i V) (insert i S)"
proof -
  assume a: "dfs_inv m V S" "i \<in> dom m" "i \<notin> V"
  then have "insert i V - insert i S = V - S" by (auto simp: dfs_inv_def)
  with a show ?thesis by (auto simp: dfs_inv_def)
qed

text \<open>Popping a node whose parents are all finished: it is finished, and on no cycle.\<close>

lemma dfs_inv_pop:
  assumes inv: "dfs_inv m V (insert i S)" and i: "i \<notin> S"
    and ps: "edges m `` {i} \<subseteq> V - insert i S"
  shows "dfs_inv m V S"
proof -
  let ?B = "V - insert i S"
  have iV: "i \<in> V" and B: "V - S = insert i ?B" using inv i by (auto simp: dfs_inv_def)
  have closed: "edges m `` ?B \<subseteq> ?B" using inv by (simp add: dfs_inv_def)
  have "(i, i) \<notin> (edges m)\<^sup>+"
  proof
    assume "(i, i) \<in> (edges m)\<^sup>+"
    then obtain p where "(i, p) \<in> edges m" and "(p, i) \<in> (edges m)\<^sup>*" by (blast dest: tranclD)
    moreover from this ps have "p \<in> ?B" by auto
    ultimately have "i \<in> ?B" using closed_rtrancl [OF closed] by blast
    then show False by simp
  qed
  moreover have "edges m `` (V - S) \<subseteq> V - S" unfolding B using closed ps by auto
  ultimately show ?thesis using inv B by (auto simp: dfs_inv_def)
qed

lemma card_unvisited:
  assumes "finite (dom m)" and "i \<in> dom m" and "i \<notin> V" and "card (dom m - V) \<le> Suc n"
  shows "card (dom m - insert i V) \<le> n"
proof -
  have "dom m - V = insert i (dom m - insert i V)" using assms by auto
  then have "card (dom m - V) = Suc (card (dom m - insert i V))"
    using assms(1) by (metis Diff_iff card_insert_disjoint finite_Diff insertI1)
  with assms(4) show ?thesis by simp
qed

lemma card_unvisited_mono:
  "finite (dom m) \<Longrightarrow> V \<subseteq> V' \<Longrightarrow> card (dom m - V) \<le> n \<Longrightarrow> card (dom m - V') \<le> n"
  by (meson Diff_mono card_mono finite_Diff order_refl order_trans)

lemma dfs_correct:
  "finite (dom m) \<Longrightarrow> parents_ok m \<Longrightarrow> i \<in> dom m \<Longrightarrow> i \<notin> fst st \<Longrightarrow> dfs_inv m (fst st) (snd st) \<Longrightarrow>
      \<forall>s \<in> snd st. (s, i) \<in> (edges m)\<^sup>* \<Longrightarrow> card (dom m - fst st) \<le> n \<Longrightarrow>
      dfs_post m (fst st) (snd st) {i} (checkCycle m n i st)"
  "finite (dom m) \<Longrightarrow> parents_ok m \<Longrightarrow> i \<in> snd st \<Longrightarrow> dfs_inv m (fst st) (snd st) \<Longrightarrow>
      {i} \<times> set ps \<subseteq> edges m \<Longrightarrow>
      \<forall>s \<in> snd st. (s, i) \<in> (edges m)\<^sup>* \<Longrightarrow> card (dom m - fst st) \<le> n \<Longrightarrow>
      dfs_post m (fst st) (snd st) (set ps) (checkParents m n i ps st)"
proof (induction m n i st and m n i ps st rule: checkCycle_checkParents.induct)
  case (1 m i st)
  then have "card (dom m - fst st) = 0" and "i \<in> dom m - fst st" by simp_all
  with "1.prems"(1) have False by auto
  then show ?case ..
next
  case (2 m n i V S)
  from "2.prems" obtain e where e: "m i = Some e" by auto
  have inv: "dfs_inv m (insert i V) (insert i S)"
    using "2.prems" by (intro dfs_inv_push) simp_all
  have es: "{i} \<times> set (Parents e) \<subseteq> edges m" using e by (auto simp: edges_def)
  have out: "edges m `` {i} = set (Parents e)" using e by (auto simp: edges_def)
  have iS: "i \<notin> S" using "2.prems" by (auto simp: dfs_inv_def)
  have "dfs_post m (insert i V) (insert i S) (set (Parents e))
      (checkParents m n i (Parents e) (insert i V, insert i S))"
    using "2.IH" [OF e] "2.prems" inv es card_unvisited [of m i V n] by simp
  then obtain r V' S' where
      res: "checkParents m n i (Parents e) (insert i V, insert i S) = Done (r, V', S')"
    and good: "r = None \<Longrightarrow> S' = insert i S \<and> insert i V \<subseteq> V' \<and>
        set (Parents e) \<subseteq> V' - insert i S \<and> dfs_inv m V' (insert i S)"
    and bad: "r \<noteq> None \<Longrightarrow> \<not> acyclic (edges m)"
    unfolding dfs_post_def by auto
  have "checkCycle m (Suc n) i (V, S) = Done (r, V', S' - {i})" using e res by simp
  moreover have "S' - {i} = S \<and> V \<subseteq> V' \<and> {i} \<subseteq> V' - S \<and> dfs_inv m V' S" if "r = None"
    using good [OF that] iS dfs_inv_pop [of m V' i S] out by auto
  ultimately show ?case using bad by (auto simp: dfs_post_def)
next
  case (3 m n i st)
  then show ?case by (cases st) (simp add: dfs_post_def)
next
  case (4 m n i p ps V S)
  have ip: "(i, p) \<in> edges m" using "4.prems" by simp
  have pm: "p \<in> dom m" using ip "4.prems"(2) by (auto simp: parents_ok_def edges_def)
  show ?case
  proof (cases "p \<in> V")
    case True
    show ?thesis
    proof (cases "p \<in> S")
      case pS: True
      then have "(p, i) \<in> (edges m)\<^sup>*" using "4.prems" by simp
      with ip have "(i, i) \<in> (edges m)\<^sup>+" by (rule rtrancl_into_trancl2)
      then have "\<not> acyclic (edges m)" by (auto simp: acyclic_def)
      with True pS show ?thesis by (simp add: dfs_post_def)
    next
      case False
      with True "4.IH"(3) "4.prems" have
        "dfs_post m V S (set ps) (checkParents m n i ps (V, S))" by simp
      with True False show ?thesis by (auto simp: dfs_post_def)
    qed
  next
    case pV: False
    have "\<forall>s \<in> S. (s, p) \<in> (edges m)\<^sup>*"
      using "4.prems" ip by (auto intro: rtrancl_into_rtrancl)
    with pV pm "4.IH"(1) "4.prems" have "dfs_post m V S {p} (checkCycle m n p (V, S))" by simp
    then obtain r V' S' where res: "checkCycle m n p (V, S) = Done (r, V', S')"
      and good: "r = None \<Longrightarrow> S' = S \<and> V \<subseteq> V' \<and> p \<in> V' - S \<and> dfs_inv m V' S"
      and bad: "r \<noteq> None \<Longrightarrow> \<not> acyclic (edges m)"
      unfolding dfs_post_def by auto
    show ?thesis
    proof (cases r)
      case (Some err)
      with res pV bad show ?thesis by (simp add: dfs_post_def)
    next
      case None
      from good [OF None] have g: "S' = S" "V \<subseteq> V'" "p \<in> V' - S" "dfs_inv m V' S" by auto
      have "card (dom m - V') \<le> n"
        using card_unvisited_mono [OF _ g(2)] "4.prems" by simp
      with "4.IH"(2) [of "(r, V', S')" r "(V', S')"] res None pV g "4.prems"
      have "dfs_post m V' S (set ps) (checkParents m n i ps (V', S))" by simp
      moreover have "checkParents m n i (p # ps) (V, S) = checkParents m n i ps (V', S)"
        using res None pV g(1) by simp
      ultimately show ?thesis
        using g dfs_post_widen [of m V' S "set ps" _ V "{p}" "set (p # ps)"] by simp
    qed
  qed
qed

text \<open>The whole check: run from an empty stack over every event.\<close>

lemma checkAll_correct:
  assumes fin: "finite (dom m)" and ok: "parents_ok m"
  shows "set is \<subseteq> dom m \<Longrightarrow> dfs_inv m V {} \<Longrightarrow> card (dom m - V) \<le> n \<Longrightarrow>
    dfs_post m V {} (set is) (checkAll m n is (V, {}))"
proof (induction "is" arbitrary: V)
  case Nil
  then show ?case by (simp add: dfs_post_def)
next
  case (Cons i "is")
  show ?case
  proof (cases "i \<in> V")
    case True
    with Cons have "dfs_post m V {} (set is) (checkAll m n is (V, {}))" by simp
    with True show ?thesis by (auto simp: dfs_post_def)
  next
    case iV: False
    with Cons.prems dfs_correct(1) [OF fin ok, of i "(V, {})" n]
    have "dfs_post m V {} {i} (checkCycle m n i (V, {}))" by simp
    then obtain r V' S' where res: "checkCycle m n i (V, {}) = Done (r, V', S')"
      and good: "r = None \<Longrightarrow> S' = {} \<and> V \<subseteq> V' \<and> i \<in> V' \<and> dfs_inv m V' {}"
      and bad: "r \<noteq> None \<Longrightarrow> \<not> acyclic (edges m)"
      unfolding dfs_post_def by auto
    show ?thesis
    proof (cases r)
      case (Some err)
      with res iV bad show ?thesis by (simp add: dfs_post_def)
    next
      case None
      from good [OF None] have g: "S' = {}" "V \<subseteq> V'" "i \<in> V'" "dfs_inv m V' {}" by auto
      have "card (dom m - V') \<le> n"
        using card_unvisited_mono [OF fin g(2)] Cons.prems by simp
      with Cons g have "dfs_post m V' {} (set is) (checkAll m n is (V', {}))" by simp
      moreover have "checkAll m n (i # is) (V, {}) = checkAll m n is (V', {})"
        using res None iV g(1) by simp
      ultimately show ?thesis
        using g dfs_post_widen [of m V' "{}" "set is" _ V "{i}" "set (i # is)"] by simp
    qed
  qed
qed

lemma acyclic_edges_if_all_finished:
  assumes "dfs_inv m V {}" and "dom m \<subseteq> V" shows "acyclic (edges m)"
proof (rule acyclicI, intro allI notI)
  fix a assume a: "(a, a) \<in> (edges m)\<^sup>+"
  then have "a \<in> dom m" by (auto simp: edges_def dest: tranclD)
  with assms have "a \<in> V - {}" by auto
  with assms(1) a show False by (auto simp: dfs_inv_def)
qed

lemma checkAll_result:
  assumes "finite (dom m)" and "parents_ok m" and "set is = dom m" and "card (dom m) \<le> n"
  shows "\<exists>r st. checkAll m n is ({}, {}) = Done (r, st) \<and> (r = None \<longleftrightarrow> acyclic (edges m))"
proof -
  have "dfs_inv m {} {}" by (simp add: dfs_inv_def)
  with checkAll_correct [of m "is" "{}" n] assms
  have "dfs_post m {} {} (dom m) (checkAll m n is ({}, {}))" by simp
  then obtain r V' S' where "checkAll m n is ({}, {}) = Done (r, V', S')"
    and "r = None \<Longrightarrow> dom m \<subseteq> V' \<and> dfs_inv m V' {}"
    and "r \<noteq> None \<Longrightarrow> \<not> acyclic (edges m)"
    unfolding dfs_post_def by auto
  then show ?thesis using acyclic_edges_if_all_finished [of m V'] by (cases r) auto
qed

end
