(* ===== verification/SubEvents.thy ===== *)
theory SubEvents
  imports Events
begin

text \<open>
  The recursive traversal inside both \<open>GetSubEvents\<close> methods (\<open>src/dag/memory.go\<close>,
  \<open>src/dag/ipfs.go\<close>). The two closures differ only in where they read an event's children:
  from the event itself, or from the separate children index; \<open>kids\<close> is that difference.
  The traversal terminates on every map, and when all children resolve it collects exactly
  the sub-events of the root it reaches, each once.
\<close>

section \<open>The traversal\<close>

type_synonym kids = "string \<Rightarrow> event \<Rightarrow> string list"
type_synonym trav_state = "string set \<times> event list"

definition is_sub_of :: "string \<Rightarrow> event \<Rightarrow> bool" where
  "is_sub_of root e \<longleftrightarrow> Type e = SubEvent \<and> ParentID e = root"

function (sequential) traverse ::
    "kids \<Rightarrow> event_map \<Rightarrow> string \<Rightarrow> nat \<Rightarrow> string \<Rightarrow> trav_state \<Rightarrow>
       (dag_error option \<times> trav_state) exec"
  and traverseAll ::
    "kids \<Rightarrow> event_map \<Rightarrow> string \<Rightarrow> nat \<Rightarrow> string list \<Rightarrow> trav_state \<Rightarrow>
       (dag_error option \<times> trav_state) exec" where
  "traverse k m root 0 i st = OutOfFuel"
| "traverse k m root (Suc n) i (visited, subs) =
     (if i \<in> visited then Done (None, visited, subs)
      else
        (case m i of
           None \<Rightarrow> Done (Some (ErrTraversal i), insert i visited, subs)
         | Some e \<Rightarrow>
             (if is_sub_of root e
              then traverseAll k m root n (k i e) (insert i visited, subs @ [e])
              else Done (None, insert i visited, subs))))"
| "traverseAll k m root n [] st = Done (None, st)"
| "traverseAll k m root n (c # cs) st =
     exec_bind (traverse k m root n c st)
       (\<lambda>(r, st'). case r of Some err \<Rightarrow> Done (Some err, st')
                           | None \<Rightarrow> traverseAll k m root n cs st')"
  by pat_completeness auto
termination
  by (relation "measures
        [\<lambda>x. case x of Inl (k, m, r, n, i, st) \<Rightarrow> n | Inr (k, m, r, n, cs, st) \<Rightarrow> n,
         \<lambda>x. case x of Inl (k, m, r, n, i, st) \<Rightarrow> 0 | Inr (k, m, r, n, cs, st) \<Rightarrow> Suc (length cs)]")
    auto

section \<open>Correctness\<close>

definition kids_ok :: "kids \<Rightarrow> event_map \<Rightarrow> bool" where
  "kids_ok k m \<longleftrightarrow> (\<forall>i e. m i = Some e \<longrightarrow> set (k i e) \<subseteq> dom m)"

text \<open>The collected list holds the sub-events of the root among the visited IDs, each once.\<close>

definition collected :: "event_map \<Rightarrow> string \<Rightarrow> string set \<Rightarrow> event list \<Rightarrow> bool" where
  "collected m root V subs \<longleftrightarrow> distinct (map ID subs) \<and>
     set subs = {e. \<exists>i \<in> V. m i = Some e \<and> is_sub_of root e}"

definition trav_post ::
    "kids \<Rightarrow> event_map \<Rightarrow> string \<Rightarrow> string set \<Rightarrow> event list \<Rightarrow> string set \<Rightarrow>
       (dag_error option \<times> trav_state) exec \<Rightarrow> bool" where
  "trav_post k m root V subs T res \<longleftrightarrow> (\<exists>r V' subs'. res = Done (r, V', subs') \<and> V \<subseteq> V' \<and>
     (r = None \<longrightarrow> T \<subseteq> V') \<and>
     (keys_ok m \<and> collected m root V subs \<longrightarrow> collected m root V' subs') \<and>
     (kids_ok k m \<and> T \<subseteq> dom m \<longrightarrow> r = None))"

lemma kids_ok_children: "kids_ok k m \<Longrightarrow> m i = Some e \<Longrightarrow> set (k i e) \<subseteq> dom m"
  by (simp add: kids_ok_def)

lemma collected_skip:
  "collected m root V subs \<Longrightarrow> (\<And>e. m i = Some e \<Longrightarrow> \<not> is_sub_of root e) \<Longrightarrow>
     collected m root (insert i V) subs"
  by (auto simp: collected_def)

lemma collected_add:
  assumes "keys_ok m" and "collected m root V subs" and "m i = Some e" and "is_sub_of root e"
    and "i \<notin> V"
  shows "collected m root (insert i V) (subs @ [e])"
proof -
  have "ID e \<notin> ID ` set subs"
    using assms by (auto simp: collected_def keys_ok_def)
  with assms show ?thesis by (auto simp: collected_def)
qed

lemma card_diff_insert_less:
  assumes "finite D" and "i \<in> D" and "i \<notin> V" and "card (D - V) < Suc n"
  shows "card (D - insert i V) < n"
proof -
  have "D - V = insert i (D - insert i V)" using assms by auto
  then have "card (D - V) = Suc (card (D - insert i V))"
    using assms(1) by (metis Diff_iff card_insert_disjoint finite_Diff insertI1)
  with assms(4) show ?thesis by simp
qed

lemma card_diff_mono_less:
  "finite D \<Longrightarrow> V \<subseteq> V' \<Longrightarrow> card (D - V) < n \<Longrightarrow> card (D - V') < n"
  by (meson Diff_mono card_mono finite_Diff le_less_trans order_refl)

lemma trav_post_seq:
  assumes "trav_post k m root V subs {c} (Done (None, V1, subs1))"
    and "trav_post k m root V1 subs1 T res"
  shows "trav_post k m root V subs (insert c T) res"
  using assms unfolding trav_post_def by (elim exE conjE) (auto; blast)

lemma traverse_correct:
  "finite (dom m) \<Longrightarrow> card (dom m - fst st) < n \<Longrightarrow>
     trav_post k m root (fst st) (snd st) {i} (traverse k m root n i st)"
  "finite (dom m) \<Longrightarrow> card (dom m - fst st) < n \<Longrightarrow>
     trav_post k m root (fst st) (snd st) (set cs) (traverseAll k m root n cs st)"
proof (induction k m root n i st and k m root n cs st rule: traverse_traverseAll.induct)
  case (1 k m root i st)
  then show ?case by simp
next
  case (2 k m root n i V subs)
  show ?case
  proof (cases "i \<in> V")
    case True
    then show ?thesis by (auto simp: trav_post_def)
  next
    case iV: False
    show ?thesis
    proof (cases "m i")
      case None
      with iV show ?thesis by (auto simp: trav_post_def intro!: collected_skip)
    next
      case (Some e)
      show ?thesis
      proof (cases "is_sub_of root e")
        case False
        with iV Some show ?thesis by (auto simp: trav_post_def intro!: collected_skip)
      next
        case True
        let ?res = "traverseAll k m root n (k i e) (insert i V, subs @ [e])"
        have "card (dom m - insert i V) < n"
          using "2.prems" Some iV by (intro card_diff_insert_less) auto
        with "2.IH" [OF iV Some True] "2.prems"
        have "trav_post k m root (insert i V) (subs @ [e]) (set (k i e)) ?res" by simp
        then have "trav_post k m root V subs {i} ?res"
          using collected_add [of m root V subs i e] Some True iV kids_ok_children [of k m i e]
          unfolding trav_post_def by blast
        with iV Some True show ?thesis by simp
      qed
    qed
  qed
next
  case (3 k m root n st)
  then show ?case by (cases st) (simp add: trav_post_def)
next
  case (4 k m root n c cs st)
  obtain r V' subs' where res: "traverse k m root n c st = Done (r, V', subs')"
    and post: "trav_post k m root (fst st) (snd st) {c} (Done (r, V', subs'))" and "fst st \<subseteq> V'"
    using "4.IH"(1) [OF "4.prems"] unfolding trav_post_def by auto
  show ?case
  proof (cases r)
    case (Some err)
    with res post show ?thesis by (auto simp: trav_post_def)
  next
    case None
    have "card (dom m - V') < n"
      using "4.prems" \<open>fst st \<subseteq> V'\<close> card_diff_mono_less by blast
    with "4.IH"(2) [OF res refl None] "4.prems"
    have "trav_post k m root V' subs' (set cs) (traverseAll k m root n cs (V', subs'))" by simp
    from trav_post_seq [OF post [unfolded None] this] res None show ?thesis by simp
  qed
qed

end
