(* ===== verification/StoreOps.thy ===== *)
theory StoreOps
  imports Events CycleCheck SubEvents
begin

text \<open>
  What \<open>memory.go\<close> and \<open>ipfs.go\<close> do in the same way over their \<open>events\<close> map: the reference
  checks of \<open>Verify\<close>, the loops that look up a list of IDs, the order in which Go ranges
  over a map, and the interface \<open>DAG\<close> (\<open>src/dag/dag.go\<close>) as a locale: what a client of a
  store may rely on when it adds events.
\<close>

section \<open>Ranging over a map\<close>

text \<open>
  Go visits the keys of a map in an unspecified order. An operation that ranges over the
  events takes the order as an argument: a list of the keys without repetition.
\<close>

definition range_order :: "event_map \<Rightarrow> string list \<Rightarrow> bool" where
  "range_order m ks \<longleftrightarrow> distinct ks \<and> set ks = dom m"

lemma range_order_finite: "range_order m ks \<Longrightarrow> finite (dom m)"
  by (metis List.finite_set range_order_def)

lemma range_order_card: "range_order m ks \<Longrightarrow> card (dom m) = length ks"
  by (metis distinct_card range_order_def)

section \<open>Reference checks of \<open>Verify\<close>\<close>

text \<open>They only ask whether an ID is present, whatever the map holds there.\<close>

definition check_parent_refs :: "(string \<rightharpoonup> 'a) \<Rightarrow> string \<Rightarrow> event \<Rightarrow> dag_error option" where
  "check_parent_refs m i e =
     (if Type e = SubEvent \<and> ParentID e = [] then Some (ErrSubNoParentID i)
      else if Type e = SubEvent \<and> m (ParentID e) = None
      then Some (ErrSubBadParent i (ParentID e))
      else
        (case find (\<lambda>p. m p = None) (Parents e) of
           Some p \<Rightarrow> Some (ErrRefMissingParent i p)
         | None \<Rightarrow> None))"

definition check_child_refs :: "(string \<rightharpoonup> 'a) \<Rightarrow> string \<Rightarrow> event \<Rightarrow> dag_error option" where
  "check_child_refs m i e =
     (case find (\<lambda>c. m c = None) (Children e) of
        Some c \<Rightarrow> Some (ErrRefMissingChild i c)
      | None \<Rightarrow> None)"

fun verify_refs ::
    "(string \<Rightarrow> event \<Rightarrow> dag_error option) \<Rightarrow> event_map \<Rightarrow> string list \<Rightarrow> dag_error option" where
  "verify_refs chk m [] = None"
| "verify_refs chk m (i # is) =
     (case m i of
        None \<Rightarrow> verify_refs chk m is
      | Some e \<Rightarrow> (case chk i e of Some err \<Rightarrow> Some err | None \<Rightarrow> verify_refs chk m is))"

lemma verify_refs_None:
  "verify_refs chk m is = None \<longleftrightarrow> (\<forall>i \<in> set is. \<forall>e. m i = Some e \<longrightarrow> chk i e = None)"
  by (induction "is") (auto split: option.splits)

lemma check_parent_refs_None:
  "check_parent_refs m i e = None \<longleftrightarrow>
     (Type e = SubEvent \<longrightarrow> ParentID e \<noteq> [] \<and> ParentID e \<in> dom m) \<and> set (Parents e) \<subseteq> dom m"
  by (auto simp: check_parent_refs_def case_option_Some_None find_missing)

lemma check_child_refs_None: "check_child_refs m i e = None \<longleftrightarrow> set (Children e) \<subseteq> dom m"
  by (simp add: check_child_refs_def case_option_Some_None find_missing)

lemma verify_refs_refs_ok:
  "range_order m ks \<Longrightarrow> verify_refs (check_parent_refs m) m ks = None \<longleftrightarrow> refs_ok m"
  unfolding verify_refs_None check_parent_refs_None refs_ok_def range_order_def by (metis domI)

lemma refs_ok_parents_ok: "refs_ok m \<Longrightarrow> parents_ok m"
  by (simp add: refs_ok_def parents_ok_def)

section \<open>Looking up a list of IDs\<close>

fun collect_events ::
    "(string \<Rightarrow> dag_error) \<Rightarrow> event_map \<Rightarrow> string list \<Rightarrow> dag_error + event list" where
  "collect_events err m [] = Inr []"
| "collect_events err m (i # is) =
     (case m i of
        None \<Rightarrow> Inl (err i)
      | Some e \<Rightarrow>
          (case collect_events err m is of Inl x \<Rightarrow> Inl x | Inr es \<Rightarrow> Inr (e # es)))"

lemma collect_events_ok:
  "set is \<subseteq> dom m \<Longrightarrow> collect_events err m is = Inr (map (the \<circ> m) is)"
  by (induction "is") auto

lemma collect_events_err:
  "\<not> set is \<subseteq> dom m \<Longrightarrow> \<exists>i \<in> set is - dom m. collect_events err m is = Inl (err i)"
proof (induction "is")
  case (Cons i "is")
  show ?case
  proof (cases "m i")
    case None
    then show ?thesis by auto
  next
    case (Some e)
    with Cons.prems have "\<not> set is \<subseteq> dom m" by auto
    with Cons.IH Some show ?thesis by auto
  qed
qed simp

section \<open>The interface \<open>DAG\<close>\<close>

text \<open>
  \<open>addable m e\<close>: the conditions under which both implementations accept an event with a given ID.
  The comments of \<open>dag.go\<close> ask for more: that the \<open>ParentID\<close> is a main event (line 36), and that it is
  among the \<open>Parents\<close> of a sub-event (line 69); no code checks either. \<open>add\<close> is a store's \<open>AddEvent\<close>, \<open>lookup\<close> its events; \<open>set_beacon\<close> is the
  write of a client through the event pointer it shares with the store.
\<close>

definition addable :: "event_map \<Rightarrow> event \<Rightarrow> bool" where
  "addable m e \<longleftrightarrow> ID e \<noteq> [] \<and> ID e \<notin> dom m \<and> (Type e = SubEvent \<longrightarrow> ParentID e \<noteq> []) \<and>
     set (refs e) \<subseteq> dom m"

definition set_beacon :: "string \<Rightarrow> beacon_anchor \<Rightarrow> event_map \<Rightarrow> event_map" where
  "set_beacon i a m =
     (case m i of None \<Rightarrow> m | Some e \<Rightarrow> m(i \<mapsto> e\<lparr>Beacon := Some a\<rparr>))"

lemma set_beacon_same_graph: "same_graph m (set_beacon i a m)"
  by (auto simp: set_beacon_def same_refs_def intro!: same_graph_upd split: option.splits)

lemma same_graph_insert:
  "same_graph m m' \<Longrightarrow> same_graph (m(i \<mapsto> e)) (m'(i \<mapsto> e))"
  by (auto simp: same_graph_def)

locale dag_store =
  fixes add :: "event \<Rightarrow> 's \<Rightarrow> dag_error option \<times> 's"
    and lookup :: "'s \<Rightarrow> event_map"
    and write_beacon :: "string \<Rightarrow> beacon_anchor \<Rightarrow> 's \<Rightarrow> 's"
  assumes add_ok:
      "add e s = (None, s') \<Longrightarrow> ID e \<noteq> [] \<Longrightarrow>
         addable (lookup s) e \<and> same_graph ((lookup s)(ID e \<mapsto> e)) (lookup s') \<and>
         lookup s' (ID e) = Some e \<and>
         (\<forall>i x y. lookup s i = Some x \<longrightarrow> lookup s' i = Some y \<longrightarrow> Beacon y = Beacon x)"
    and add_err:
      "add e s = (Some err, s') \<Longrightarrow> ID e \<noteq> [] \<Longrightarrow>
         same_graph (lookup s) (lookup s') \<and>
         (\<forall>i x y. lookup s i = Some x \<longrightarrow> lookup s' i = Some y \<longrightarrow> Beacon y = Beacon x)"
    and add_missing:
      "add e s = (Some (ErrMissingParent p), s') \<Longrightarrow> ID e \<noteq> [] \<Longrightarrow> p \<in> set (refs e) - dom (lookup s)"
    and add_invalid:
      "add e s = (Some (ErrInvalidEvent msg), s') \<Longrightarrow> ID e \<noteq> [] \<Longrightarrow>
         Type e = SubEvent \<and> ParentID e = []"
    and lookup_write: "lookup (write_beacon i a s) = set_beacon i a (lookup s)"
begin

lemma add_wf:
  assumes "add e s = (r, s')" and "ID e \<noteq> []" and "dag_wf (lookup s)"
  shows "dag_wf (lookup s')"
proof (cases r)
  case None
  with assms add_ok have a: "addable (lookup s) e"
    and g: "same_graph ((lookup s)(ID e \<mapsto> e)) (lookup s')" by blast+
  have "dag_wf ((lookup s)(ID e \<mapsto> e))"
    using a assms(3) by (intro dag_wf_insert) (auto simp: addable_def)
  with g show ?thesis by (rule same_graph_wf)
next
  case (Some err)
  with assms add_err show ?thesis by (blast intro: same_graph_wf)
qed

lemma add_dom:
  assumes "add e s = (r, s')" and "ID e \<noteq> []"
  shows "dom (lookup s') = (if r = None then insert (ID e) (dom (lookup s)) else dom (lookup s))"
proof (cases r)
  case None
  with assms add_ok have "same_graph ((lookup s)(ID e \<mapsto> e)) (lookup s')" by blast
  from same_graph_dom [OF this] None show ?thesis by simp
next
  case (Some err)
  with assms add_err have "same_graph (lookup s) (lookup s')" by blast
  from same_graph_dom [OF this] Some show ?thesis by simp
qed

lemma write_wf: "dag_wf (lookup s) \<Longrightarrow> dag_wf (lookup (write_beacon i a s))"
  unfolding lookup_write by (rule same_graph_wf [OF set_beacon_same_graph])

lemma write_dom: "dom (lookup (write_beacon i a s)) = dom (lookup s)"
  unfolding lookup_write by (rule same_graph_dom [OF set_beacon_same_graph])

end

end
