(* ===== verification/MemoryDag.thy ===== *)
theory MemoryDag
  imports StoreOps
begin

text \<open>
  The in-memory store (\<open>src/dag/memory.go\<close>). Its state is the map from IDs to events; the
  mutex makes each method atomic. Every event pointer is stored under one key only, so the
  writes through \<open>*Event\<close> pointers are updates of the map entry. No entry is nil here: only
  \<open>Import\<close> can store a nil event, and \<open>NilEvents\<close> has the methods on the stores it then leaves. \<open>AddEvent\<close> updates the
  parents' children while it is still checking, so it is modelled with the state it leaves
  behind on each error.
\<close>

section \<open>State and operations\<close>

record memoryDAG =
  mem_events :: event_map

definition NewMemoryDAG :: memoryDAG where
  "NewMemoryDAG = \<lparr>mem_events = (\<lambda>_. None)\<rparr>"

text \<open>\<open>parent.Children = append(parent.Children, event.ID)\<close>\<close>

definition append_child :: "string \<Rightarrow> string \<Rightarrow> event_map \<Rightarrow> event_map" where
  "append_child p c m =
     (case m p of None \<Rightarrow> m | Some e \<Rightarrow> m(p \<mapsto> e\<lparr>Children := Children e @ [c]\<rparr>))"

definition link_sub :: "event \<Rightarrow> event_map \<Rightarrow> dag_error option \<times> event_map" where
  "link_sub e m =
     (if Type e = SubEvent then
        (if ParentID e = [] then (Some (ErrInvalidEvent ''sub-event must have a parent ID''), m)
         else
           (case m (ParentID e) of
              None \<Rightarrow> (Some (ErrMissingParent (ParentID e)), m)
            | Some _ \<Rightarrow> (None, append_child (ParentID e) (ID e) m)))
      else (None, m))"

fun link_parents :: "string \<Rightarrow> string list \<Rightarrow> event_map \<Rightarrow> dag_error option \<times> event_map" where
  "link_parents c [] m = (None, m)"
| "link_parents c (p # ps) m =
     (case m p of
        None \<Rightarrow> (Some (ErrMissingParent p), m)
      | Some _ \<Rightarrow> link_parents c ps (append_child p c m))"

definition memory_AddEvent :: "event option \<Rightarrow> memoryDAG \<Rightarrow> dag_error option \<times> memoryDAG" where
  "memory_AddEvent ev d =
     (case ev of
        None \<Rightarrow> (Some (ErrInvalidEvent ''event cannot be nil''), d)
      | Some e \<Rightarrow>
          (if ID e = [] then (Some (ErrInvalidEvent ''event ID cannot be empty''), d)
           else if mem_events d (ID e) \<noteq> None then (Some (ErrDuplicateEvent (ID e)), d)
           else
             (case link_sub e (mem_events d) of
                (Some err, m) \<Rightarrow> (Some err, d\<lparr>mem_events := m\<rparr>)
              | (None, m) \<Rightarrow>
                  (case link_parents (ID e) (Parents e) m of
                     (Some err, m') \<Rightarrow> (Some err, d\<lparr>mem_events := m'\<rparr>)
                   | (None, m') \<Rightarrow> (None, d\<lparr>mem_events := m'(ID e \<mapsto> e)\<rparr>)))))"

definition memory_GetEvent :: "string \<Rightarrow> memoryDAG \<Rightarrow> dag_error + event" where
  "memory_GetEvent i d =
     (if i = [] then Inl ErrEmptyID
      else (case mem_events d i of None \<Rightarrow> Inl ErrNotFound | Some e \<Rightarrow> Inr e))"

definition memory_GetParents :: "string \<Rightarrow> memoryDAG \<Rightarrow> dag_error + event list" where
  "memory_GetParents i d =
     (if i = [] then Inl ErrEmptyID
      else
        (case mem_events d i of
           None \<Rightarrow> Inl ErrNotFound
         | Some e \<Rightarrow> collect_events ErrMissingParent (mem_events d) (Parents e)))"

definition memory_GetChildren :: "string \<Rightarrow> memoryDAG \<Rightarrow> dag_error + event list" where
  "memory_GetChildren i d =
     (if i = [] then Inl ErrEmptyID
      else
        (case mem_events d i of
           None \<Rightarrow> Inl ErrNotFound
         | Some e \<Rightarrow> collect_events ErrNotFoundChild (mem_events d) (Children e)))"

text \<open>The traversal of \<open>GetSubEvents\<close> reads children from the events; \<open>n\<close> is its fuel.\<close>

definition memory_kids :: kids where
  "memory_kids i e = Children e"

definition memory_GetSubEvents ::
    "nat \<Rightarrow> string \<Rightarrow> memoryDAG \<Rightarrow> (dag_error + event list) exec" where
  "memory_GetSubEvents n i d =
     (if i = [] then Done (Inl ErrEmptyID)
      else
        (case mem_events d i of
           None \<Rightarrow> Done (Inl ErrNotFound)
         | Some e \<Rightarrow>
             exec_bind (traverseAll memory_kids (mem_events d) i n (Children e) ({}, []))
               (\<lambda>(r, visited, subs). Done (case r of Some err \<Rightarrow> Inl err | None \<Rightarrow> Inr subs))))"

text \<open>\<open>ks\<close> is the order in which the loop ranges over the map.\<close>

definition memory_GetMainEvents :: "string list \<Rightarrow> memoryDAG \<Rightarrow> event list" where
  "memory_GetMainEvents ks d =
     filter (\<lambda>e. Type e = MainEvent) (List.map_filter (mem_events d) ks)"

text \<open>
  \<open>ks1\<close> and \<open>ks2\<close> are the orders of the two loops of \<open>Verify\<close>; the fuel of the search is one
  more than the number of events.
\<close>

definition memory_Verify ::
    "string list \<Rightarrow> string list \<Rightarrow> memoryDAG \<Rightarrow> dag_error option exec" where
  "memory_Verify ks1 ks2 d =
     (let m = mem_events d;
          chk = (\<lambda>i e. case check_parent_refs m i e of
                         Some err \<Rightarrow> Some err | None \<Rightarrow> check_child_refs m i e)
      in
        (case verify_refs chk m ks1 of
           Some err \<Rightarrow> Done (Some err)
         | None \<Rightarrow>
             exec_bind (checkAll m (Suc (length ks2)) ks2 ({}, {})) (\<lambda>(r, st). Done r)))"

section \<open>What \<open>AddEvent\<close> does to the map\<close>

text \<open>
  \<open>linked c qs m\<close>: the map \<open>m\<close> with \<open>c\<close> appended to an event's children once for every
  occurrence of that event in \<open>qs\<close>.
\<close>

definition linked :: "string \<Rightarrow> string list \<Rightarrow> event_map \<Rightarrow> event_map" where
  "linked c qs m =
     (\<lambda>p. map_option (\<lambda>e. e\<lparr>Children := Children e @ replicate (count_list qs p) c\<rparr>) (m p))"

text \<open>
  A reference description of \<open>AddEvent\<close>: the references (the \<open>ParentID\<close> of a sub-event, then
  the parents) are linked up to the first one that is missing.
\<close>

definition addEvent_spec :: "event \<Rightarrow> event_map \<Rightarrow> dag_error option \<times> event_map" where
  "addEvent_spec e m =
     (if ID e = [] then (Some (ErrInvalidEvent ''event ID cannot be empty''), m)
      else if ID e \<in> dom m then (Some (ErrDuplicateEvent (ID e)), m)
      else if Type e = SubEvent \<and> ParentID e = []
      then (Some (ErrInvalidEvent ''sub-event must have a parent ID''), m)
      else
        (case dropWhile (\<lambda>p. p \<in> dom m) (refs e) of
           [] \<Rightarrow> (None, (linked (ID e) (refs e) m)(ID e \<mapsto> e))
         | q # _ \<Rightarrow>
             (Some (ErrMissingParent q),
              linked (ID e) (takeWhile (\<lambda>p. p \<in> dom m) (refs e)) m)))"

lemma dom_linked [simp, dag_simps]: "dom (linked c qs m) = dom m"
  by (auto simp: linked_def dom_def)

lemma linked_Nil [simp, dag_simps]: "linked c [] m = m"
  by (rule ext) (simp add: linked_def option.map_ident_strong)

lemma linked_Some:
  "m p = Some e \<Longrightarrow>
     linked c qs m p = Some (e\<lparr>Children := Children e @ replicate (count_list qs p) c\<rparr>)"
  by (simp add: linked_def)

lemma linked_None [simp]: "linked c qs m p = None \<longleftrightarrow> m p = None"
  by (simp add: linked_def)

lemma linked_same_graph: "same_graph m (linked c qs m)"
  by (auto simp: same_graph_def linked_def same_refs_def)

lemma append_child_linked: "p \<in> dom m \<Longrightarrow> linked c qs (append_child p c m) = linked c (p # qs) m"
proof (rule ext)
  fix i assume "p \<in> dom m"
  then obtain e where e: "m p = Some e" by auto
  show "linked c qs (append_child p c m) i = linked c (p # qs) m i"
    using e by (cases "i = p") (simp_all add: linked_def append_child_def)
qed

lemma dom_append_child [simp, dag_simps]: "dom (append_child p c m) = dom m"
  by (auto simp: append_child_def split: option.splits)

lemma link_parents_eq:
  "link_parents c ps m =
     (case dropWhile (\<lambda>p. p \<in> dom m) ps of [] \<Rightarrow> None | q # _ \<Rightarrow> Some (ErrMissingParent q),
      linked c (takeWhile (\<lambda>p. p \<in> dom m) ps) m)"
proof (induction ps arbitrary: m)
  case Nil
  then show ?case by simp
next
  case (Cons p ps)
  show ?case
  proof (cases "m p")
    case None
    then show ?thesis by (simp add: domIff)
  next
    case (Some e)
    then have p: "p \<in> dom m" by auto
    have "link_parents c (p # ps) m = link_parents c ps (append_child p c m)"
      using Some by simp
    also have "\<dots> = (case dropWhile (\<lambda>p. p \<in> dom m) ps of [] \<Rightarrow> None | q # _ \<Rightarrow> Some (ErrMissingParent q),
        linked c (p # takeWhile (\<lambda>p. p \<in> dom m) ps) m)"
      unfolding Cons.IH dom_append_child append_child_linked [OF p] ..
    finally show ?thesis using p by simp
  qed
qed

text \<open>The two linking steps together walk the references of the event.\<close>

lemma link_refs:
  "\<not> (Type e = SubEvent \<and> ParentID e = []) \<Longrightarrow>
     (case link_sub e m of
        (Some err, m') \<Rightarrow> (Some err, m')
      | (None, m') \<Rightarrow> link_parents (ID e) (Parents e) m') = link_parents (ID e) (refs e) m"
  by (auto simp: link_sub_def refs_def split: option.splits)

lemma memory_AddEvent_link:
  assumes "ID e \<noteq> []" and "mem_events d (ID e) = None"
    and "\<not> (Type e = SubEvent \<and> ParentID e = [])"
  shows "memory_AddEvent (Some e) d =
    (case link_parents (ID e) (refs e) (mem_events d) of
       (Some err, m) \<Rightarrow> (Some err, d\<lparr>mem_events := m\<rparr>)
     | (None, m) \<Rightarrow> (None, d\<lparr>mem_events := m(ID e \<mapsto> e)\<rparr>))"
  unfolding link_refs [OF assms(3), symmetric] using assms(1,2)
  by (auto simp: memory_AddEvent_def split: prod.splits option.splits)

lemma memory_AddEvent_spec:
  "memory_AddEvent (Some e) d =
     (fst (addEvent_spec e (mem_events d)), d\<lparr>mem_events := snd (addEvent_spec e (mem_events d))\<rparr>)"
proof -
  consider "ID e = [] \<or> ID e \<in> dom (mem_events d) \<or> Type e = SubEvent \<and> ParentID e = []"
    | "ID e \<noteq> []" "mem_events d (ID e) = None" "\<not> (Type e = SubEvent \<and> ParentID e = [])"
    by (auto simp: domIff)
  then show ?thesis
  proof cases
    case 1
    then show ?thesis
      by (auto simp: memory_AddEvent_def addEvent_spec_def link_sub_def domIff)
  next
    case 2
    then have "ID e \<notin> dom (mem_events d)" by auto
    define dw tw where "dw = dropWhile (\<lambda>p. p \<in> dom (mem_events d)) (refs e)"
      and "tw = takeWhile (\<lambda>p. p \<in> dom (mem_events d)) (refs e)"
    then have tw: "dw = [] \<Longrightarrow> tw = refs e"
      using takeWhile_dropWhile_id [of "\<lambda>p. p \<in> dom (mem_events d)" "refs e"] by (metis append_Nil2)
    have spec: "addEvent_spec e (mem_events d) =
        (case dw of [] \<Rightarrow> (None, (linked (ID e) (refs e) (mem_events d))(ID e \<mapsto> e))
         | q # _ \<Rightarrow> (Some (ErrMissingParent q), linked (ID e) tw (mem_events d)))"
      unfolding addEvent_spec_def dw_def tw_def
      using 2 \<open>ID e \<notin> dom (mem_events d)\<close> by (simp only: if_False simp_thms)
    show ?thesis
      unfolding memory_AddEvent_link [OF 2] link_parents_eq spec
      unfolding dw_def [symmetric] tw_def [symmetric]
      using tw by (cases dw) simp_all
  qed
qed

section \<open>The store implements the interface\<close>

lemma dropWhile_missing:
  "dropWhile (\<lambda>p. p \<in> D) ps = [] \<longleftrightarrow> set ps \<subseteq> D"
  by (auto simp: dropWhile_eq_Nil_conv)

lemma addEvent_spec_None:
  "addEvent_spec e m = (None, m') \<longleftrightarrow>
     addable m e \<and> m' = (linked (ID e) (refs e) m)(ID e \<mapsto> e)"
proof (cases "dropWhile (\<lambda>p. p \<in> dom m) (refs e)")
  case Nil
  then have "set (refs e) \<subseteq> dom m" by (simp only: dropWhile_missing)
  then show ?thesis unfolding addEvent_spec_def addable_def Nil list.case by auto
next
  case (Cons q qs)
  then have "\<not> set (refs e) \<subseteq> dom m" by (simp only: dropWhile_missing [symmetric]) simp
  then show ?thesis unfolding addEvent_spec_def addable_def Cons list.case by auto
qed

text \<open>A failing \<open>AddEvent\<close> leaves some of the references linked.\<close>

lemma addEvent_spec_Some:
  assumes "addEvent_spec e m = (Some err, m')"
  shows "\<exists>qs. m' = linked (ID e) qs m \<and> set qs \<subseteq> set (refs e) \<inter> dom m"
proof -
  have tw: "set (takeWhile (\<lambda>p. p \<in> dom m) (refs e)) \<subseteq> set (refs e) \<inter> dom m"
    by (auto dest: set_takeWhileD)
  have nil: "\<exists>qs. m = linked (ID e) qs m \<and> set qs \<subseteq> set (refs e) \<inter> dom m"
    by (rule exI [of _ "[]"]) simp
  show ?thesis
  proof (cases "dropWhile (\<lambda>p. p \<in> dom m) (refs e)")
    case Nil
    from assms nil show ?thesis unfolding addEvent_spec_def Nil list.case by (auto split: if_splits)
  next
    case (Cons q qs)
    from assms nil tw show ?thesis
      unfolding addEvent_spec_def Cons list.case by (simp split: if_splits; blast)
  qed
qed

text \<open>Exactly those before the first missing one are linked; the other errors leave the map alone.\<close>

lemma addEvent_spec_rejected:
  assumes "addEvent_spec e m = (Some err, m')"
  shows "case err of
       ErrMissingParent p \<Rightarrow>
         (\<exists>ps qs. refs e = ps @ p # qs \<and> set ps \<subseteq> dom m \<and> p \<notin> dom m \<and> m' = linked (ID e) ps m)
     | ErrDuplicateEvent i \<Rightarrow> i = ID e \<and> i \<in> dom m \<and> m' = m
     | ErrInvalidEvent msg \<Rightarrow> (ID e = [] \<or> Type e = SubEvent \<and> ParentID e = []) \<and> m' = m
     | _ \<Rightarrow> False"
proof (cases "dropWhile (\<lambda>p. p \<in> dom m) (refs e)")
  case Nil
  from assms show ?thesis unfolding addEvent_spec_def Nil list.case by (auto split: if_splits)
next
  case (Cons q qs)
  let ?ps = "takeWhile (\<lambda>p. p \<in> dom m) (refs e)"
  have "refs e = ?ps @ q # qs" using takeWhile_dropWhile_id [of "\<lambda>p. p \<in> dom m" "refs e"] Cons by simp
  moreover have "set ?ps \<subseteq> dom m" by (auto dest: set_takeWhileD)
  moreover have "q \<notin> dom m" using hd_dropWhile [of "\<lambda>p. p \<in> dom m" "refs e"] Cons by simp
  ultimately have ex: "\<exists>ps qs. refs e = ps @ q # qs \<and> set ps \<subseteq> dom m \<and> q \<notin> dom m \<and>
      linked (ID e) ?ps m = linked (ID e) ps m" by blast
  note r = assms [unfolded addEvent_spec_def Cons list.case]
  consider "ID e = []" | "ID e \<noteq> []" "ID e \<in> dom m"
    | "ID e \<noteq> []" "ID e \<notin> dom m" "Type e = SubEvent \<and> ParentID e = []"
    | "ID e \<noteq> []" "ID e \<notin> dom m" "\<not> (Type e = SubEvent \<and> ParentID e = [])" by blast
  then show ?thesis
  proof cases
    case 4
    then have "err = ErrMissingParent q" "m' = linked (ID e) ?ps m"
      using r by (simp_all only: if_False prod.inject option.inject simp_thms)
    with ex show ?thesis by (simp only: dag_error.case)
  qed (use r in \<open>auto simp only: if_True if_False prod.inject option.inject simp_thms dag_error.case\<close>)
qed

lemma dropWhile_first:
  assumes "dropWhile P xs = q # qs" shows "q \<in> set xs \<and> \<not> P q"
  using hd_dropWhile [of P xs] set_dropWhileD [of q P xs] assms by simp

lemma addEvent_spec_error_cases:
  assumes "addEvent_spec e m = (Some err, m')"
  shows "case err of
       ErrMissingParent p \<Rightarrow> p \<in> set (refs e) - dom m
     | ErrDuplicateEvent i \<Rightarrow> i = ID e \<and> i \<in> dom m
     | ErrInvalidEvent msg \<Rightarrow> ID e = [] \<or> Type e = SubEvent \<and> ParentID e = []
     | _ \<Rightarrow> False"
proof (cases "dropWhile (\<lambda>p. p \<in> dom m) (refs e)")
  case Nil
  from assms show ?thesis unfolding addEvent_spec_def Nil list.case by (auto split: if_splits)
next
  case (Cons x xs)
  from assms dropWhile_first [OF Cons] show ?thesis
    unfolding addEvent_spec_def Cons list.case by (auto split: if_splits)
qed

text \<open>
  The write of a client that holds the event pointer (\<open>event.Beacon = ...\<close> in
  \<open>src/pool/pool.go\<close>), seen from the store.
\<close>

definition memory_SetBeacon :: "string \<Rightarrow> beacon_anchor \<Rightarrow> memoryDAG \<Rightarrow> memoryDAG" where
  "memory_SetBeacon i a d = d\<lparr>mem_events := set_beacon i a (mem_events d)\<rparr>"

lemma linked_Beacon: "m i = Some x \<Longrightarrow> linked c qs m i = Some y \<Longrightarrow> Beacon y = Beacon x"
  by (auto simp: linked_def)

lemma memory_AddEvent_cases:
  assumes "memory_AddEvent (Some e) d = (r, d')"
  obtains (added) "r = None" "addable (mem_events d) e"
      "mem_events d' = (linked (ID e) (refs e) (mem_events d))(ID e \<mapsto> e)"
    | (failed) err qs where "r = Some err" "mem_events d' = linked (ID e) qs (mem_events d)"
      "set qs \<subseteq> set (refs e) \<inter> dom (mem_events d)"
proof -
  from assms have s: "addEvent_spec e (mem_events d) = (r, mem_events d')"
    by (auto simp: memory_AddEvent_spec prod_eq_iff)
  show thesis
  proof (cases r)
    case None
    with s added show thesis by (auto simp: addEvent_spec_None)
  next
    case (Some err)
    with s addEvent_spec_Some [of e "mem_events d" err "mem_events d'"] failed show thesis by auto
  qed
qed

interpretation mem: dag_store "\<lambda>e. memory_AddEvent (Some e)" mem_events memory_SetBeacon
proof
  fix e s s'
  assume r: "memory_AddEvent (Some e) s = (None, s')"
  then show "addable (mem_events s) e \<and>
      same_graph ((mem_events s)(ID e \<mapsto> e)) (mem_events s') \<and> mem_events s' (ID e) = Some e \<and>
      (\<forall>i x y. mem_events s i = Some x \<longrightarrow> mem_events s' i = Some y \<longrightarrow> Beacon y = Beacon x)"
  proof (cases rule: memory_AddEvent_cases)
    case added
    then show ?thesis
      by (auto simp: addable_def intro!: same_graph_insert linked_same_graph
          dest: linked_Beacon split: if_splits)
  qed simp
next
  fix e s err s'
  assume "memory_AddEvent (Some e) s = (Some err, s')"
  then show "same_graph (mem_events s) (mem_events s') \<and>
      (\<forall>i x y. mem_events s i = Some x \<longrightarrow> mem_events s' i = Some y \<longrightarrow> Beacon y = Beacon x)"
  proof (cases rule: memory_AddEvent_cases)
    case failed
    then show ?thesis by (auto simp: linked_same_graph dest: linked_Beacon)
  qed simp
next
  fix e s p s'
  assume "memory_AddEvent (Some e) s = (Some (ErrMissingParent p), s')" and "ID e \<noteq> []"
  then show "p \<in> set (refs e) - dom (mem_events s)"
    using addEvent_spec_error_cases [of e "mem_events s" _ "mem_events s'"]
    by (fastforce simp: memory_AddEvent_spec prod_eq_iff)
next
  fix e s msg s'
  assume "memory_AddEvent (Some e) s = (Some (ErrInvalidEvent msg), s')" and "ID e \<noteq> []"
  then show "Type e = SubEvent \<and> ParentID e = []"
    using addEvent_spec_error_cases [of e "mem_events s" _ "mem_events s'"]
    by (fastforce simp: memory_AddEvent_spec prod_eq_iff)
next
  fix i a s
  show "mem_events (memory_SetBeacon i a s) = set_beacon i a (mem_events s)"
    by (simp add: memory_SetBeacon_def)
qed

end
