(* ===== verification/Samples.thy ===== *)
theory Samples
  imports Events
begin

text \<open>Concrete events and maps on which the witnesses evaluate the theorems.\<close>

definition main_ev :: "string \<Rightarrow> string list \<Rightarrow> event" where
  "main_ev i ps = \<lparr>ID = i, Type = MainEvent, ParentID = [], Parents = ps, Children = [],
     Data = [], Beacon = None\<rparr>"

definition sub_ev :: "string \<Rightarrow> string \<Rightarrow> string list \<Rightarrow> event" where
  "sub_ev i pid ps = \<lparr>ID = i, Type = SubEvent, ParentID = pid, Parents = ps, Children = [],
     Data = [], Beacon = None\<rparr>"

text \<open>A main event \<open>a\<close> with a sub-event \<open>b\<close>.\<close>

definition map_ab :: event_map where
  "map_ab = [''a'' \<mapsto> (main_ev ''a'' [])\<lparr>Children := [''b'']\<rparr>, ''b'' \<mapsto> sub_ev ''b'' ''a'' []]"

text \<open>Two events that are each other's parent, as an import can bring them in.\<close>

definition map_cycle :: event_map where
  "map_cycle = [''a'' \<mapsto> main_ev ''a'' [''b''], ''b'' \<mapsto> main_ev ''b'' [''a'']]"

lemmas sample_defs = main_ev_def sub_ev_def map_ab_def map_cycle_def

lemma dom_map_ab [simp]: "dom map_ab = {''a'', ''b''}"
  by (auto simp: map_ab_def split: if_splits)

lemma map_ab_insert:
  "map_ab = ((\<lambda>x. None)(''a'' \<mapsto> (main_ev ''a'' [])\<lparr>Children := [''b'']\<rparr>))(''b'' \<mapsto> sub_ev ''b'' ''a'' [])"
  by (simp add: map_ab_def)

lemma ran_map_ab: "ran map_ab = {(main_ev ''a'' [])\<lparr>Children := [''b'']\<rparr>, sub_ev ''b'' ''a'' []}"
  unfolding map_ab_insert by (subst ran_map_upd; simp)+ (rule insert_commute)

lemma map_ab_wf: "dag_wf map_ab"
proof -
  let ?a = "(main_ev ''a'' [])\<lparr>Children := [''b'']\<rparr>" and ?b = "sub_ev ''b'' ''a'' []"
  have "dag_wf (\<lambda>x. None)"
    by (simp add: dag_wf_def keys_ok_def refs_ok_def causal_edges_def acyclic_def)
  then have "dag_wf ((\<lambda>x. None)(ID ?a \<mapsto> ?a))"
    by (rule dag_wf_insert) (simp_all add: sample_defs refs_def)
  then have "dag_wf (((\<lambda>x. None)(ID ?a \<mapsto> ?a))(ID ?b \<mapsto> ?b))"
    by (rule dag_wf_insert) (simp_all add: sample_defs refs_def)
  then show ?thesis by (simp add: map_ab_insert) (simp add: sample_defs)
qed

lemma map_ab_children_exact: "children_exact map_ab"
  unfolding children_exact_def n_refs_def
  by (auto simp: sample_defs refs_def split: if_splits)

end
