(* ===== verification/MemoryProps.thy ===== *)
theory MemoryProps
  imports MemoryDag Samples
begin

text \<open>
  Properties of the in-memory store: what \<open>AddEvent\<close> accepts and what it does to the graph on
  every outcome, that a history of accepted events verifies, what \<open>Verify\<close> decides, and what
  the queries return. (What \<open>Verify\<close> and \<open>GetSubEvents\<close> do when events are nil is in \<open>NilProps\<close>.)
\<close>

section \<open>Lemmas on linking\<close>

lemma count_list_replicate [simp]: "count_list (replicate n c) x = (if x = c then n else 0)"
  by (induction n) auto

lemma n_refs_fresh: "m c = None \<Longrightarrow> n_refs m c p = 0"
  by (simp add: n_refs_def)

lemma n_refs_to_fresh:
  assumes "refs_ok m" and "p \<notin> dom m" shows "n_refs m c p = 0"
  using refs_okD [OF assms(1), of c] assms(2)
  by (auto simp: n_refs_def count_list_0_iff split: option.splits)

lemma n_refs_linked: "n_refs (linked c qs m) x p = n_refs m x p"
  by (rule same_graph_n_refs [OF linked_same_graph])

lemma addable_children_exact:
  assumes wf: "dag_wf m" and ex: "children_exact m" and add: "addable m e" and "Children e = []"
  shows "children_exact ((linked (ID e) (refs e) m)(ID e \<mapsto> e))"
proof -
  let ?m = "(linked (ID e) (refs e) m)(ID e \<mapsto> e)"
  have fresh: "m (ID e) = None" and refs: "set (refs e) \<subseteq> dom m"
    using add by (auto simp: addable_def)
  have ok: "refs_ok m" using wf by (simp add: dag_wf_def)
  have n: "n_refs ?m c p = (if c = ID e then count_list (refs e) p else n_refs m c p)" for c p
    using n_refs_insert [of "linked (ID e) (refs e) m"] fresh by (simp add: n_refs_linked)
  show ?thesis
    unfolding children_exact_def
  proof (intro allI impI)
    fix p x c assume x: "?m p = Some x"
    show "count_list (Children x) c = n_refs ?m c p"
    proof (cases "p = ID e")
      case True
      then have "ID e \<notin> set (refs e)" using refs fresh by auto
      moreover have "n_refs m c (ID e) = 0"
        using n_refs_to_fresh [OF ok] fresh by (simp add: domIff)
      ultimately show ?thesis using True x assms(4) n by (simp add: count_list_0_iff)
    next
      case False
      with x obtain y where y: "m p = Some y"
        and xy: "Children x = Children y @ replicate (count_list (refs e) p) (ID e)"
        by (auto simp: linked_def)
      have "count_list (Children y) c = n_refs m c p"
        using ex y by (simp add: children_exact_def)
      then show ?thesis using n_refs_fresh [of m "ID e" p] fresh xy n by auto
    qed
  qed
qed

text \<open>Linking an ID that is not stored to an existing event leaves a dangling child.\<close>

lemma linked_dangling:
  assumes "p \<in> set qs" and "p \<in> dom m" and "c \<notin> dom m"
  shows "\<not> children_exist (linked c qs m)"
proof -
  from assms(2) obtain x where x: "m p = Some x" by auto
  define y where "y = x\<lparr>Children := Children x @ replicate (count_list qs p) c\<rparr>"
  have "count_list qs p > 0" using assms(1) by (metis count_list_0_iff neq0_conv)
  then have "c \<in> set (Children y)" by (simp add: y_def)
  moreover have "linked c qs m p = Some y" unfolding y_def using x by (rule linked_Some)
  ultimately show ?thesis
    using children_existD [of "linked c qs m" p y] assms(3) by auto
qed

section \<open>Adding events\<close>

text \<open>C2: \<open>memoryDAG.AddEvent\<close> returns no error exactly when the ID is non-empty and unused, a
  sub-event names a parent, and the parent and all \<open>Parents\<close> are stored. The new state then holds
  the event as given, and every other event only gains the new ID at the end of its children,
  once per reference.\<close>

theorem memory_AddEvent_correct:
  "memory_AddEvent (Some e) d = (None, d') \<longleftrightarrow>
     addable (mem_events d) e \<and>
     d' = d\<lparr>mem_events := (\<lambda>p.
       if p = ID e then Some e
       else map_option (\<lambda>x. x\<lparr>Children := Children x @ replicate (count_list (refs e) p) (ID e)\<rparr>)
              (mem_events d p))\<rparr>"
  using addEvent_spec_None [of e "mem_events d" "mem_events d'"]
  by (auto simp: memory_AddEvent_spec prod_eq_iff linked_def fun_upd_def cong: if_cong)

text \<open>C3: a rejected \<open>memoryDAG.AddEvent\<close> stores nothing. A missing parent is the first reference (the
  \<open>ParentID\<close> of a sub-event comes first, then the \<open>Parents\<close> in order) that is not stored; the rejected ID
  has then been appended to the children of precisely the references before it, once per occurrence, and
  every other event is untouched. The other errors, a duplicate ID and an empty ID or \<open>ParentID\<close>, change
  nothing.\<close>

theorem memory_AddEvent_rejected:
  assumes "memory_AddEvent (Some e) d = (Some err, d')"
  shows "\<not> addable (mem_events d) e \<and>
    (case err of
       ErrMissingParent p \<Rightarrow>
         (\<exists>ps qs. refs e = ps @ p # qs \<and> set ps \<subseteq> dom (mem_events d) \<and> p \<notin> dom (mem_events d) \<and>
            mem_events d' = (\<lambda>i. map_option
              (\<lambda>x. x\<lparr>Children := Children x @ replicate (count_list ps i) (ID e)\<rparr>) (mem_events d i)))
     | ErrDuplicateEvent i \<Rightarrow> i = ID e \<and> i \<in> dom (mem_events d) \<and> d' = d
     | ErrInvalidEvent msg \<Rightarrow> (ID e = [] \<or> Type e = SubEvent \<and> ParentID e = []) \<and> d' = d
     | _ \<Rightarrow> False)"
proof -
  have s: "addEvent_spec e (mem_events d) = (Some err, mem_events d')"
    using assms by (auto simp: memory_AddEvent_spec prod_eq_iff)
  then have "\<not> addable (mem_events d) e"
    by (metis addEvent_spec_None option.distinct(1) prod.inject)
  moreover have "mem_events d' = mem_events d \<Longrightarrow> d' = d"
    by (cases d; cases d') simp
  ultimately show ?thesis
    using addEvent_spec_rejected [OF s] unfolding linked_def by (auto split: dag_error.splits)
qed

theorem memory_AddEvent_rejected_witness:
  "memory_AddEvent (Some (sub_ev ''c'' ''a'' [''x''])) \<lparr>mem_events = map_ab\<rparr> =
     (Some (ErrMissingParent ''x''), \<lparr>mem_events = map_ab(''a'' \<mapsto>
        (main_ev ''a'' [])\<lparr>Children := [''b'', ''c'']\<rparr>)\<rparr>) \<and>
   \<not> addable map_ab (sub_ev ''c'' ''a'' [''x''])"
proof -
  have r: "memory_AddEvent (Some (sub_ev ''c'' ''a'' [''x''])) \<lparr>mem_events = map_ab\<rparr> =
     (Some (ErrMissingParent ''x''), \<lparr>mem_events = map_ab(''a'' \<mapsto>
        (main_ev ''a'' [])\<lparr>Children := [''b'', ''c'']\<rparr>)\<rparr>)"
    by (simp add: memory_AddEvent_def link_sub_def append_child_def sample_defs)
  from memory_AddEvent_rejected [OF r] r show ?thesis by simp
qed

text \<open>C4: every call of \<open>memoryDAG.AddEvent\<close>, accepted or not and also with a nil event, keeps
  the store well formed: finite, keyed by the events' IDs, every reference resolving, and no
  cycle through \<open>Parents\<close> and \<open>ParentID\<close> together.\<close>

theorem memory_AddEvent_preserves_wf:
  assumes "dag_wf (mem_events d)"
  shows "dag_wf (mem_events (snd (memory_AddEvent ev d)))"
proof (cases ev)
  case None
  with assms show ?thesis by (simp add: memory_AddEvent_def)
next
  case (Some e)
  show ?thesis
  proof (cases "ID e = []")
    case True
    with assms Some show ?thesis by (simp add: memory_AddEvent_def)
  next
    case False
    with Some mem.add_wf [OF surjective_pairing False assms] show ?thesis by simp
  qed
qed

theorem memory_AddEvent_preserves_wf_witness:
  "dag_wf map_ab \<and>
   dag_wf (mem_events (snd (memory_AddEvent (Some (sub_ev ''c'' ''a'' [''x''])) \<lparr>mem_events = map_ab\<rparr>)))"
  using memory_AddEvent_preserves_wf [of "\<lparr>mem_events = map_ab\<rparr>"] map_ab_wf by simp

text \<open>C5: an accepted event without preset children keeps the two directions of the graph in
  agreement: an ID is listed among an event's children exactly as often as it refers to it.\<close>

theorem memory_AddEvent_children_exact:
  assumes "dag_wf (mem_events d)" and "children_exact (mem_events d)"
    and "Children e = []" and "memory_AddEvent (Some e) d = (None, d')"
  shows "children_exact (mem_events d')"
  using assms(4)
proof (cases rule: memory_AddEvent_cases)
  case added
  with addable_children_exact [OF assms(1,2) _ assms(3)] show ?thesis by simp
qed simp

theorem memory_AddEvent_children_exact_witness:
  "memory_AddEvent (Some (sub_ev ''c'' ''a'' [''b''])) \<lparr>mem_events = map_ab\<rparr> =
     (None, \<lparr>mem_events = map_ab(''a'' \<mapsto> (main_ev ''a'' [])\<lparr>Children := [''b'', ''c'']\<rparr>,
        ''b'' \<mapsto> (sub_ev ''b'' ''a'' [])\<lparr>Children := [''c'']\<rparr>, ''c'' \<mapsto> sub_ev ''c'' ''a'' [''b''])\<rparr>) \<and>
   children_exact (map_ab(''a'' \<mapsto> (main_ev ''a'' [])\<lparr>Children := [''b'', ''c'']\<rparr>,
        ''b'' \<mapsto> (sub_ev ''b'' ''a'' [])\<lparr>Children := [''c'']\<rparr>, ''c'' \<mapsto> sub_ev ''c'' ''a'' [''b'']))"
proof -
  have r: "memory_AddEvent (Some (sub_ev ''c'' ''a'' [''b''])) \<lparr>mem_events = map_ab\<rparr> =
     (None, \<lparr>mem_events = map_ab(''a'' \<mapsto> (main_ev ''a'' [])\<lparr>Children := [''b'', ''c'']\<rparr>,
        ''b'' \<mapsto> (sub_ev ''b'' ''a'' [])\<lparr>Children := [''c'']\<rparr>, ''c'' \<mapsto> sub_ev ''c'' ''a'' [''b''])\<rparr>)"
    by (simp add: memory_AddEvent_def link_sub_def append_child_def sample_defs)
  from memory_AddEvent_children_exact [OF _ _ _ r] map_ab_wf map_ab_children_exact r
  show ?thesis by (simp add: sub_ev_def)
qed

section \<open>Verifying\<close>

lemma memory_Verify_check_None:
  "verify_refs (\<lambda>i e. case check_parent_refs m i e of
        Some err \<Rightarrow> Some err | None \<Rightarrow> check_child_refs m i e) m ks = None \<longleftrightarrow>
   verify_refs (check_parent_refs m) m ks = None \<and> verify_refs (check_child_refs m) m ks = None"
proof -
  have "(case check_parent_refs m i e of Some err \<Rightarrow> Some err | None \<Rightarrow> check_child_refs m i e) = None \<longleftrightarrow>
      check_parent_refs m i e = None \<and> check_child_refs m i e = None" for i e
    by (simp split: option.split)
  then show ?thesis unfolding verify_refs_None by blast
qed

lemma verify_refs_children_exist:
  "range_order m ks \<Longrightarrow> verify_refs (check_child_refs m) m ks = None \<longleftrightarrow> children_exist m"
  unfolding verify_refs_None check_child_refs_None children_exist_def range_order_def
  by (metis domI)

lemma memory_Verify_iff:
  assumes "range_order (mem_events d) ks1" and "range_order (mem_events d) ks2"
  shows "\<exists>r. memory_Verify ks1 ks2 d = Done r \<and>
    (r = None \<longleftrightarrow> refs_ok (mem_events d) \<and> children_exist (mem_events d) \<and>
       acyclic (edges (mem_events d)))"
proof -
  let ?m = "mem_events d"
  let ?chk = "\<lambda>i e. case check_parent_refs ?m i e of
      Some err \<Rightarrow> Some err | None \<Rightarrow> check_child_refs ?m i e"
  have refs: "verify_refs ?chk ?m ks1 = None \<longleftrightarrow> refs_ok ?m \<and> children_exist ?m"
    unfolding memory_Verify_check_None verify_refs_refs_ok [OF assms(1)]
      verify_refs_children_exist [OF assms(1)] ..
  show ?thesis
  proof (cases "verify_refs ?chk ?m ks1")
    case (Some err)
    with refs show ?thesis by (auto simp: memory_Verify_def)
  next
    case None
    with refs have ok: "refs_ok ?m" "children_exist ?m" by auto
    obtain r st where "checkAll ?m (Suc (length ks2)) ks2 ({}, {}) = Done (r, st)"
      and "r = None \<longleftrightarrow> acyclic (edges ?m)"
      using checkAll_result [of ?m ks2 "Suc (length ks2)"] assms(2) ok
      by (auto simp: range_order_finite range_order_card refs_ok_parents_ok range_order_def)
    with None ok show ?thesis by (simp add: memory_Verify_def)
  qed
qed

text \<open>A history of accepted events: stops at the first rejected one.\<close>

fun memory_add_all :: "event list \<Rightarrow> memoryDAG \<Rightarrow> memoryDAG option" where
  "memory_add_all [] d = Some d"
| "memory_add_all (e # es) d =
     (case memory_AddEvent (Some e) d of
        (None, d') \<Rightarrow> memory_add_all es d'
      | (Some err, d') \<Rightarrow> None)"

lemma memory_add_all_inv:
  "memory_add_all es d = Some d' \<Longrightarrow> \<forall>e \<in> set es. Children e = [] \<Longrightarrow>
     dag_wf (mem_events d) \<Longrightarrow> children_exact (mem_events d) \<Longrightarrow>
     dag_wf (mem_events d') \<and> children_exact (mem_events d') \<and>
     dom (mem_events d') = dom (mem_events d) \<union> ID ` set es"
proof (induction es arbitrary: d)
  case Nil
  then show ?case by simp
next
  case (Cons e es)
  obtain d1 where a: "memory_AddEvent (Some e) d = (None, d1)" and es: "memory_add_all es d1 = Some d'"
    using Cons.prems(1) by (auto split: prod.splits option.splits)
  have "addable (mem_events d) e" and d1: "mem_events d1 = (linked (ID e) (refs e) (mem_events d))(ID e \<mapsto> e)"
    using a by (auto elim: memory_AddEvent_cases)
  then have "ID e \<noteq> []" by (simp add: addable_def)
  with mem.add_wf [OF a] Cons.prems(3) have "dag_wf (mem_events d1)" by simp
  moreover have "children_exact (mem_events d1)"
    unfolding d1 using Cons.prems \<open>addable (mem_events d) e\<close>
    by (intro addable_children_exact) simp_all
  moreover have "dom (mem_events d1) = insert (ID e) (dom (mem_events d))" unfolding d1 by simp
  moreover have "\<forall>x \<in> set es. Children x = []" using Cons.prems(2) by simp
  ultimately show ?case using Cons.IH [OF es] by simp
qed

lemma NewMemoryDAG_inv [simp]:
  "dag_wf (mem_events NewMemoryDAG)" "children_exact (mem_events NewMemoryDAG)"
  "dom (mem_events NewMemoryDAG) = {}"
  by (simp_all add: NewMemoryDAG_def dag_wf_def keys_ok_def refs_ok_def causal_edges_def
      acyclic_def children_exact_def)

lemma dag_wf_acyclic: "dag_wf m \<Longrightarrow> acyclic (edges m)"
  using acyclic_subset [OF _ edges_subset_causal] by (auto simp: dag_wf_def)

text \<open>C6: a store built from \<open>NewMemoryDAG\<close> by accepted \<open>AddEvent\<close> calls holds exactly the events
  added and passes \<open>Verify\<close>, in whatever order it ranges over them.\<close>

theorem memory_history_verifies:
  assumes "memory_add_all es NewMemoryDAG = Some d" and "\<forall>e \<in> set es. Children e = []"
    and "range_order (mem_events d) ks1" and "range_order (mem_events d) ks2"
  shows "memory_Verify ks1 ks2 d = Done None \<and> dom (mem_events d) = ID ` set es"
proof -
  have inv: "dag_wf (mem_events d)" "children_exact (mem_events d)" "dom (mem_events d) = ID ` set es"
    using memory_add_all_inv [OF assms(1,2)] by simp_all
  have "refs_ok (mem_events d)" "children_exist (mem_events d)" "acyclic (edges (mem_events d))"
    using inv dag_wf_acyclic children_exact_exist by (simp_all add: dag_wf_def)
  with memory_Verify_iff [OF assms(3,4)] inv show ?thesis by auto
qed

theorem memory_history_verifies_witness:
  "memory_add_all [main_ev ''a'' [], sub_ev ''b'' ''a'' []] NewMemoryDAG =
     Some \<lparr>mem_events = map_ab\<rparr> \<and>
   memory_Verify [''b'', ''a''] [''a'', ''b''] \<lparr>mem_events = map_ab\<rparr> = Done None"
proof -
  have r: "memory_add_all [main_ev ''a'' [], sub_ev ''b'' ''a'' []] NewMemoryDAG =
     Some \<lparr>mem_events = map_ab\<rparr>"
    by (simp add: memory_AddEvent_def link_sub_def append_child_def NewMemoryDAG_def sample_defs)
  have "range_order map_ab [''b'', ''a'']" "range_order map_ab [''a'', ''b'']"
    by (auto simp: range_order_def)
  with memory_history_verifies [OF r, of "[''b'', ''a'']" "[''a'', ''b'']"] r
  show ?thesis by (simp add: sample_defs)
qed

text \<open>C7: a rejected \<open>AddEvent\<close> can break the store: when an event with a fresh ID is rejected for
  a missing reference after an earlier reference was found, the earlier one keeps the rejected ID
  as a child, and \<open>Verify\<close> on the store left behind reports an error.\<close>

theorem memory_rejected_breaks_verify:
  assumes "memory_AddEvent (Some e) d = (Some (ErrMissingParent q), d')"
    and "hd (refs e) \<in> dom (mem_events d)"
    and "range_order (mem_events d') ks1" and "range_order (mem_events d') ks2"
  shows "\<exists>err. memory_Verify ks1 ks2 d' = Done (Some err)"
proof -
  let ?P = "\<lambda>p. p \<in> dom (mem_events d)"
  from assms(1) have s: "addEvent_spec e (mem_events d) = (Some (ErrMissingParent q), mem_events d')"
    by (auto simp: memory_AddEvent_spec prod_eq_iff)
  then obtain qs where dw: "dropWhile ?P (refs e) = q # qs" and fresh: "ID e \<notin> dom (mem_events d)"
    and d': "mem_events d' = linked (ID e) (takeWhile ?P (refs e)) (mem_events d)"
    by (auto simp only: addEvent_spec_def prod.inject option.inject dag_error.inject
        dag_error.distinct simp_thms split: if_splits list.splits)
  from dw have "refs e \<noteq> []" by auto
  with assms(2) have "hd (refs e) \<in> set (takeWhile ?P (refs e))"
    by (cases "refs e") auto
  then have "\<not> children_exist (mem_events d')"
    unfolding d' using assms(2) fresh by (rule linked_dangling)
  with memory_Verify_iff [OF assms(3,4)] show ?thesis by auto
qed

theorem memory_rejected_breaks_verify_witness:
  "memory_Verify [''a'', ''b''] [''a'', ''b''] \<lparr>mem_events = map_ab\<rparr> = Done None \<and>
   (\<exists>d'. memory_AddEvent (Some (sub_ev ''c'' ''a'' [''x''])) \<lparr>mem_events = map_ab\<rparr> =
       (Some (ErrMissingParent ''x''), d') \<and>
     (\<exists>err. memory_Verify [''a'', ''b''] [''a'', ''b''] d' = Done (Some err)))"
proof -
  let ?d' = "\<lparr>mem_events = map_ab(''a'' \<mapsto> (main_ev ''a'' [])\<lparr>Children := [''b'', ''c'']\<rparr>)\<rparr>"
  have r: "memory_AddEvent (Some (sub_ev ''c'' ''a'' [''x''])) \<lparr>mem_events = map_ab\<rparr> =
     (Some (ErrMissingParent ''x''), ?d')"
    by (simp add: memory_AddEvent_def link_sub_def append_child_def sample_defs)
  have o: "range_order map_ab [''a'', ''b'']" "range_order (mem_events ?d') [''a'', ''b'']"
    by (auto simp: range_order_def)
  have "\<exists>err. memory_Verify [''a'', ''b''] [''a'', ''b''] ?d' = Done (Some err)"
    by (rule memory_rejected_breaks_verify [OF r _ o(2) o(2)]) (simp add: sub_ev_def refs_def)
  moreover have "memory_Verify [''a'', ''b''] [''a'', ''b''] \<lparr>mem_events = map_ab\<rparr> = Done None"
    using memory_Verify_iff [of "\<lparr>mem_events = map_ab\<rparr>" "[''a'', ''b'']" "[''a'', ''b'']"] o(1)
      map_ab_wf dag_wf_acyclic [OF map_ab_wf] children_exact_exist [OF map_ab_children_exact]
    by (auto simp: dag_wf_def)
  ultimately show ?thesis using r by blast
qed

section \<open>Queries\<close>

lemma memory_traversal:
  assumes "finite (dom m)" and "card (dom m) < n"
  shows "\<exists>r V subs. traverseAll k m i n cs ({}, []) = Done (r, V, subs) \<and>
    (r = None \<longrightarrow> set cs \<subseteq> V) \<and> (keys_ok m \<longrightarrow> collected m i V subs) \<and>
    (kids_ok k m \<and> set cs \<subseteq> dom m \<longrightarrow> r = None)"
proof -
  have "collected m i {} []" by (simp add: collected_def)
  moreover have "trav_post k m i {} [] (set cs) (traverseAll k m i n cs ({}, []))"
    using traverse_correct(2) [of m "({}, [])" n k i cs] assms by simp
  ultimately show ?thesis unfolding trav_post_def by blast
qed

text \<open>C8: on a store whose children are exact, \<open>memoryDAG.GetSubEvents\<close> of a stored event returns,
  each once, precisely the stored sub-events whose \<open>ParentID\<close> is that event. A sub-event of one of
  its sub-events is not among them.\<close>

theorem memory_GetSubEvents_exact:
  assumes "finite (dom (mem_events d))" and "keys_ok (mem_events d)"
    and "children_exact (mem_events d)" and "mem_events d i = Some e"
    and "card (dom (mem_events d)) < n"
  shows "\<exists>subs. memory_GetSubEvents n i d = Done (Inr subs) \<and> distinct (map ID subs) \<and>
    set subs = {x \<in> ran (mem_events d). Type x = SubEvent \<and> ParentID x = i}"
proof -
  let ?m = "mem_events d"
  have ex: "children_exist ?m" using assms(3) by (rule children_exact_exist)
  then have kids: "kids_ok memory_kids ?m" and ch: "set (Children e) \<subseteq> dom ?m"
    using assms(4) by (auto simp: kids_ok_def memory_kids_def children_exist_def)
  obtain r V subs where t: "traverseAll memory_kids ?m i n (Children e) ({}, []) = Done (r, V, subs)"
    and r: "r = None" and V: "set (Children e) \<subseteq> V" and subs: "collected ?m i V subs"
    using memory_traversal [OF assms(1,5), of memory_kids i "Children e"] kids ch assms(2) by blast
  have "j \<in> V" if "?m j = Some x" and "is_sub_of i x" for j x
  proof -
    have "n_refs ?m j i \<noteq> 0" using that by (simp add: n_refs_def refs_def is_sub_of_def)
    then have "count_list (Children e) j \<noteq> 0"
      using assms(3,4) by (simp add: children_exact_def)
    then show ?thesis using V by (auto simp: count_list_0_iff)
  qed
  with subs have "distinct (map ID subs) \<and>
      set subs = {x \<in> ran ?m. Type x = SubEvent \<and> ParentID x = i}"
    by (auto simp: collected_def is_sub_of_def ran_def)
  moreover have "i \<noteq> []" using assms(2,4) by (auto simp: keys_ok_def)
  ultimately show ?thesis using t r assms(4) by (simp add: memory_GetSubEvents_def)
qed

theorem memory_GetSubEvents_exact_witness:
  "\<exists>subs. memory_GetSubEvents 3 ''a'' \<lparr>mem_events = map_ab\<rparr> = Done (Inr subs) \<and>
     set subs = {sub_ev ''b'' ''a'' []}"
proof -
  have "card (dom map_ab) < 3" "keys_ok map_ab" "finite (dom map_ab)"
    using map_ab_wf by (simp_all add: dag_wf_def)
  moreover have "map_ab ''a'' = Some ((main_ev ''a'' [])\<lparr>Children := [''b'']\<rparr>)"
    by (simp add: map_ab_def)
  moreover have "{x \<in> ran map_ab. Type x = SubEvent \<and> ParentID x = ''a''} = {sub_ev ''b'' ''a'' []}"
    unfolding ran_map_ab by (auto simp: main_ev_def sub_ev_def)
  ultimately show ?thesis
    using memory_GetSubEvents_exact [of "\<lparr>mem_events = map_ab\<rparr>" "''a''"
        "(main_ev ''a'' [])\<lparr>Children := [''b'']\<rparr>" 3] map_ab_children_exact
    by (simp only: memoryDAG.simps simp_thms) blast
qed

lemma map_ID_collected:
  "keys_ok m \<Longrightarrow> set is \<subseteq> dom m \<Longrightarrow> map ID (map (the \<circ> m) is) = is"
  by (induction "is") (auto simp: keys_ok_def)

text \<open>C10: on a well-formed store with exact children, \<open>GetParents\<close> and \<open>GetChildren\<close> of a stored
  event succeed and are inverse to each other: the parents come back in the order of \<open>Parents\<close>,
  and an ID occurs among the children once for each of its references to the event, so a sub-event
  that also lists its main event as a parent is returned twice.\<close>

theorem memory_parents_children_inverse:
  assumes "dag_wf (mem_events d)" and "children_exact (mem_events d)" and "mem_events d i = Some e"
  shows "\<exists>ps cs. memory_GetParents i d = Inr ps \<and> map ID ps = Parents e \<and>
    memory_GetChildren i d = Inr cs \<and> set cs \<subseteq> ran (mem_events d) \<and>
    (\<forall>c. count_list (map ID cs) c = n_refs (mem_events d) c i)"
proof -
  let ?m = "mem_events d"
  have keys: "keys_ok ?m" and i: "i \<noteq> []" using assms by (auto simp: dag_wf_def keys_ok_def)
  have ps: "set (Parents e) \<subseteq> dom ?m"
    using assms(1,3) by (simp add: dag_wf_def refs_ok_def)
  have cs: "set (Children e) \<subseteq> dom ?m"
    using children_existD [OF children_exact_exist [OF assms(2)] assms(3)] .
  have "the (?m c) \<in> ran ?m" if "c \<in> set (Children e)" for c
  proof -
    from that cs obtain x where "?m c = Some x" by blast
    then show ?thesis by (simp add: ranI)
  qed
  then have "set (map (the \<circ> ?m) (Children e)) \<subseteq> ran ?m" by auto
  moreover have "\<forall>c. count_list (Children e) c = n_refs ?m c i"
    using assms(2,3) by (simp add: children_exact_def)
  ultimately show ?thesis
    using i assms(3) map_ID_collected [OF keys ps] map_ID_collected [OF keys cs]
    by (simp add: memory_GetParents_def memory_GetChildren_def collect_events_ok ps cs del: map_map)
qed

theorem memory_parents_children_inverse_witness:
  "\<exists>ps cs. memory_GetParents ''a'' \<lparr>mem_events = map_ab\<rparr> = Inr ps \<and> ps = [] \<and>
     memory_GetChildren ''a'' \<lparr>mem_events = map_ab\<rparr> = Inr cs \<and> count_list (map ID cs) ''b'' = 1"
proof -
  let ?a = "(main_ev ''a'' [])\<lparr>Children := [''b'']\<rparr>"
  have a: "map_ab ''a'' = Some ?a" and n: "n_refs map_ab ''b'' ''a'' = 1"
    by (simp_all add: map_ab_def n_refs_def refs_def sub_ev_def)
  have p: "Parents ?a = []" by (simp add: main_ev_def)
  show ?thesis
    using memory_parents_children_inverse [of "\<lparr>mem_events = map_ab\<rparr>" "''a''" ?a]
      map_ab_wf map_ab_children_exact a n p by auto
qed

lemma same_graph_edges: "same_graph m m' \<Longrightarrow> edges m \<subseteq> edges m'"
  unfolding edges_def by (auto elim!: same_graphD simp: same_refs_def)

lemma all_entries_upd:
  "m i = Some x \<Longrightarrow> P i x' = P i x \<Longrightarrow>
     (\<forall>j y. (m(i \<mapsto> x')) j = Some y \<longrightarrow> P j y) = (\<forall>j y. m j = Some y \<longrightarrow> P j y)"
  by auto

lemma set_beacon_views:
  "edges (set_beacon i a m) = edges m" "refs_ok (set_beacon i a m) = refs_ok m"
  "children_exist (set_beacon i a m) = children_exist m"
  "dom (set_beacon i a m) = dom m"
proof -
  note g = set_beacon_same_graph [of m i a]
  show "edges (set_beacon i a m) = edges m"
    using same_graph_edges [OF g] same_graph_edges [OF same_graph_sym [OF g]] by blast
  show d: "dom (set_beacon i a m) = dom m" by (rule same_graph_dom [OF g])
  show "refs_ok (set_beacon i a m) = refs_ok m"
    using same_graph_refs_ok [OF g] same_graph_refs_ok [OF same_graph_sym [OF g]] by blast
  show "children_exist (set_beacon i a m) = children_exist m"
  proof (cases "m i")
    case (Some x)
    then have "set_beacon i a m = m(i \<mapsto> x\<lparr>Beacon := Some a\<rparr>)" by (simp add: set_beacon_def)
    then show ?thesis
      unfolding children_exist_def d
      using all_entries_upd [of m i x "\<lambda>j y. set (Children y) \<subseteq> dom m" "x\<lparr>Beacon := Some a\<rparr>"] Some
      by simp
  qed (simp add: set_beacon_def)
qed

text \<open>\<open>memoryDAG.Verify\<close> never looks at beacon anchors: writing any anchor to any event leaves
  its verdict unchanged, so anchors whose rounds go backwards pass.\<close>

lemma memory_Verify_ignores_beacons:
  assumes "range_order (mem_events d) ks1" and "range_order (mem_events d) ks2"
  shows "memory_Verify ks1 ks2 (memory_SetBeacon i a d) = Done None \<longleftrightarrow>
    memory_Verify ks1 ks2 d = Done None"
proof -
  let ?d = "memory_SetBeacon i a d"
  have "range_order (mem_events ?d) ks1" "range_order (mem_events ?d) ks2"
    using assms by (simp_all add: memory_SetBeacon_def range_order_def set_beacon_views)
  from memory_Verify_iff [OF this] memory_Verify_iff [OF assms] show ?thesis
    by (auto simp: memory_SetBeacon_def set_beacon_views)
qed

end
