(* ===== verification/Cid.thy ===== *)
theory Cid
  imports Events
begin

text \<open>
  Content addressing (\<open>src/dag/cid.go\<close>): the byte serialisation of an event's immutable
  content, the identifier computed from it, and its verification. SHA-256 multihashing and
  the CID text form come from third-party packages; they are the parameter \<open>cid_lib\<close>.
  A decoder of the serialisation, which the code does not have, serves as the
  specification that the format is unambiguous.
\<close>

section \<open>The serialisation\<close>

text \<open>\<open>binary.Write(buf, binary.BigEndian, w)\<close> for a \<open>uint32\<close>.\<close>

definition be32 :: "u32 \<Rightarrow> bytes" where
  "be32 w = [ucast (drop_bit 24 w), ucast (drop_bit 16 w), ucast (drop_bit 8 w), ucast w]"

text \<open>
  Writes to a \<open>bytes.Buffer\<close> never return an error, so the error branches of the source
  cannot be taken; the length conversion \<open>uint32(len(s))\<close> truncates.
\<close>

definition writeString :: "bytes \<Rightarrow> string \<Rightarrow> bytes" where
  "writeString b s = b @ be32 (word_of_nat (length s)) @ str_bytes s"

definition serializeEventContent :: "event \<Rightarrow> bytes" where
  "serializeEventContent e =
     (let b = [ucast (Type e)];
          b = writeString b (ParentID e);
          sortedParents = sort (Parents e);
          b = b @ be32 (word_of_nat (length sortedParents));
          b = foldl writeString b sortedParents;
          b = b @ be32 (word_of_nat (length (Data e)));
          b = b @ Data e
      in b)"

section \<open>The identifier\<close>

record cid_lib =
  mh_sum :: "bytes \<Rightarrow> string + bytes"   \<comment> \<open>\<open>multihash.Sum(data, SHA2_256, -1)\<close>\<close>
  cid_string :: "bytes \<Rightarrow> string"        \<comment> \<open>\<open>cid.NewCidV1(cid.Raw, mh).String()\<close>\<close>

datatype cid_error =
    CidNilEvent
  | CidMultihash string
  | CidVerifyCompute cid_error
  | CidMismatch string string

definition ComputeCID :: "cid_lib \<Rightarrow> event option \<Rightarrow> cid_error + string" where
  "ComputeCID L ev =
     (case ev of
        None \<Rightarrow> Inl CidNilEvent
      | Some e \<Rightarrow>
          (case mh_sum L (serializeEventContent e) of
             Inl msg \<Rightarrow> Inl (CidMultihash msg)
           | Inr mh \<Rightarrow> Inr (cid_string L mh)))"

definition VerifyCID :: "cid_lib \<Rightarrow> event option \<Rightarrow> cid_error option" where
  "VerifyCID L ev =
     (case ev of
        None \<Rightarrow> Some CidNilEvent
      | Some e \<Rightarrow>
          (case ComputeCID L (Some e) of
             Inl err \<Rightarrow> Some (CidVerifyCompute err)
           | Inr computed \<Rightarrow>
               (if ID e \<noteq> computed then Some (CidMismatch computed (ID e)) else None)))"

section \<open>A decoder, as the specification of the format\<close>

fun read_be32 :: "bytes \<Rightarrow> (nat \<times> bytes) option" where
  "read_be32 (a # b # c # d # rest) =
     Some (unat a * 2 ^ 24 + unat b * 2 ^ 16 + unat c * 2 ^ 8 + unat d, rest)"
| "read_be32 _ = None"

definition read_bytes :: "nat \<Rightarrow> bytes \<Rightarrow> (bytes \<times> bytes) option" where
  "read_bytes n bs = (if n \<le> length bs then Some (take n bs, drop n bs) else None)"

definition read_string :: "bytes \<Rightarrow> (string \<times> bytes) option" where
  "read_string bs =
     (case read_be32 bs of
        None \<Rightarrow> None
      | Some (n, rest) \<Rightarrow>
          (case read_bytes n rest of
             None \<Rightarrow> None
           | Some (s, rest') \<Rightarrow> Some (map char_of_byte s, rest')))"

fun read_strings :: "nat \<Rightarrow> bytes \<Rightarrow> (string list \<times> bytes) option" where
  "read_strings 0 bs = Some ([], bs)"
| "read_strings (Suc n) bs =
     (case read_string bs of
        None \<Rightarrow> None
      | Some (s, rest) \<Rightarrow>
          (case read_strings n rest of
             None \<Rightarrow> None
           | Some (ss, rest') \<Rightarrow> Some (s # ss, rest')))"

record content =
  c_type :: "8 word"
  c_parent_id :: string
  c_parents :: "string list"
  c_data :: bytes

definition parse_content :: "bytes \<Rightarrow> content option" where
  "parse_content bs =
     (case bs of
        [] \<Rightarrow> None
      | t # r0 \<Rightarrow>
          (case read_string r0 of
             None \<Rightarrow> None
           | Some (pid, r1) \<Rightarrow>
               (case read_be32 r1 of
                  None \<Rightarrow> None
                | Some (n, r2) \<Rightarrow>
                    (case read_strings n r2 of
                       None \<Rightarrow> None
                     | Some (ps, r3) \<Rightarrow>
                         (case read_be32 r3 of
                            None \<Rightarrow> None
                          | Some (k, r4) \<Rightarrow>
                              (if k = length r4
                               then Some \<lparr>c_type = t, c_parent_id = pid, c_parents = ps,
                                          c_data = r4\<rparr>
                               else None))))))"

text \<open>
  The identity-relevant content of an event, up to the order of its parents, and the sizes
  for which the 32-bit length fields do not truncate.
\<close>

definition same_content :: "event \<Rightarrow> event \<Rightarrow> bool" where
  "same_content a b \<longleftrightarrow> (ucast (Type a) :: 8 word) = ucast (Type b) \<and>
     ParentID a = ParentID b \<and> mset (Parents a) = mset (Parents b) \<and> Data a = Data b"

definition content_fits :: "event \<Rightarrow> bool" where
  "content_fits e \<longleftrightarrow> length (ParentID e) < 2 ^ 32 \<and> length (Parents e) < 2 ^ 32 \<and>
     list_all (\<lambda>p. length p < 2 ^ 32) (Parents e) \<and> length (Data e) < 2 ^ 32"

section \<open>Lemmas\<close>

lemma read_be32_be32:
  "n < 2 ^ 32 \<Longrightarrow> read_be32 (be32 (word_of_nat n) @ rest) = Some (n, rest)"
proof -
  assume n: "n < 2 ^ 32"
  have u: "unat (word_of_nat n :: u32) = n"
    using n by (simp add: unat_of_nat take_bit_nat_eq_self)
  have b: "unat (ucast (drop_bit k (word_of_nat n :: u32)) :: 8 word) = n div 2 ^ k mod 256" for k
  proof -
    have "unat (drop_bit k (word_of_nat n :: u32)) = n div 2 ^ k"
      by (simp only: unat_drop_bit_eq u) (simp add: drop_bit_eq_div)
    then show ?thesis by (simp add: unsigned_ucast_eq take_bit_eq_mod)
  qed
  have b0: "unat (ucast (word_of_nat n :: u32) :: 8 word) = n mod 256"
    using u by (simp add: unsigned_ucast_eq take_bit_eq_mod)
  define p where "p = n div 256"
  define q where "q = p div 256"
  have d: "n div 2 ^ 8 = p" "n div 2 ^ 16 = q" "n div 2 ^ 24 = q div 256"
    by (simp_all add: p_def q_def flip: div_mult2_eq)
  have m: "n = p * 256 + n mod 256" "p = q * 256 + p mod 256"
      "q = q div 256 * 256 + q mod 256"
    unfolding p_def q_def by (simp_all only: div_mult_mod_eq)
  have "q div 256 < 256" using n by (simp add: p_def q_def div_less_iff_less_mult)
  then have "q div 256 mod 256 = q div 256" by simp
  then have "n div 2 ^ 24 * 16777216 + n div 2 ^ 16 mod 256 * 65536 +
      n div 2 ^ 8 mod 256 * 256 + n mod 256 = n"
    unfolding d using m by linarith
  then show ?thesis using d \<open>q div 256 mod 256 = q div 256\<close> by (simp add: be32_def b b0)
qed

lemma read_bytes_append [simp]: "read_bytes (length xs) (xs @ rest) = Some (xs, rest)"
  by (simp add: read_bytes_def)

lemma read_string_written:
  "length s < 2 ^ 32 \<Longrightarrow>
     read_string (be32 (word_of_nat (length s)) @ str_bytes s @ rest) = Some (s, rest)"
  using read_bytes_append [of "str_bytes s" rest]
  by (simp add: read_string_def read_be32_be32 del: read_bytes_append)

lemma foldl_writeString:
  "foldl writeString b ss =
     b @ concat (map (\<lambda>s. be32 (word_of_nat (length s)) @ str_bytes s) ss)"
  by (induction ss arbitrary: b) (simp_all add: writeString_def)

lemma read_strings_written:
  "list_all (\<lambda>s. length s < 2 ^ 32) ss \<Longrightarrow>
     read_strings (length ss)
       (concat (map (\<lambda>s. be32 (word_of_nat (length s)) @ str_bytes s) ss) @ rest) = Some (ss, rest)"
  by (induction ss) (simp_all add: read_string_written)

lemma list_all_sort [simp]: "list_all P (sort xs) = list_all P xs"
  by (simp add: list_all_iff)

lemma parse_serialize:
  "content_fits e \<Longrightarrow>
     parse_content (serializeEventContent e) =
       Some \<lparr>c_type = ucast (Type e), c_parent_id = ParentID e, c_parents = sort (Parents e),
             c_data = Data e\<rparr>"
  using read_strings_written [of "sort (Parents e)"]
    read_be32_be32 [of "length (Data e)" "Data e"]
  by (simp add: parse_content_def serializeEventContent_def writeString_def foldl_writeString
      content_fits_def read_string_written read_be32_be32)

lemma sort_eq_iff_mset: "sort xs = sort ys \<longleftrightarrow> mset xs = mset ys"
  by (metis mset_sort properties_for_sort sorted_sort)

lemma serialize_cong: "same_content a b \<Longrightarrow> serializeEventContent a = serializeEventContent b"
  by (simp add: same_content_def serializeEventContent_def sort_eq_iff_mset [symmetric]
      flip: length_sort)

lemma serialize_eq_iff:
  assumes "content_fits a" and "content_fits b"
  shows "serializeEventContent a = serializeEventContent b \<longleftrightarrow> same_content a b"
proof
  assume "serializeEventContent a = serializeEventContent b"
  with parse_serialize [OF assms(1)] parse_serialize [OF assms(2)] show "same_content a b"
    by (simp add: same_content_def sort_eq_iff_mset)
qed (rule serialize_cong)

end
