(* ===== verification/CidProps.thy ===== *)
theory CidProps
  imports Cid Samples
begin

text \<open>
  Properties of content addressing: the serialisation decodes back and is injective up to the
  order of parents, the identifier depends on exactly the content it documents, and a verified
  identifier is tamper evident.
\<close>

text \<open>C11: the serialised content of an event decodes to its type byte, \<open>ParentID\<close>, parents in
  sorted order and data, for all sizes the 32-bit length fields can hold.\<close>

theorem serializeEventContent_roundtrip:
  assumes "content_fits e"
  shows "parse_content (serializeEventContent e) =
    Some \<lparr>c_type = ucast (Type e), c_parent_id = ParentID e, c_parents = sort (Parents e),
          c_data = Data e\<rparr>"
  by (rule parse_serialize [OF assms])

theorem serializeEventContent_roundtrip_witness:
  "parse_content (serializeEventContent (sub_ev ''s'' ''m'' [''y'', ''x''])) =
     Some \<lparr>c_type = 1, c_parent_id = ''m'', c_parents = sort [''y'', ''x''], c_data = []\<rparr>"
  using serializeEventContent_roundtrip [of "sub_ev ''s'' ''m'' [''y'', ''x'']"]
  by (simp add: content_fits_def sub_ev_def SubEvent_def)

text \<open>C12: the serialisation is unambiguous: for contents within the length fields, two events have
  the same bytes exactly when they agree in type byte, \<open>ParentID\<close>, data and the multiset of
  parents. No shift of bytes between the fields or between the parents can collide.\<close>

theorem serializeEventContent_injective:
  assumes "content_fits a" and "content_fits b"
  shows "serializeEventContent a = serializeEventContent b \<longleftrightarrow> same_content a b"
  by (rule serialize_eq_iff [OF assms])

theorem serializeEventContent_injective_witness:
  "serializeEventContent (main_ev ''1'' [''ab'', ''c'']) \<noteq> serializeEventContent (main_ev ''1'' [''a'', ''bc'']) \<and>
   serializeEventContent (main_ev ''1'' [''ab'', ''c'']) = serializeEventContent (main_ev ''2'' [''c'', ''ab''])"
proof -
  have f: "content_fits (main_ev ''1'' [''ab'', ''c''])" "content_fits (main_ev ''1'' [''a'', ''bc''])"
      "content_fits (main_ev ''2'' [''c'', ''ab''])"
    by (simp_all add: content_fits_def main_ev_def)
  have "\<not> same_content (main_ev ''1'' [''ab'', ''c'']) (main_ev ''1'' [''a'', ''bc''])"
    by (simp add: same_content_def main_ev_def add_eq_conv_ex)
  moreover have "same_content (main_ev ''1'' [''ab'', ''c'']) (main_ev ''2'' [''c'', ''ab''])"
    by (simp add: same_content_def main_ev_def)
  ultimately show ?thesis
    using serializeEventContent_injective [OF f(1,2)] serializeEventContent_injective [OF f(1,3)]
    by simp
qed

text \<open>C13: \<open>ComputeCID\<close> is a function of the documented content only: it does not depend on the
  event's current ID, its children, its beacon anchor or the order of its parents, so the anchor
  and the children added after creation leave the identifier valid.\<close>

theorem ComputeCID_content_only:
  assumes "mset ps = mset (Parents e)"
  shows "ComputeCID L (Some (e\<lparr>ID := i, Parents := ps, Children := cs, Beacon := b\<rparr>)) =
    ComputeCID L (Some e)"
proof -
  have "same_content (e\<lparr>ID := i, Parents := ps, Children := cs, Beacon := b\<rparr>) e"
    using assms by (simp add: same_content_def)
  from serialize_cong [OF this] show ?thesis by (simp add: ComputeCID_def)
qed

text \<open>A content-addressing library that hashes to the bytes themselves.\<close>

definition id_lib :: cid_lib where
  "id_lib = \<lparr>mh_sum = Inr, cid_string = map char_of_byte\<rparr>"

theorem ComputeCID_content_only_witness:
  "mset [''x'', ''y''] = mset (Parents (main_ev ''1'' [''y'', ''x''])) \<and>
   ComputeCID id_lib (Some ((main_ev ''1'' [''y'', ''x''])\<lparr>ID := ''2'', Parents := [''x'', ''y''],
       Children := [''c''], Beacon := None\<rparr>)) = ComputeCID id_lib (Some (main_ev ''1'' [''y'', ''x'']))"
proof -
  have h: "mset [''x'', ''y''] = mset (Parents (main_ev ''1'' [''y'', ''x'']))"
    by (simp add: main_ev_def)
  from h ComputeCID_content_only [OF h, where L = id_lib and i = "''2''" and cs = "[''c'']" and b = None] show ?thesis by blast
qed

lemma VerifyCID_None:
  "VerifyCID L (Some e) = None \<longleftrightarrow>
     (\<exists>mh. mh_sum L (serializeEventContent e) = Inr mh \<and> ID e = cid_string L mh)"
  by (auto simp: VerifyCID_def ComputeCID_def split: sum.splits)

text \<open>C14: identifiers are tamper evident: if two events pass \<open>VerifyCID\<close> under the same ID and the
  hash and its text form do not collide on their two serialisations, the events have the same
  type, \<open>ParentID\<close>, data and parents.\<close>

theorem VerifyCID_tamper_evident:
  assumes "VerifyCID L (Some a) = None" and "VerifyCID L (Some b) = None" and "ID a = ID b"
    and "content_fits a" and "content_fits b"
    and "\<And>m n. mh_sum L (serializeEventContent a) = Inr m \<Longrightarrow>
      mh_sum L (serializeEventContent b) = Inr n \<Longrightarrow> cid_string L m = cid_string L n \<Longrightarrow>
      serializeEventContent a = serializeEventContent b"
  shows "same_content a b"
proof -
  have "serializeEventContent a = serializeEventContent b"
    using assms(1-3,6) by (auto simp: VerifyCID_None)
  with serialize_eq_iff [OF assms(4,5)] show ?thesis by simp
qed

lemma char_of_byte_inj: "inj char_of_byte"
proof (rule injI)
  fix a b :: "8 word" assume "char_of_byte a = char_of_byte b"
  then have "of_char (char_of_byte a) = (of_char (char_of_byte b) :: nat)" by simp
  moreover have "unat a < 256" "unat b < 256"
    using unsigned_less [of a] unsigned_less [of b] by simp_all
  ultimately have "unat a = unat b" by (simp add: char_of_byte_def)
  then show "a = b" by (rule unsigned_word_eqI)
qed

theorem VerifyCID_tamper_evident_witness:
  "\<exists>a b. VerifyCID id_lib (Some a) = None \<and> VerifyCID id_lib (Some b) = None \<and> ID a = ID b \<and>
     Parents a \<noteq> Parents b \<and> same_content a b"
proof -
  let ?i = "map char_of_byte (serializeEventContent (main_ev [] [''x'', ''y'']))"
  let ?a = "main_ev ?i [''x'', ''y'']" and ?b = "main_ev ?i [''y'', ''x'']"
  have s: "serializeEventContent ?a = serializeEventContent (main_ev [] [''x'', ''y''])"
      "serializeEventContent ?b = serializeEventContent (main_ev [] [''x'', ''y''])"
    by (rule serialize_cong, simp add: same_content_def main_ev_def)+
  have v: "VerifyCID id_lib (Some ?a) = None" "VerifyCID id_lib (Some ?b) = None"
    unfolding VerifyCID_None s by (simp_all add: id_lib_def main_ev_def)
  have f: "content_fits ?a" "content_fits ?b" by (simp_all add: content_fits_def main_ev_def)
  have i: "ID ?a = ID ?b" and p: "Parents ?a \<noteq> Parents ?b" by (simp_all add: main_ev_def)
  have "same_content ?a ?b"
    by (rule VerifyCID_tamper_evident [OF v i f]) (simp only: s)
  with v i p show ?thesis by blast
qed

end
