(* ===== verification/GoTime.thy ===== *)
theory GoTime
  imports Prelude "HOL-Library.Signed_Division"
begin

text \<open>
  The parts of Go's package \<open>time\<close> that the beacon and the pool compute with: \<open>Duration\<close> (a
  64-bit signed count of nanoseconds, here an \<open>int\<close> with the wrap-around written out) and
  wall-clock \<open>Time\<close> without a monotonic reading (64-bit seconds since year 1 and
  nanoseconds), with \<open>Unix\<close>, \<open>Add\<close> and \<open>Sub\<close> including their overflow behaviour.
\<close>

section \<open>64-bit arithmetic\<close>

definition wrap64 :: "int \<Rightarrow> int" where
  "wrap64 x = (x + 2 ^ 63) mod 2 ^ 64 - 2 ^ 63"

definition int64 :: "int \<Rightarrow> bool" where
  "int64 x \<longleftrightarrow> - (2 ^ 63) \<le> x \<and> x < 2 ^ 63"

lemma wrap64_id [simp]: "int64 x \<Longrightarrow> wrap64 x = x"
  by (simp add: wrap64_def int64_def mod_pos_pos_trivial)

lemma wrap64_int64: "int64 (wrap64 x)"
  by (simp add: wrap64_def int64_def)

section \<open>Durations and times\<close>

definition Millisecond :: int where "Millisecond = 1000000"
definition Second :: int where "Second = 1000000000"
definition Hour :: int where "Hour = 3600 * Second"

definition dur_mult :: "int \<Rightarrow> int \<Rightarrow> int" where
  "dur_mult a b = wrap64 (a * b)"

record go_time =
  t_sec :: int
  t_nsec :: int

definition unixToInternal :: int where "unixToInternal = 62135596800"

definition time_Unix :: "int \<Rightarrow> go_time" where
  "time_Unix s = \<lparr>t_sec = wrap64 (s + unixToInternal), t_nsec = 0\<rparr>"

definition add_sec :: "int \<Rightarrow> int \<Rightarrow> int" where
  "add_sec s d =
     (let sum = wrap64 (s + d)
      in if (sum > s) = (d > 0) then sum
         else if d > 0 then 2 ^ 63 - 1 else - (2 ^ 63 - 1))"

definition time_Add :: "go_time \<Rightarrow> int \<Rightarrow> go_time" where
  "time_Add t d =
     (let dsec = d sdiv Second; nsec = t_nsec t + d smod Second;
          (dsec, nsec) =
            (if nsec \<ge> Second then (dsec + 1, nsec - Second)
             else if nsec < 0 then (dsec - 1, nsec + Second)
             else (dsec, nsec))
      in \<lparr>t_sec = add_sec (t_sec t) dsec, t_nsec = nsec\<rparr>)"

definition time_Before :: "go_time \<Rightarrow> go_time \<Rightarrow> bool" where
  "time_Before t u \<longleftrightarrow> t_sec t < t_sec u \<or> t_sec t = t_sec u \<and> t_nsec t < t_nsec u"

definition time_Sub :: "go_time \<Rightarrow> go_time \<Rightarrow> int" where
  "time_Sub t u =
     (let d = wrap64 (wrap64 (wrap64 (t_sec t - t_sec u) * Second) + (t_nsec t - t_nsec u))
      in if time_Add u d = t then d
         else if time_Before t u then - (2 ^ 63) else 2 ^ 63 - 1)"

text \<open>\<open>time.NewTicker\<close> panics on a non-positive period.\<close>

definition NewTicker :: "int \<Rightarrow> int exec" where
  "NewTicker d = (if d \<le> 0 then Panic else Done d)"

section \<open>Exactness within range\<close>

text \<open>
  \<open>time_ns\<close> is the instant in nanoseconds; within \<open>time_ok\<close> (some 146 billion years around
  year 1) the operations compute exactly on it.
\<close>

definition time_ns :: "go_time \<Rightarrow> int" where
  "time_ns t = t_sec t * Second + t_nsec t"

definition time_ok :: "go_time \<Rightarrow> bool" where
  "time_ok t \<longleftrightarrow> - (2 ^ 62) \<le> t_sec t \<and> t_sec t < 2 ^ 62 \<and> 0 \<le> t_nsec t \<and> t_nsec t < Second"

lemma sdiv_smod: "(d :: int) sdiv Second * Second + d smod Second = d"
  by (rule sdiv_mult_smod_eq)

lemma smod_Second_range: "- Second < d smod Second \<and> d smod Second < Second"
  using smod_int_range [of Second d] by (simp add: Second_def)

lemma sdiv_Second_range: "int64 d \<Longrightarrow> - 9223372037 \<le> d sdiv Second \<and> d sdiv Second \<le> 9223372037"
  using sdiv_smod [of d] smod_Second_range [of d] by (simp add: int64_def Second_def)

lemma add_sec_exact:
  "- (2 ^ 62) \<le> s \<Longrightarrow> s < 2 ^ 62 \<Longrightarrow> - (2 ^ 62) < d \<Longrightarrow> d < 2 ^ 62 \<Longrightarrow> add_sec s d = s + d"
  by (auto simp: add_sec_def int64_def Let_def)

lemma time_Add_exact:
  assumes "time_ok t" and "int64 d"
  shows "time_ns (time_Add t d) = time_ns t + d \<and>
    0 \<le> t_nsec (time_Add t d) \<and> t_nsec (time_Add t d) < Second"
proof -
  define q r where "q = d sdiv Second" and "r = d smod Second"
  have d: "q * Second + r = d" unfolding q_def r_def by (rule sdiv_smod)
  have r: "- Second < r" "r < Second" using smod_Second_range [of d] by (simp_all add: r_def)
  have q: "- 9223372037 \<le> q" "q \<le> 9223372037"
    using sdiv_Second_range [OF assms(2)] by (simp_all add: q_def)
  have t: "- (2 ^ 62) \<le> t_sec t" "t_sec t < 2 ^ 62" "0 \<le> t_nsec t" "t_nsec t < Second"
    using assms(1) by (simp_all add: time_ok_def)
  have add: "add_sec (t_sec t) k = t_sec t + k" if "- 9223372038 \<le> k" "k \<le> 9223372038" for k
    using t that by (intro add_sec_exact) simp_all
  show ?thesis
    unfolding time_Add_def q_def [symmetric] r_def [symmetric] time_ns_def Let_def
    using d r q t by (auto simp: add algebra_simps)
qed

lemma time_ns_inject:
  assumes "time_ns t = time_ns u" and "0 \<le> t_nsec t" "t_nsec t < Second" "0 \<le> t_nsec u" "t_nsec u < Second"
  shows "t = u"
proof -
  have "t_sec t = t_sec u"
    using assms by (simp add: time_ns_def Second_def)
  with assms show ?thesis by (simp add: time_ns_def)
qed

lemma time_Sub_exact:
  assumes "time_ok t" and "time_ok u" and "int64 (time_ns t - time_ns u)"
  shows "time_Sub t u = time_ns t - time_ns u"
proof -
  have ds: "int64 (t_sec t - t_sec u)" using assms(1,2) by (auto simp: time_ok_def int64_def)
  have ns: "- Second < t_nsec t - t_nsec u" "t_nsec t - t_nsec u < Second"
    using assms(1,2) by (auto simp: time_ok_def)
  let ?a = "(t_sec t - t_sec u) * Second"
  have eq: "?a + (t_nsec t - t_nsec u) = time_ns t - time_ns u"
    by (simp add: time_ns_def algebra_simps)
  have "wrap64 (wrap64 ?a + (t_nsec t - t_nsec u)) = time_ns t - time_ns u"
  proof -
    have "wrap64 (wrap64 ?a + x) = wrap64 (?a + x)" for x
      by (simp add: wrap64_def mod_simps algebra_simps)
    then show ?thesis using eq assms(3) by simp
  qed
  moreover have "time_Add u (time_ns t - time_ns u) = t"
    using time_Add_exact [OF assms(2,3)] assms(1) by (intro time_ns_inject) (auto simp: time_ok_def)
  ultimately show ?thesis by (simp add: time_Sub_def ds)
qed

lemma time_Unix_exact:
  "0 \<le> s \<Longrightarrow> s < 2 ^ 61 \<Longrightarrow>
     time_ok (time_Unix s) \<and> time_ns (time_Unix s) = (s + unixToInternal) * Second"
  by (simp add: time_Unix_def time_ok_def time_ns_def unixToInternal_def int64_def Second_def)

end
