(* ===== verification/Base64.thy ===== *)
theory Base64
  imports Prelude
begin

text \<open>
  Go's \<open>base64.StdEncoding\<close>, the form in which \<open>encoding/json\<close> writes a \<open>[]byte\<close>: the
  encoder with padding, and the (non-strict) decoder, which skips line breaks and ignores the
  unused bits of the last group.
\<close>

definition b64_alphabet :: string where
  "b64_alphabet = ''ABCDEFGHIJKLMNOPQRSTUVWXYZabcdefghijklmnopqrstuvwxyz0123456789+/''"

definition b64_char :: "nat \<Rightarrow> char" where
  "b64_char n = b64_alphabet ! n"

definition b64_value :: "char \<Rightarrow> nat option" where
  "b64_value c =
     (let n = (of_char c :: nat)
      in if 65 \<le> n \<and> n \<le> 90 then Some (n - 65)
         else if 97 \<le> n \<and> n \<le> 122 then Some (n - 97 + 26)
         else if 48 \<le> n \<and> n \<le> 57 then Some (n - 48 + 52)
         else if n = 43 then Some 62 else if n = 47 then Some 63 else None)"

text \<open>Numbers \<open>n\<close> below \<open>2 ^ 24\<close> stand for three bytes or four digits.\<close>

definition group :: "8 word \<Rightarrow> 8 word \<Rightarrow> 8 word \<Rightarrow> nat" where
  "group a b c = unat a * 65536 + unat b * 256 + unat c"

definition digits :: "nat \<Rightarrow> char list" where
  "digits n = [b64_char (n div 262144), b64_char (n div 4096 mod 64), b64_char (n div 64 mod 64), b64_char (n mod 64)]"

fun b64_encode :: "bytes \<Rightarrow> string" where
  "b64_encode [] = []"
| "b64_encode [a] = take 2 (digits (group a 0 0)) @ ''==''"
| "b64_encode [a, b] = take 3 (digits (group a b 0)) @ ''=''"
| "b64_encode (a # b # c # bs) = digits (group a b c) @ b64_encode bs"

definition byte_hi :: "nat \<Rightarrow> 8 word" where "byte_hi n = word_of_nat (n div 65536)"
definition byte_mid :: "nat \<Rightarrow> 8 word" where "byte_mid n = word_of_nat (n div 256 mod 256)"
definition byte_lo :: "nat \<Rightarrow> 8 word" where "byte_lo n = word_of_nat (n mod 256)"

definition number :: "nat \<Rightarrow> nat \<Rightarrow> nat \<Rightarrow> nat \<Rightarrow> nat" where
  "number p q r s = p * 262144 + q * 4096 + r * 64 + s"

fun b64_groups :: "string \<Rightarrow> bytes option" where
  "b64_groups [] = Some []"
| "b64_groups (p # q # r # s # cs) =
     (case (b64_value p, b64_value q) of
        (Some x, Some y) \<Rightarrow>
          (case b64_value r of
             None \<Rightarrow> (if r = CHR ''='' \<and> s = CHR ''='' \<and> cs = [] then Some [byte_hi (number x y 0 0)] else None)
           | Some z \<Rightarrow>
               (case b64_value s of
                  None \<Rightarrow> (if s = CHR ''='' \<and> cs = []
                           then Some [byte_hi (number x y z 0), byte_mid (number x y z 0)] else None)
                | Some w \<Rightarrow>
                    (case b64_groups cs of
                       None \<Rightarrow> None
                     | Some bs \<Rightarrow>
                         Some (byte_hi (number x y z w) # byte_mid (number x y z w) # byte_lo (number x y z w) # bs))))
      | _ \<Rightarrow> None)"
| "b64_groups _ = None"

definition b64_decode :: "string \<Rightarrow> bytes option" where
  "b64_decode s = b64_groups (filter (\<lambda>c. c \<noteq> CHR 0x0A \<and> c \<noteq> CHR 0x0D) s)"

section \<open>Decoding inverts encoding\<close>

lemma b64_char_ok:
  assumes "n < 64"
  shows "b64_value (b64_char n) = Some n" and "b64_char n \<noteq> CHR 0x0A" and "b64_char n \<noteq> CHR 0x0D"
proof -
  have "list_all (\<lambda>n. b64_value (b64_alphabet ! n) = Some n \<and> b64_alphabet ! n \<noteq> CHR 0x0A \<and>
      b64_alphabet ! n \<noteq> CHR 0x0D) [0..<64]"
    by (simp add: upt_rec b64_alphabet_def b64_value_def)
  then have "\<forall>n < 64. b64_value (b64_alphabet ! n) = Some n \<and> b64_alphabet ! n \<noteq> CHR 0x0A \<and>
      b64_alphabet ! n \<noteq> CHR 0x0D" by (simp add: list_all_iff)
  with assms show "b64_value (b64_char n) = Some n" and "b64_char n \<noteq> CHR 0x0A"
    and "b64_char n \<noteq> CHR 0x0D" by (simp_all add: b64_char_def)
qed

lemma b64_value_eq [simp]: "b64_value (CHR ''='') = None"
  by (simp add: b64_value_def)

lemma byte_less: "unat (a :: 8 word) < 256"
  using unsigned_less [of a] by simp

lemma number_digits:
  "n < 16777216 \<Longrightarrow> number (n div 262144) (n div 4096 mod 64) (n div 64 mod 64) (n mod 64) = n"
proof -
  have "n mod 64 + 64 * (n div 64 mod 64) = n mod 4096"
    using mod_mult2_eq [of n 64 64] by simp
  moreover have "n mod 4096 + 4096 * (n div 4096 mod 64) = n mod 262144"
    using mod_mult2_eq [of n 4096 64] by simp
  moreover have "n mod 262144 + 262144 * (n div 262144) = n" by (rule mod_mult_div_eq)
  ultimately show ?thesis unfolding number_def by linarith
qed

lemma group_less: "group a b c < 16777216"
  using byte_less [of a] byte_less [of b] byte_less [of c] by (simp add: group_def)

lemma group_bytes:
  "byte_hi (group a b c) = a" "byte_mid (group a b c) = b" "byte_lo (group a b c) = c"
proof -
  have l: "unat a < 256" "unat b < 256" "unat c < 256" by (rule byte_less)+
  have "group a b c div 65536 = unat a"
    unfolding group_def using l by (intro div_nat_eqI) simp_all
  then show "byte_hi (group a b c) = a" by (simp add: byte_hi_def)
  have "group a b c div 256 = unat a * 256 + unat b"
    unfolding group_def using l by (intro div_nat_eqI) simp_all
  then have "group a b c div 256 mod 256 = unat b" using l by simp
  then show "byte_mid (group a b c) = b" by (simp add: byte_mid_def)
  have "group a b c = unat c + 256 * (unat a * 256 + unat b)" by (simp add: group_def)
  then have "group a b c mod 256 = unat c" using l by (simp only: mod_mult_self2) simp
  then show "byte_lo (group a b c) = c" by (simp add: byte_lo_def)
qed

lemma digit_less: "(n :: nat) < 16777216 \<Longrightarrow> n div 262144 < 64"
  by (rule less_mult_imp_div_less) simp

lemma zero_tail: "group a b 0 mod 64 = 0" "group a 0 0 div 64 mod 64 = 0"
proof -
  have "group a b 0 = (unat a * 1024 + unat b * 4) * 64" by (simp add: group_def)
  then show "group a b 0 mod 64 = 0" by simp
  have "group a 0 0 = (unat a * 1024) * 64" by (simp add: group_def)
  then have "group a 0 0 div 64 = unat a * 16 * 64" by simp
  then show "group a 0 0 div 64 mod 64 = 0" by simp
qed

lemma b64_groups_encode: "b64_groups (b64_encode bs) = Some bs"
proof (induction bs rule: b64_encode.induct)
  case 1
  then show ?case by simp
next
  case (2 a)
  note n = number_digits [OF group_less [of a 0 0]]
  show ?case using n group_bytes(1) [of a 0 0] digit_less [OF group_less [of a 0 0]]
    by (simp add: digits_def b64_char_ok zero_tail)
next
  case (3 a b)
  note n = number_digits [OF group_less [of a b 0]]
  show ?case using n group_bytes(1,2) [of a b 0] digit_less [OF group_less [of a b 0]]
    by (simp add: digits_def b64_char_ok zero_tail)
next
  case (4 a b c bs)
  note n = number_digits [OF group_less [of a b c]]
  show ?case using 4 n group_bytes [of a b c] digit_less [OF group_less [of a b c]]
    by (simp add: digits_def b64_char_ok)
qed

lemma b64_encode_no_breaks: "filter (\<lambda>c. c \<noteq> CHR 0x0A \<and> c \<noteq> CHR 0x0D) (b64_encode bs) = b64_encode bs"
  by (induction bs rule: b64_encode.induct)
    (simp_all add: digits_def b64_char_ok digit_less group_less)

lemma b64_decode_encode: "b64_decode (b64_encode bs) = Some bs"
  by (simp add: b64_decode_def b64_encode_no_breaks b64_groups_encode)

end
