(* ===== verification/Json.thy ===== *)
theory Json
  imports Base64
begin

text \<open>
  What the code base uses of Go's \<open>encoding/json\<close>, at the level of JSON values: the encoding of
  strings, byte slices (base64), integers, slices, maps and
  structs, and the decoder's treatment of null, unknown fields, field names that differ in case,
  and numbers out of range.
\<close>

section \<open>Values\<close>

text \<open>
  Numbers are integer literals, or other literals, of which the fields of this code base accept only
  \<open>-0\<close>, where a signed integer is expected.
\<close>

datatype json =
    JNull
  | JBool bool
  | JInt int
  | JFloat string
  | JStr string
  | JArr "json list"
  | JObj "(string \<times> json) list"

section \<open>UTF-8\<close>

definition ord :: "char \<Rightarrow> nat" where "ord c = of_char c"

definition between :: "nat \<Rightarrow> nat \<Rightarrow> char \<Rightarrow> bool" where
  "between a b c \<longleftrightarrow> a \<le> ord c \<and> ord c \<le> b"

text \<open>
  \<open>utf8.DecodeRuneInString\<close>: the number of continuation bytes after the first byte, \<open>None\<close> for
  an invalid encoding. The second component of the case is the range of the second byte.
\<close>

definition rune_shape :: "char \<Rightarrow> (nat \<times> nat \<times> nat) option" where
  "rune_shape c =
     (let n = ord c
      in if n < 128 then Some (0, 0, 0)
         else if 194 \<le> n \<and> n \<le> 223 then Some (1, 128, 191)
         else if n = 224 then Some (2, 160, 191)
         else if 225 \<le> n \<and> n \<le> 236 then Some (2, 128, 191)
         else if n = 237 then Some (2, 128, 159)
         else if n = 238 \<or> n = 239 then Some (2, 128, 191)
         else if n = 240 then Some (3, 144, 191)
         else if 241 \<le> n \<and> n \<le> 243 then Some (3, 128, 191)
         else if n = 244 then Some (3, 128, 143)
         else None)"

definition rune_rest :: "string \<Rightarrow> nat option" where
  "rune_rest s =
     (case s of
        [] \<Rightarrow> None
      | c # cs \<Rightarrow>
          (case rune_shape c of
             None \<Rightarrow> None
           | Some (n, a, b) \<Rightarrow>
               (if n = 0 then Some 0
                else if n \<le> length cs \<and> between a b (hd cs) \<and> list_all (between 128 191) (take n cs)
                then Some n else None)))"

definition replacement :: string where
  "replacement = [char_of (239 :: nat), char_of (191 :: nat), char_of (189 :: nat)]"

function to_valid :: "string \<Rightarrow> string" where
  "to_valid [] = []"
| "to_valid (c # cs) =
     (case rune_rest (c # cs) of
        None \<Rightarrow> replacement @ to_valid cs
      | Some n \<Rightarrow> c # take n cs @ to_valid (drop n cs))"
  by pat_completeness auto
termination by (relation "measure length") auto

definition valid_utf8 :: "string \<Rightarrow> bool" where
  "valid_utf8 s \<longleftrightarrow> to_valid s = s"

lemma to_valid_ascii: "list_all (\<lambda>c. ord c < 128) s \<Longrightarrow> to_valid s = s"
  by (induction s) (simp_all add: rune_rest_def rune_shape_def)

lemma valid_utf8_ascii: "list_all (\<lambda>c. ord c < 128) s \<Longrightarrow> valid_utf8 s"
  by (simp add: valid_utf8_def to_valid_ascii)

section \<open>Encoding\<close>

definition enc_string :: "string \<Rightarrow> json" where
  "enc_string s = JStr s"

text \<open>A nil slice is \<open>null\<close>; an empty slice is taken to be nil.\<close>

definition enc_bytes :: "bytes \<Rightarrow> json" where
  "enc_bytes bs = (if bs = [] then JNull else JStr (b64_encode bs))"

definition enc_slice :: "('a \<Rightarrow> json) \<Rightarrow> 'a list \<Rightarrow> json" where
  "enc_slice f xs = (if xs = [] then JNull else JArr (map f xs))"

text \<open>A map, given the order \<open>ks\<close> of its keys: the encoder sorts them.\<close>

definition enc_map :: "('a \<Rightarrow> json) \<Rightarrow> string list \<Rightarrow> (string \<rightharpoonup> 'a) \<Rightarrow> json" where
  "enc_map f ks m = JObj (map (\<lambda>k. (k, f (the (m k)))) (sort ks))"

text \<open>A field tagged \<open>omitempty\<close>.\<close>

definition omit_empty :: "bool \<Rightarrow> string \<times> json \<Rightarrow> (string \<times> json) list" where
  "omit_empty b field = (if b then [] else [field])"

section \<open>Decoding\<close>

text \<open>
  A decoder takes the value and the old content of the variable it decodes into; \<open>None\<close> is an
  error.
\<close>

type_synonym 'a dec = "json \<Rightarrow> 'a \<Rightarrow> 'a option"

fun dec_string :: "string dec" where
  "dec_string (JStr s) old = Some s"
| "dec_string JNull old = Some old"
| "dec_string _ old = None"

definition dec_int :: "int \<Rightarrow> int \<Rightarrow> int dec" where
  "dec_int lo hi j old =
     (case j of
        JInt n \<Rightarrow> (if lo \<le> n \<and> n \<le> hi then Some n else None)
      | JFloat s \<Rightarrow> (if s = ''-0'' \<and> lo < 0 then Some 0 else None)
      | JNull \<Rightarrow> Some old
      | _ \<Rightarrow> None)"

text \<open>
  An array is decoded over the elements the slice already has, which matter when a key occurs twice
  and an element is \<open>null\<close>. (Elements that an earlier, shorter array has cut off but that are still in
  the slice's capacity are taken to be gone.)
\<close>

fun dec_elems :: "'a dec \<Rightarrow> 'a \<Rightarrow> json list \<Rightarrow> 'a list \<Rightarrow> 'a list option" where
  "dec_elems f zero [] old = Some []"
| "dec_elems f zero (x # xs) old =
     (case f x (case old of [] \<Rightarrow> zero | y # ys \<Rightarrow> y) of
        None \<Rightarrow> None
      | Some y \<Rightarrow> map_option ((#) y) (dec_elems f zero xs (tl old)))"

definition dec_slice :: "'a dec \<Rightarrow> 'a \<Rightarrow> 'a list dec" where
  "dec_slice f zero j old =
     (case j of JNull \<Rightarrow> Some [] | JArr xs \<Rightarrow> dec_elems f zero xs old | _ \<Rightarrow> None)"

definition dec_bytes :: "bytes dec" where
  "dec_bytes j old =
     (case j of
        JNull \<Rightarrow> Some []
      | JStr s \<Rightarrow> b64_decode s
      | JArr xs \<Rightarrow> map_option (map word_of_int) (dec_elems (dec_int 0 255) 0 xs (map uint old))
      | _ \<Rightarrow> None)"

fun dec_entries :: "'a dec \<Rightarrow> 'a \<Rightarrow> (string \<times> json) list \<Rightarrow> (string \<rightharpoonup> 'a) \<Rightarrow> (string \<rightharpoonup> 'a) option" where
  "dec_entries f zero [] m = Some m"
| "dec_entries f zero ((k, v) # kvs) m =
     (case f v zero of None \<Rightarrow> None | Some x \<Rightarrow> dec_entries f zero kvs (m(k \<mapsto> x)))"

text \<open>A map variable may be nil: \<open>None\<close>.\<close>

definition dec_map :: "'a dec \<Rightarrow> 'a \<Rightarrow> (string \<rightharpoonup> 'a) option dec" where
  "dec_map f zero j old =
     (case j of
        JNull \<Rightarrow> Some None
      | JObj kvs \<Rightarrow>
          map_option Some (dec_entries f zero kvs (case old of None \<Rightarrow> (\<lambda>_. None) | Some m \<Rightarrow> m))
      | _ \<Rightarrow> None)"

definition dec_ptr :: "'a dec \<Rightarrow> 'a \<Rightarrow> 'a option dec" where
  "dec_ptr f zero j old =
     (if j = JNull then Some None
      else map_option Some (f j (case old of None \<Rightarrow> zero | Some x \<Rightarrow> x)))"

definition ascii_lower :: "char \<Rightarrow> char" where
  "ascii_lower c = (if between 65 90 c then char_of (ord c + 32) else c)"

text \<open>
  Field names are compared up to case; the long s (U+017F) and the Kelvin sign (U+212A) are the only
  other characters whose case folds to an ASCII letter.
\<close>

fun fold_name :: "string \<Rightarrow> string" where
  "fold_name [] = []"
| "fold_name (c # s) =
     (if c = CHR 0xC5 \<and> take 1 s = [CHR 0xBF] then CHR ''s'' # fold_name (drop 1 s)
      else if c = CHR 0xE2 \<and> take 2 s = [CHR 0x84, CHR 0xAA] then CHR ''k'' # fold_name (drop 2 s)
      else ascii_lower c # fold_name s)"

definition field_match :: "string \<Rightarrow> string \<Rightarrow> bool" where
  "field_match name key \<longleftrightarrow> key = name \<or> fold_name key = fold_name name"

type_synonym 'r field = "string \<times> 'r dec"

fun dec_fields :: "'r field list \<Rightarrow> (string \<times> json) list \<Rightarrow> 'r \<Rightarrow> 'r option" where
  "dec_fields fs [] r = Some r"
| "dec_fields fs ((k, v) # kvs) r =
     (case find (\<lambda>(n, d). field_match n k) fs of
        None \<Rightarrow> dec_fields fs kvs r
      | Some (n, d) \<Rightarrow> (case d v r of None \<Rightarrow> None | Some r' \<Rightarrow> dec_fields fs kvs r'))"

definition dec_struct :: "'r field list \<Rightarrow> 'r dec" where
  "dec_struct fs j r = (case j of JNull \<Rightarrow> Some r | JObj kvs \<Rightarrow> dec_fields fs kvs r | _ \<Rightarrow> None)"

text \<open>A field decoder from a getter, a setter and a decoder of the field's type.\<close>

definition on_field :: "('r \<Rightarrow> 'a) \<Rightarrow> ('a \<Rightarrow> 'r \<Rightarrow> 'r) \<Rightarrow> 'a dec \<Rightarrow> 'r dec" where
  "on_field get put d j r = map_option (\<lambda>x. put x r) (d j (get r))"

section \<open>Decoding inverts encoding\<close>

lemma dec_string_enc: "dec_string (enc_string s) old = Some s"
  by (simp add: enc_string_def)

lemma dec_bytes_enc: "dec_bytes (enc_bytes bs) old = Some bs"
  by (simp add: dec_bytes_def enc_bytes_def b64_decode_encode)

lemma dec_elems_map:
  "(\<And>x y. x \<in> set xs \<Longrightarrow> d (f x) y = Some x) \<Longrightarrow> dec_elems d zero (map f xs) old = Some xs"
  by (induction xs arbitrary: old) auto

lemma dec_slice_enc:
  "(\<And>x y. x \<in> set xs \<Longrightarrow> d (f x) y = Some x) \<Longrightarrow> dec_slice d zero (enc_slice f xs) old = Some xs"
  by (simp add: dec_slice_def enc_slice_def dec_elems_map)

lemma dec_entries_enc:
  "(\<And>k. k \<in> set ks \<Longrightarrow> d (f (the (m k))) zero = Some (g (the (m k)))) \<Longrightarrow>
     dec_entries d zero (map (\<lambda>k. (k, f (the (m k)))) ks) m0 =
       Some (\<lambda>k. if k \<in> set ks then Some (g (the (m k))) else m0 k)"
  by (induction ks arbitrary: m0) (auto simp: fun_eq_iff)

lemma dec_map_enc:
  assumes "set ks = dom m" and "\<And>k x. m k = Some x \<Longrightarrow> d (f x) zero = Some (g x)"
  shows "dec_map d zero (enc_map f ks m) None = Some (Some (\<lambda>k. map_option g (m k)))"
proof -
  have "dec_entries d zero (map (\<lambda>k. (k, f (the (m k)))) (sort ks)) (\<lambda>_. None) =
      Some (\<lambda>k. if k \<in> set (sort ks) then Some (g (the (m k))) else None)"
    using assms by (intro dec_entries_enc) auto
  moreover have "(\<lambda>k. if k \<in> set (sort ks) then Some (g (the (m k))) else None) = (\<lambda>k. map_option g (m k))"
    using assms(1) by (auto simp: fun_eq_iff domIff split: option.splits)
  ultimately show ?thesis by (simp add: dec_map_def enc_map_def)
qed

end
