(* ===== verification/Hex.thy ===== *)
theory Hex
  imports Prelude
begin

text \<open>
  Go's \<open>encoding/hex\<close>, which the beacon uses to decode randomness and signatures and the
  hashpool adapter to print hashes: \<open>EncodeToString\<close> and \<open>DecodeString\<close> with its two errors.
\<close>

definition hex_digits :: string where
  "hex_digits = ''0123456789abcdef''"

definition hex_digit :: "8 word \<Rightarrow> char" where
  "hex_digit d = hex_digits ! unat d"

definition hex_encode :: "bytes \<Rightarrow> string" where
  "hex_encode bs = concat (map (\<lambda>b. [hex_digit (drop_bit 4 b), hex_digit (take_bit 4 b)]) bs)"

definition hex_value :: "char \<Rightarrow> (8 word) option" where
  "hex_value c =
     (let n = (of_char c :: nat)
      in if 48 \<le> n \<and> n \<le> 57 then Some (word_of_nat (n - 48))
         else if 97 \<le> n \<and> n \<le> 102 then Some (word_of_nat (n - 97 + 10))
         else if 65 \<le> n \<and> n \<le> 70 then Some (word_of_nat (n - 65 + 10))
         else None)"

datatype hex_error = InvalidByteError char | ErrLength

fun hex_decode :: "string \<Rightarrow> hex_error + bytes" where
  "hex_decode [] = Inr []"
| "hex_decode [c] = Inl (if hex_value c = None then InvalidByteError c else ErrLength)"
| "hex_decode (p # q # s) =
     (case hex_value p of
        None \<Rightarrow> Inl (InvalidByteError p)
      | Some a \<Rightarrow>
          (case hex_value q of
             None \<Rightarrow> Inl (InvalidByteError q)
           | Some b \<Rightarrow>
               (case hex_decode s of
                  Inl err \<Rightarrow> Inl err
                | Inr bs \<Rightarrow> Inr (or (push_bit 4 a) b # bs))))"

lemma hex_value_nth: "n < 16 \<Longrightarrow> hex_value (hex_digits ! n) = Some (word_of_nat n)"
proof -
  have "list_all (\<lambda>n. hex_value (hex_digits ! n) = Some (word_of_nat n)) [0..<16]"
    by (simp add: upt_rec hex_digits_def hex_value_def)
  moreover assume "n < 16"
  ultimately show ?thesis by (simp add: list_all_iff)
qed

lemma hex_value_digit: "unat d < 16 \<Longrightarrow> hex_value (hex_digit d) = Some d"
  by (simp add: hex_digit_def hex_value_nth)

lemma nibbles: "or (push_bit 4 (drop_bit 4 b)) (take_bit 4 b) = (b :: 8 word)"
  by (rule bit_word_eqI) (auto simp: bit_simps)

lemma nibble_less: "unat (drop_bit 4 (b :: 8 word)) < 16" "unat (take_bit 4 (b :: 8 word)) < 16"
proof -
  have "unat b < 256" using unsigned_less [of b] by simp
  then show "unat (drop_bit 4 b) < 16"
    by (simp only: unat_drop_bit_eq) (simp add: drop_bit_eq_div)
  show "unat (take_bit 4 b) < 16"
    by (simp only: unsigned_take_bit_eq) (simp add: take_bit_eq_mod)
qed

lemma hex_decode_encode: "hex_decode (hex_encode bs) = Inr bs"
  by (induction bs) (simp_all add: hex_encode_def hex_value_digit nibble_less nibbles)

lemma length_hex_encode: "length (hex_encode bs) = 2 * length bs"
  by (induction bs) (simp_all add: hex_encode_def)

end
