(* ===== verification/JsonText.thy ===== *)
theory JsonText
  imports Json Hex
begin

text \<open>
  The text form of JSON in Go's \<open>encoding/json\<close>: how \<open>Marshal\<close> writes a value (with its escapes,
  and invalid UTF-8 replaced), how an \<open>Encoder\<close> with an indent writes it, and how a \<open>Decoder\<close> reads
  the first value of its input, as an automaton over tokens with an explicit stack of open arrays and
  objects of at most 10000, like the scanner of the library. What is written is read back.
\<close>

section \<open>Strings\<close>

text \<open>A \<open>\u00xy\<close> escape.\<close>

definition hex2 :: "nat \<Rightarrow> string" where
  "hex2 n = [hex_digits ! (n div 16), hex_digits ! (n mod 16)]"

definition esc_ascii :: "char \<Rightarrow> string" where
  "esc_ascii c =
     (let n = ord c
      in if n = 34 \<or> n = 92 then [CHR 0x5C, c]
         else if n = 8 then [CHR 0x5C, CHR ''b'']
         else if n = 12 then [CHR 0x5C, CHR ''f'']
         else if n = 10 then [CHR 0x5C, CHR ''n'']
         else if n = 13 then [CHR 0x5C, CHR ''r'']
         else if n = 9 then [CHR 0x5C, CHR ''t'']
         else if n < 32 \<or> n = 60 \<or> n = 62 \<or> n = 38 then [CHR 0x5C, CHR ''u'', CHR ''0'', CHR ''0''] @ hex2 n
         else [c])"

text \<open>Line and paragraph separator (U+2028, U+2029) are escaped too.\<close>

function quote_chars :: "string \<Rightarrow> string" where
  "quote_chars [] = []"
| "quote_chars (c # cs) =
     (case rune_rest (c # cs) of
        None \<Rightarrow> [CHR 0x5C] @ ''ufffd'' @ quote_chars cs
      | Some n \<Rightarrow>
          (if n = 0 then esc_ascii c @ quote_chars cs
           else if c # take n cs = [CHR 0xE2, CHR 0x80, CHR 0xA8]
           then [CHR 0x5C] @ ''u2028'' @ quote_chars (drop n cs)
           else if c # take n cs = [CHR 0xE2, CHR 0x80, CHR 0xA9]
           then [CHR 0x5C] @ ''u2029'' @ quote_chars (drop n cs)
           else c # take n cs @ quote_chars (drop n cs)))"
  by pat_completeness auto
termination by (relation "measure length") auto

definition quote :: "string \<Rightarrow> string" where
  "quote s = CHR 0x22 # quote_chars s @ [CHR 0x22]"

text \<open>Reading: four hex digits, the UTF-8 form of a code point, surrogates.\<close>

fun hex4 :: "string \<Rightarrow> (nat \<times> string) option" where
  "hex4 (a # b # c # d # s) =
     (case (hex_value a, hex_value b, hex_value c, hex_value d) of
        (Some p, Some q, Some r, Some t) \<Rightarrow> Some (((unat p * 16 + unat q) * 16 + unat r) * 16 + unat t, s)
      | _ \<Rightarrow> None)"
| "hex4 _ = None"

definition rune_utf8 :: "nat \<Rightarrow> string" where
  "rune_utf8 n =
     (if n < 128 then [char_of n]
      else if n < 2048 then [char_of (192 + n div 64), char_of (128 + n mod 64)]
      else if n < 65536 then
        [char_of (224 + n div 4096), char_of (128 + n div 64 mod 64), char_of (128 + n mod 64)]
      else
        [char_of (240 + n div 262144), char_of (128 + n div 4096 mod 64), char_of (128 + n div 64 mod 64),
         char_of (128 + n mod 64)])"

text \<open>The rest of a \<open>\u\<close> escape: a high surrogate takes a low one that follows with it.\<close>

definition low_surrogate :: "string \<Rightarrow> (nat \<times> string) option" where
  "low_surrogate s =
     (case s of
        x # y # s' \<Rightarrow>
          (if x = CHR 0x5C \<and> y = CHR ''u'' then
             (case hex4 s' of
                Some (m, r) \<Rightarrow> (if 56320 \<le> m \<and> m < 57344 then Some (m, r) else None)
              | None \<Rightarrow> None)
           else None)
      | _ \<Rightarrow> None)"

definition lex_unicode :: "string \<Rightarrow> (string \<times> string) option" where
  "lex_unicode s =
     (case hex4 s of
        None \<Rightarrow> None
      | Some (n, r) \<Rightarrow>
          (if n < 55296 \<or> 57344 \<le> n then Some (rune_utf8 n, r)
           else
             (case (if n < 56320 then low_surrogate r else None) of
                Some (m, r') \<Rightarrow> Some (rune_utf8 (65536 + (n - 55296) * 1024 + (m - 56320)), r')
              | None \<Rightarrow> Some (replacement, r))))"

definition lex_escape :: "string \<Rightarrow> (string \<times> string) option" where
  "lex_escape s =
     (case s of
        [] \<Rightarrow> None
      | c # r \<Rightarrow>
          (if c = CHR 0x22 \<or> c = CHR 0x5C \<or> c = CHR ''/'' then Some ([c], r)
           else if c = CHR ''b'' then Some ([CHR 0x08], r)
           else if c = CHR ''f'' then Some ([CHR 0x0C], r)
           else if c = CHR ''n'' then Some ([CHR 0x0A], r)
           else if c = CHR ''r'' then Some ([CHR 0x0D], r)
           else if c = CHR ''t'' then Some ([CHR 0x09], r)
           else if c = CHR ''u'' then lex_unicode r
           else None))"

lemma hex4_length: "hex4 s = Some (n, r) \<Longrightarrow> length r < length s"
  by (induction s rule: hex4.induct) (auto split: option.splits)

lemma low_surrogate_length: "low_surrogate s = Some (n, r) \<Longrightarrow> length r < length s"
  by (auto simp: low_surrogate_def dest: hex4_length split: list.splits if_splits option.splits)

lemma lex_unicode_length: "lex_unicode s = Some (t, r) \<Longrightarrow> length r < length s"
  by (auto simp: lex_unicode_def dest!: hex4_length low_surrogate_length split: option.splits if_splits)

lemma lex_escape_length: "lex_escape s = Some (t, r) \<Longrightarrow> length r < length s"
  by (auto simp: lex_escape_def dest: lex_unicode_length split: list.splits if_splits)

definition prepend :: "string \<Rightarrow> (string \<times> string) option \<Rightarrow> (string \<times> string) option" where
  "prepend t x = map_option (\<lambda>(u, r). (t @ u, r)) x"

text \<open>The characters of a string after its opening quote, decoded, and what follows the closing one.\<close>

function lex_chars :: "string \<Rightarrow> (string \<times> string) option" where
  "lex_chars [] = None"
| "lex_chars (c # cs) =
     (if c = CHR 0x22 then Some ([], cs)
      else if c = CHR 0x5C then
        (case lex_escape cs of None \<Rightarrow> None | Some (t, r) \<Rightarrow> prepend t (lex_chars r))
      else if ord c < 32 then None
      else
        (case rune_rest (c # cs) of
           None \<Rightarrow> prepend replacement (lex_chars cs)
         | Some n \<Rightarrow> prepend (c # take n cs) (lex_chars (drop n cs))))"
  by pat_completeness auto
termination by (relation "measure length") (auto dest: lex_escape_length)

lemma prepend_simps [simp]: "prepend t None = None" "prepend t (Some (u, r)) = Some (t @ u, r)"
  by (simp_all add: prepend_def)

lemma prepend_eq_Some: "prepend t x = Some (v, r) \<longleftrightarrow> (\<exists>u. x = Some (u, r) \<and> v = t @ u)"
  by (cases x) (auto simp: prepend_def)

lemma lex_chars_length: "lex_chars s = Some (t, r) \<Longrightarrow> length r < length s"
proof (induction s arbitrary: t r rule: lex_chars.induct)
  case 1
  then show ?case by simp
next
  case (2 c cs)
  then show ?case
    by (fastforce dest: lex_escape_length simp: prepend_eq_Some split: if_splits option.splits)
qed

lemma rune_shape_0: "rune_shape c = Some (0, a, b) \<Longrightarrow> ord c < 128"
  by (auto simp: rune_shape_def Let_def split: if_splits)

lemma rune_shape_Suc: "rune_shape c = Some (Suc n, a, b) \<Longrightarrow> 194 \<le> ord c"
  by (auto simp: rune_shape_def Let_def split: if_splits)

lemma rune_rest_0: "rune_rest (c # cs) = Some 0 \<Longrightarrow> ord c < 128"
  by (auto simp: rune_rest_def dest: rune_shape_0 split: option.splits if_splits)

lemma rune_rest_ascii: "ord c < 128 \<Longrightarrow> rune_rest (c # cs) = Some 0"
  by (simp add: rune_rest_def rune_shape_def)

lemma rune_rest_multi:
  assumes "rune_rest (c # cs) = Some n" and "n \<noteq> 0"
  shows "128 \<le> ord c" and "n \<le> length cs" and "rune_rest (c # take n cs @ t) = Some n"
proof -
  obtain m a b where s: "rune_shape c = Some (m, a, b)" and m: "m = n" "n \<le> length cs" "between a b (hd cs)"
    "list_all (between 128 191) (take n cs)"
    using assms by (auto simp: rune_rest_def split: option.splits if_splits prod.splits)
  show "n \<le> length cs" by (rule m(2))
  have c: "194 \<le> ord c" using s m(1) assms(2) rune_shape_Suc by (cases n) auto
  then show "128 \<le> ord c" by simp
  have "hd (take n cs @ t) = hd cs" using m(2) assms(2) by (cases cs; cases n) auto
  with s m assms(2) show "rune_rest (c # take n cs @ t) = Some n" by (simp add: rune_rest_def)
qed

lemma lex_chars_plain:
  assumes "32 \<le> ord c" and "ord c < 128" and "c \<noteq> CHR 0x22" and "c \<noteq> CHR 0x5C"
  shows "lex_chars (c # t) = prepend [c] (lex_chars t)"
  using assms by (simp add: rune_rest_ascii)

lemma lex_chars_rune:
  assumes "rune_rest (c # cs) = Some n" and "n \<noteq> 0"
  shows "lex_chars (c # take n cs @ t) = prepend (c # take n cs) (lex_chars t)"
proof -
  note r = rune_rest_multi(1,2) [OF assms] rune_rest_multi(3) [OF assms, of t]
  have "c \<noteq> CHR 0x22" "c \<noteq> CHR 0x5C" "\<not> ord c < 32" using r(1) by (auto simp: ord_def)
  with r show ?thesis by simp
qed

lemma lex_chars_escape:
  "lex_escape (e @ t) = Some (v, t) \<Longrightarrow> lex_chars ([CHR 0x5C] @ e @ t) = prepend v (lex_chars t)"
  by simp

lemma hex_value_hex2:
  assumes "n < 256"
  shows "hex4 (CHR ''0'' # CHR ''0'' # hex2 n @ t) = Some (n, t)"
proof -
  have d: "n div 16 < 16" "n mod 16 < 16" using assms by (simp_all add: div_less_iff_less_mult)
  have u: "unat (word_of_nat k :: 8 word) = k" if "k < 16" for k
    using that by (simp add: unat_of_nat take_bit_nat_eq_self)
  have "hex_value (CHR ''0'') = Some 0" by (simp add: hex_value_def)
  then show ?thesis using d by (simp add: hex2_def hex_value_nth u)
qed

lemma lex_escape_control:
  assumes "n < 128" shows "lex_escape ((CHR ''u'' # CHR ''0'' # CHR ''0'' # hex2 n) @ t) = Some ([char_of n], t)"
  using hex_value_hex2 [of n t] assms by (simp add: lex_escape_def lex_unicode_def rune_utf8_def)

lemma ord_inject: "ord c = ord d \<longleftrightarrow> c = d"
  by (simp add: ord_def)

lemma char_ord: "char_of (ord c) = c"
  by (simp add: ord_def)

lemma ord_eq: "ord c = k \<Longrightarrow> c = char_of k"
  using char_ord by metis

lemma char_of_control [simp]: "char_of (8 :: nat) = CHR 0x08" "char_of (9 :: nat) = CHR 0x09"
  "char_of (10 :: nat) = CHR 0x0A" "char_of (12 :: nat) = CHR 0x0C" "char_of (13 :: nat) = CHR 0x0D"
  by (simp_all add: char_of_eq_iff)

lemma lex_chars_esc_ascii:
  assumes "ord c < 128" shows "lex_chars (esc_ascii c @ t) = prepend [c] (lex_chars t)"
proof -
  consider "ord c = 34 \<or> ord c = 92" | "ord c = 8" | "ord c = 12" | "ord c = 10" | "ord c = 13" | "ord c = 9"
    | (control) "ord c \<notin> {34, 92, 8, 12, 10, 13, 9}" "ord c < 32 \<or> ord c = 60 \<or> ord c = 62 \<or> ord c = 38"
    | (plain) "ord c \<notin> {34, 92}" "32 \<le> ord c" "ord c \<notin> {60, 62, 38}" by fastforce
  then show ?thesis
  proof cases
    case 1
    then have "c = CHR 0x22 \<or> c = CHR 0x5C" by (simp add: ord_inject [symmetric]) (simp add: ord_def)
    with 1 show ?thesis by (auto simp: esc_ascii_def Let_def lex_escape_def)
  next
    case control
    then have "esc_ascii c = [CHR 0x5C] @ (CHR ''u'' # CHR ''0'' # CHR ''0'' # hex2 (ord c))"
      by (auto simp: esc_ascii_def Let_def)
    with lex_chars_escape [OF lex_escape_control [OF assms, of t]] show ?thesis
      by (simp add: char_ord del: lex_chars.simps)
  next
    case plain
    then have "c \<noteq> CHR 0x22" "c \<noteq> CHR 0x5C" by (auto simp: ord_def)
    with plain assms lex_chars_plain show ?thesis by (auto simp: esc_ascii_def Let_def)
  qed (auto simp: esc_ascii_def Let_def lex_escape_def dest!: ord_eq)
qed

lemma lex_fffd: "lex_chars ([CHR 0x5C] @ ''ufffd'' @ t) = prepend replacement (lex_chars t)"
  by (rule lex_chars_escape) (simp add: lex_escape_def lex_unicode_def hex_value_def rune_utf8_def replacement_def)

lemma lex_2028: "lex_chars ([CHR 0x5C] @ ''u2028'' @ t) = prepend [CHR 0xE2, CHR 0x80, CHR 0xA8] (lex_chars t)"
  by (rule lex_chars_escape) (simp add: lex_escape_def lex_unicode_def hex_value_def rune_utf8_def char_of_eq_iff)

lemma lex_2029: "lex_chars ([CHR 0x5C] @ ''u2029'' @ t) = prepend [CHR 0xE2, CHR 0x80, CHR 0xA9] (lex_chars t)"
  by (rule lex_chars_escape) (simp add: lex_escape_def lex_unicode_def hex_value_def rune_utf8_def char_of_eq_iff)

text \<open>Reading what was written gives the string, with invalid UTF-8 replaced.\<close>

lemma lex_chars_quote: "lex_chars (quote_chars s @ CHR 0x22 # t) = Some (to_valid s, t)"
proof (induction s rule: quote_chars.induct)
  case 1
  then show ?case by simp
next
  case (2 c cs)
  show ?case
  proof (cases "rune_rest (c # cs)")
    case None
    with 2(1) lex_fffd [of "quote_chars cs @ CHR 0x22 # t"] show ?thesis by (simp del: lex_chars.simps)
  next
    case (Some n)
    show ?thesis
    proof (cases "n = 0")
      case True
      have "ord c < 128" using Some True rune_rest_0 by blast
      with True Some 2(2) [OF Some] lex_chars_esc_ascii [of c "quote_chars cs @ CHR 0x22 # t"]
      show ?thesis by (simp del: lex_chars.simps)
    next
      case False
      let ?q = "quote_chars (drop n cs) @ CHR 0x22 # t"
      have ih: "lex_chars ?q = Some (to_valid (drop n cs), t)"
        using 2 Some False by blast
      have "lex_chars (quote_chars (c # cs) @ CHR 0x22 # t) = prepend (c # take n cs) (lex_chars ?q)"
        using Some False lex_2028 [of ?q] lex_2029 [of ?q] lex_chars_rune [OF Some False, of ?q]
        by (auto simp del: lex_chars.simps)
      with ih Some show ?thesis by (simp del: lex_chars.simps)
    qed
  qed
qed

section \<open>Tokens\<close>

definition is_space :: "char \<Rightarrow> bool" where
  "is_space c \<longleftrightarrow> ord c \<in> {32, 9, 10, 13}"

definition is_digit :: "char \<Rightarrow> bool" where
  "is_digit c \<longleftrightarrow> between 48 57 c"

text \<open>The parts of a number: integer part, fraction, exponent; the last two may be empty.\<close>

definition lex_digits :: "string \<Rightarrow> (string \<times> string) option" where
  "lex_digits s =
     (let ds = takeWhile is_digit s in if ds = [] then None else Some (ds, dropWhile is_digit s))"

definition lex_int :: "string \<Rightarrow> (string \<times> string) option" where
  "lex_int s = (case s of c # r \<Rightarrow> (if c = CHR ''0'' then Some ([c], r) else lex_digits s) | [] \<Rightarrow> None)"

definition lex_frac :: "string \<Rightarrow> (string \<times> string) option" where
  "lex_frac s =
     (case s of
        c # r \<Rightarrow> (if c = CHR ''.'' then prepend [c] (lex_digits r) else Some ([], s))
      | [] \<Rightarrow> Some ([], s))"

definition lex_exp :: "string \<Rightarrow> (string \<times> string) option" where
  "lex_exp s =
     (case s of
        c # r \<Rightarrow>
          (if c = CHR ''e'' \<or> c = CHR ''E'' then
             (case r of
                d # r' \<Rightarrow> (if d = CHR ''+'' \<or> d = CHR ''-'' then prepend [c, d] (lex_digits r')
                          else prepend [c] (lex_digits r))
              | [] \<Rightarrow> None)
           else Some ([], s))
      | [] \<Rightarrow> Some ([], s))"

definition digits_value :: "string \<Rightarrow> int" where
  "digits_value ds = foldl (\<lambda>n c. 10 * n + (int (ord c) - 48)) 0 ds"

text \<open>
  An integer literal is a number; the others, among them \<open>-0\<close>, stay literals.
\<close>

definition number_json :: "string \<Rightarrow> string \<Rightarrow> string \<Rightarrow> string \<Rightarrow> json" where
  "number_json sign i f x =
     (if f = [] \<and> x = [] \<and> \<not> (sign \<noteq> [] \<and> i = ''0'')
      then JInt (if sign = [] then digits_value i else - digits_value i)
      else JFloat (sign @ i @ f @ x))"

definition lex_number :: "string \<Rightarrow> (json \<times> string) option" where
  "lex_number s =
     (let (sign, s1) = (case s of c # r \<Rightarrow> (if c = CHR ''-'' then ([c], r) else ([], s)) | [] \<Rightarrow> ([], s))
      in case lex_int s1 of
           None \<Rightarrow> None
         | Some (i, s2) \<Rightarrow>
             (case lex_frac s2 of
                None \<Rightarrow> None
              | Some (f, s3) \<Rightarrow>
                  (case lex_exp s3 of None \<Rightarrow> None | Some (x, r) \<Rightarrow> Some (number_json sign i f x, r))))"

text \<open>A token is punctuation or a value that is not an array or object.\<close>

datatype token = TLBrace | TRBrace | TLBrack | TRBrack | TComma | TColon | TVal json

definition strip :: "string \<Rightarrow> string \<Rightarrow> string option" where
  "strip p s = (if take (length p) s = p then Some (drop (length p) s) else None)"

definition punctuation :: "char \<Rightarrow> token option" where
  "punctuation c =
     (if c = CHR ''{'' then Some TLBrace else if c = CHR ''}'' then Some TRBrace
      else if c = CHR ''['' then Some TLBrack else if c = CHR '']'' then Some TRBrack
      else if c = CHR '','' then Some TComma else if c = CHR '':'' then Some TColon else None)"

definition lex_value :: "char \<Rightarrow> string \<Rightarrow> (json \<times> string) option" where
  "lex_value c r =
     (if c = CHR 0x22 then map_option (\<lambda>(v, r'). (JStr v, r')) (lex_chars r)
      else if c = CHR ''n'' then map_option (Pair JNull) (strip ''ull'' r)
      else if c = CHR ''t'' then map_option (Pair (JBool True)) (strip ''rue'' r)
      else if c = CHR ''f'' then map_option (Pair (JBool False)) (strip ''alse'' r)
      else if c = CHR ''-'' \<or> is_digit c then lex_number (c # r)
      else None)"

definition lex_token :: "string \<Rightarrow> (token \<times> string) option" where
  "lex_token s =
     (case s of
        [] \<Rightarrow> None
      | c # r \<Rightarrow>
          (case punctuation c of
             Some t \<Rightarrow> Some (t, r)
           | None \<Rightarrow> map_option (\<lambda>(v, r'). (TVal v, r')) (lex_value c r)))"

definition lex :: "string \<Rightarrow> (token \<times> string) option" where
  "lex s = lex_token (dropWhile is_space s)"

lemma prepend_length: "prepend p x = Some (t, r) \<Longrightarrow> \<exists>u. x = Some (u, r)"
  by (auto simp: prepend_eq_Some)

lemma lex_digits_length: "lex_digits s = Some (t, r) \<Longrightarrow> length r < length s"
proof -
  assume "lex_digits s = Some (t, r)"
  then have "takeWhile is_digit s \<noteq> []" "r = dropWhile is_digit s"
    by (auto simp: lex_digits_def Let_def split: if_splits)
  moreover have "length s = length (takeWhile is_digit s) + length (dropWhile is_digit s)"
    by (metis length_append takeWhile_dropWhile_id)
  ultimately show ?thesis by simp
qed

lemma lex_int_length: "lex_int s = Some (t, r) \<Longrightarrow> length r < length s"
  by (auto simp: lex_int_def dest: lex_digits_length split: list.splits if_splits)

lemma lex_frac_length: "lex_frac s = Some (t, r) \<Longrightarrow> length r \<le> length s"
  by (auto simp: lex_frac_def dest!: prepend_length lex_digits_length split: list.splits if_splits)

lemma lex_exp_length: "lex_exp s = Some (t, r) \<Longrightarrow> length r \<le> length s"
  by (auto simp: lex_exp_def dest!: prepend_length lex_digits_length split: list.splits if_splits)

lemma lex_number_length:
  assumes "lex_number s = Some (v, r)" shows "length r < length s"
proof -
  define p where "p = (case s of c # r \<Rightarrow> (if c = CHR ''-'' then ([c], r) else ([], s)) | [] \<Rightarrow> ([], s))"
  have p: "length (snd p) \<le> length s" by (auto simp: p_def split: list.splits)
  obtain i s2 f s3 x where "lex_int (snd p) = Some (i, s2)" "lex_frac s2 = Some (f, s3)" "lex_exp s3 = Some (x, r)"
    using assms unfolding lex_number_def p_def [symmetric] by (auto split: prod.splits option.splits)
  with p show ?thesis using lex_int_length lex_frac_length lex_exp_length by (metis leD leI le_trans order.strict_trans1)
qed

lemma strip_length: "strip p s = Some r \<Longrightarrow> length r \<le> length s"
  by (auto simp: strip_def split: if_splits)

lemma lex_value_length:
  assumes "lex_value c s = Some (v, r)" shows "length r \<le> length s"
proof -
  consider u where "lex_chars s = Some (u, r)" | p where "strip p s = Some r" | "lex_number (c # s) = Some (v, r)"
    using assms by (auto simp: lex_value_def simp del: lex_chars.simps split: if_splits)
  then show ?thesis
    by cases (auto dest: strip_length lex_number_length lex_chars_length simp del: lex_chars.simps)
qed

lemma lex_token_length: "lex_token (c # s) = Some (t, r) \<Longrightarrow> length r \<le> length s"
  by (auto simp: lex_token_def dest: lex_value_length split: option.splits)

lemma lex_length:
  assumes "lex s = Some (t, r)" shows "length r < length s"
proof (cases "dropWhile is_space s")
  case Nil
  with assms show ?thesis by (simp add: lex_def lex_token_def)
next
  case (Cons c cs)
  have "length r \<le> length cs" using assms lex_token_length by (simp add: lex_def Cons)
  moreover have "length (dropWhile is_space s) \<le> length s" by (rule length_dropWhile_le)
  ultimately show ?thesis by (simp add: Cons)
qed

section \<open>Reading a value\<close>

text \<open>
  What is open, innermost first: an array with its elements so far, or an object with its entries so
  far and the key of the entry being read. The mode says what may come next.
\<close>

datatype frame = InArr "json list" | InObj "(string \<times> json) list" string

datatype mode = WantValue | WantValueOrEnd | WantKey | WantKeyOrEnd | WantColon | AfterValue

datatype outcome = Syntax | Finished json | Go "frame list" mode

definition maxNestingDepth :: nat where "maxNestingDepth = 10000"

definition complete :: "json \<Rightarrow> frame list \<Rightarrow> outcome" where
  "complete v fs =
     (case fs of
        [] \<Rightarrow> Finished v
      | InArr xs # fs \<Rightarrow> Go (InArr (xs @ [v]) # fs) AfterValue
      | InObj kvs k # fs \<Rightarrow> Go (InObj (kvs @ [(k, v)]) k # fs) AfterValue)"

definition push :: "frame \<Rightarrow> mode \<Rightarrow> frame list \<Rightarrow> outcome" where
  "push f m fs = (if length fs < maxNestingDepth then Go (f # fs) m else Syntax)"

definition step_value :: "token \<Rightarrow> frame list \<Rightarrow> outcome" where
  "step_value t fs =
     (case t of
        TVal v \<Rightarrow> complete v fs
      | TLBrack \<Rightarrow> push (InArr []) WantValueOrEnd fs
      | TLBrace \<Rightarrow> push (InObj [] []) WantKeyOrEnd fs
      | _ \<Rightarrow> Syntax)"

definition step_key :: "token \<Rightarrow> frame list \<Rightarrow> outcome" where
  "step_key t fs =
     (case (t, fs) of
        (TVal (JStr k), InObj kvs _ # fs) \<Rightarrow> Go (InObj kvs k # fs) WantColon
      | _ \<Rightarrow> Syntax)"

definition step_after :: "token \<Rightarrow> frame list \<Rightarrow> outcome" where
  "step_after t fs =
     (case fs of
        [] \<Rightarrow> Syntax
      | InArr xs # fs' \<Rightarrow>
          (case t of TComma \<Rightarrow> Go fs WantValue | TRBrack \<Rightarrow> complete (JArr xs) fs' | _ \<Rightarrow> Syntax)
      | InObj kvs k # fs' \<Rightarrow>
          (case t of TComma \<Rightarrow> Go fs WantKey | TRBrace \<Rightarrow> complete (JObj kvs) fs' | _ \<Rightarrow> Syntax))"

definition json_step :: "token \<Rightarrow> frame list \<Rightarrow> mode \<Rightarrow> outcome" where
  "json_step t fs m =
     (case m of
        WantValue \<Rightarrow> step_value t fs
      | WantValueOrEnd \<Rightarrow> (if t = TRBrack then step_after t fs else step_value t fs)
      | WantKey \<Rightarrow> step_key t fs
      | WantKeyOrEnd \<Rightarrow> (if t = TRBrace then step_after t fs else step_key t fs)
      | WantColon \<Rightarrow> (if t = TColon then Go fs WantValue else Syntax)
      | AfterValue \<Rightarrow> step_after t fs)"

function read_json :: "frame list \<Rightarrow> mode \<Rightarrow> string \<Rightarrow> json option" where
  "read_json fs m s =
     (case lex s of
        None \<Rightarrow> None
      | Some (t, r) \<Rightarrow>
          (case json_step t fs m of
             Syntax \<Rightarrow> None
           | Finished v \<Rightarrow> Some v
           | Go fs' m' \<Rightarrow> read_json fs' m' r))"
  by pat_completeness auto
termination by (relation "measure (\<lambda>(fs, m, s). length s)") (auto dest: lex_length)

declare read_json.simps [simp del]

text \<open>\<open>Decoder.Decode\<close> reads the first value and ignores what follows it.\<close>

definition json_parse :: "bytes \<Rightarrow> string + json" where
  "json_parse body =
     (case read_json [] WantValue (map char_of_byte body) of
        None \<Rightarrow> Inl ''invalid JSON'' | Some j \<Rightarrow> Inr j)"

section \<open>Writing a value\<close>

text \<open>
  \<open>nl d\<close> is written before an element at depth \<open>d\<close> and before a closing bracket, \<open>colon\<close> between key
  and value: nothing and a colon for \<open>Marshal\<close>, a line break with two blanks a level and a colon
  with a blank for the indent that the code sets.
\<close>

fun sep_by :: "string \<Rightarrow> string list \<Rightarrow> string" where
  "sep_by sep [] = []"
| "sep_by sep [s] = s"
| "sep_by sep (s # t # ss) = s @ sep @ sep_by sep (t # ss)"

definition int_text :: "int \<Rightarrow> string" where
  "int_text n = (if n < 0 then CHR ''-'' # decimal (nat (- n)) else decimal (nat n))"

definition bracketed :: "string \<Rightarrow> (nat \<Rightarrow> string) \<Rightarrow> nat \<Rightarrow> string \<Rightarrow> string list \<Rightarrow> string" where
  "bracketed opn nl d cls ss =
     (if ss = [] then opn @ cls
      else opn @ nl (Suc d) @ sep_by ('','' @ nl (Suc d)) ss @ nl d @ cls)"

fun json_text :: "(nat \<Rightarrow> string) \<Rightarrow> string \<Rightarrow> nat \<Rightarrow> json \<Rightarrow> string" where
  "json_text nl colon d JNull = ''null''"
| "json_text nl colon d (JBool b) = (if b then ''true'' else ''false'')"
| "json_text nl colon d (JInt n) = int_text n"
| "json_text nl colon d (JFloat s) = s"
| "json_text nl colon d (JStr s) = quote s"
| "json_text nl colon d (JArr xs) = bracketed ''['' nl d '']'' (map (json_text nl colon (Suc d)) xs)"
| "json_text nl colon d (JObj kvs) =
     bracketed ''{'' nl d ''}'' (map (\<lambda>(k, v). quote k @ colon @ json_text nl colon (Suc d) v) kvs)"

definition json_marshal :: "json \<Rightarrow> bytes" where
  "json_marshal j = str_bytes (json_text (\<lambda>_. []) '':'' 0 j)"

definition json_encode_indent :: "json \<Rightarrow> bytes" where
  "json_encode_indent j =
     str_bytes (json_text (\<lambda>d. CHR 0x0A # replicate (2 * d) CHR 0x20) '': '' 0 j @ [CHR 0x0A])"

section \<open>What is written is read back\<close>

text \<open>
  Values nested at most \<open>n\<close> deep and without other literals; and a value with its strings made valid.
\<close>

fun json_ok :: "nat \<Rightarrow> json \<Rightarrow> bool" where
  "json_ok n (JArr xs) \<longleftrightarrow> 0 < n \<and> list_all (json_ok (n - 1)) xs"
| "json_ok n (JObj kvs) \<longleftrightarrow> 0 < n \<and> list_all (\<lambda>(k, v). json_ok (n - 1) v) kvs"
| "json_ok n (JFloat s) \<longleftrightarrow> False"
| "json_ok n j \<longleftrightarrow> True"

fun json_valid :: "json \<Rightarrow> json" where
  "json_valid (JStr s) = JStr (to_valid s)"
| "json_valid (JArr xs) = JArr (map json_valid xs)"
| "json_valid (JObj kvs) = JObj (map (\<lambda>(k, v). (to_valid k, json_valid v)) kvs)"
| "json_valid j = j"

fun resume :: "outcome \<Rightarrow> string \<Rightarrow> json option" where
  "resume Syntax t = None"
| "resume (Finished v) t = Some v"
| "resume (Go fs m) t = read_json fs m t"

definition spaces :: "string \<Rightarrow> bool" where
  "spaces s \<longleftrightarrow> list_all is_space s"

text \<open>A text that does not continue a number.\<close>

definition ends :: "string \<Rightarrow> bool" where
  "ends t \<longleftrightarrow> (case t of [] \<Rightarrow> True | c # r \<Rightarrow> \<not> is_digit c \<and> c \<noteq> CHR ''.'' \<and> c \<noteq> CHR ''e'' \<and> c \<noteq> CHR ''E'')"

lemma read_token: "lex s = Some (t, r) \<Longrightarrow> read_json fs m s = resume (json_step t fs m) r"
  by (subst read_json.simps) (simp split: outcome.split)

lemma lex_spaces: "spaces ws \<Longrightarrow> lex (ws @ s) = lex s"
  by (simp add: lex_def spaces_def list_all_iff dropWhile_append2)

lemma ends_spaces:
  assumes "spaces ws" and "ends s" shows "ends (ws @ s)"
  using assms by (cases ws) (auto simp: spaces_def ends_def is_space_def is_digit_def between_def ord_def)

lemma no_space: "\<not> is_space c \<Longrightarrow> lex (c # s) = lex_token (c # s)"
  by (simp add: lex_def)

lemma lex_punctuation: "\<not> is_space c \<Longrightarrow> punctuation c = Some t \<Longrightarrow> lex (c # s) = Some (t, s)"
  by (simp add: no_space lex_token_def)

lemma punctuation_simps [simp]:
  "lex (CHR ''{'' # s) = Some (TLBrace, s)" "lex (CHR ''}'' # s) = Some (TRBrace, s)"
  "lex (CHR ''['' # s) = Some (TLBrack, s)" "lex (CHR '']'' # s) = Some (TRBrack, s)"
  "lex (CHR '','' # s) = Some (TComma, s)" "lex (CHR '':'' # s) = Some (TColon, s)"
  by (simp_all add: lex_punctuation is_space_def ord_def punctuation_def)

lemma lex_quote: "lex (quote s @ t) = Some (TVal (JStr (to_valid s)), t)"
  using lex_chars_quote [of s t]
  by (simp add: quote_def no_space is_space_def ord_def lex_token_def lex_value_def punctuation_def
      del: lex_chars.simps quote_chars.simps)

lemma lex_literals:
  "lex (''null'' @ t) = Some (TVal JNull, t)" "lex (''true'' @ t) = Some (TVal (JBool True), t)"
  "lex (''false'' @ t) = Some (TVal (JBool False), t)"
  by (simp_all add: no_space is_space_def ord_def lex_token_def lex_value_def punctuation_def strip_def)

text \<open>Numbers.\<close>

lemma decimal_digits: "list_all is_digit (decimal n) \<and> decimal n \<noteq> []"
proof (induction n rule: decimal.induct)
  case (1 n)
  have d: "is_digit (char_of (48 + k))" if "k < 10" for k :: nat
    using that by (simp add: is_digit_def between_def ord_def)
  show ?case
  proof (cases "n < 10")
    case True
    with d [of n] show ?thesis by (subst (1 2) decimal.simps) simp
  next
    case False
    with d [of "n mod 10"] 1 show ?thesis by (subst (1 2) decimal.simps) simp
  qed
qed

lemma decimal_value: "digits_value (decimal n) = int n"
proof (induction n rule: decimal.induct)
  case (1 n)
  have o: "int (ord (char_of (48 + k))) - 48 = int k" if "k < 10" for k :: nat
    using that by (simp add: ord_def)
  show ?case
  proof (cases "n < 10")
    case True
    with o [of n] show ?thesis by (subst decimal.simps) (simp add: digits_value_def)
  next
    case False
    have "10 * int (n div 10) + int (n mod 10) = int n" by presburger
    with False 1 o [of "n mod 10"] show ?thesis by (subst decimal.simps) (simp add: digits_value_def)
  qed
qed

lemma decimal_hd: "0 < n \<Longrightarrow> hd (decimal n) \<noteq> CHR ''0''"
proof (induction n rule: decimal.induct)
  case (1 n)
  show ?case
  proof (cases "n < 10")
    case True
    have "ord (char_of (48 + n)) = 48 + n" using True by (simp add: ord_def)
    with 1(2) have "char_of (48 + n) \<noteq> CHR ''0''" by (auto simp: ord_inject [symmetric] ord_def)
    with True show ?thesis by (subst decimal.simps) simp
  next
    case False
    then have "0 < n div 10" by simp
    with False 1(1) decimal_digits [of "n div 10"] show ?thesis by (subst decimal.simps) simp
  qed
qed

lemma lex_int_decimal: "ends t \<Longrightarrow> lex_int (decimal n @ t) = Some (decimal n, t)"
proof (cases "n = 0")
  case True
  have "decimal 0 = ''0''" by (simp add: decimal.simps char_of_eq_iff)
  with True show ?thesis by (simp add: lex_int_def)
next
  case False
  obtain c r where c: "decimal n = c # r" using decimal_digits by (cases "decimal n") auto
  with False decimal_hd [of n] have "c \<noteq> CHR ''0''" by simp
  moreover assume "ends t"
  then have "takeWhile is_digit (decimal n @ t) = decimal n" "dropWhile is_digit (decimal n @ t) = t"
    using decimal_digits [of n]
    by (auto simp: list_all_iff takeWhile_append2 dropWhile_append2 ends_def split: list.splits)
  ultimately show ?thesis using c by (simp add: lex_int_def lex_digits_def)
qed

lemma lex_number_int: "ends t \<Longrightarrow> lex_number (int_text n @ t) = Some (JInt n, t)"
proof -
  assume e: "ends t"
  have fx: "lex_frac t = Some ([], t)" "lex_exp t = Some ([], t)"
    using e by (auto simp: ends_def lex_frac_def lex_exp_def split: list.splits)
  show ?thesis
  proof (cases "n < 0")
    case True
    have "hd (decimal (nat (- n))) \<noteq> CHR ''0''" using True by (intro decimal_hd) simp
    then have "decimal (nat (- n)) \<noteq> ''0''" by auto
    with True fx lex_int_decimal [OF e, of "nat (- n)"] show ?thesis
      by (simp add: lex_number_def int_text_def number_json_def decimal_value)
  next
    case False
    obtain c r where c: "decimal (nat n) = c # r" using decimal_digits by (cases "decimal (nat n)") auto
    have "is_digit c" using decimal_digits [of "nat n"] c by simp
    then have "c \<noteq> CHR ''-''" by (auto simp: is_digit_def between_def ord_def)
    moreover have "digits_value (c # r) = n" using False decimal_value [of "nat n"] c by simp
    ultimately show ?thesis using False c fx lex_int_decimal [OF e, of "nat n"]
      by (simp add: lex_number_def int_text_def number_json_def)
  qed
qed

lemma lex_int_text: "ends t \<Longrightarrow> lex (int_text n @ t) = Some (TVal (JInt n), t)"
proof -
  assume e: "ends t"
  obtain c r where c: "int_text n = c # r" and d: "c = CHR ''-'' \<or> is_digit c"
  proof (cases "n < 0")
    case True
    then show thesis using that [of "CHR ''-''"] by (simp add: int_text_def)
  next
    case False
    then show thesis using that decimal_digits [of "nat n"] by (cases "decimal (nat n)") (auto simp: int_text_def)
  qed
  from d have "\<not> is_space c" "punctuation c = None" "c \<notin> {CHR 0x22, CHR ''n'', CHR ''t'', CHR ''f''}"
    by (auto simp: is_space_def is_digit_def between_def punctuation_def ord_def)
  with d lex_number_int [OF e, of n] show ?thesis
    by (simp add: c no_space lex_token_def lex_value_def)
qed

text \<open>The statement for one value, in any place where a value may stand.\<close>

definition reads_at :: "(nat \<Rightarrow> string) \<Rightarrow> string \<Rightarrow> json \<Rightarrow> bool" where
  "reads_at nl colon j \<longleftrightarrow> (\<forall>d fs m ws t. json_ok (maxNestingDepth - length fs) j \<longrightarrow>
     m \<in> {WantValue, WantValueOrEnd} \<longrightarrow> spaces ws \<longrightarrow> ends t \<longrightarrow>
     read_json fs m (ws @ json_text nl colon d j @ t) = resume (complete (json_valid j) fs) t)"

lemma reads_atI_token:
  assumes "\<And>d t. ends t \<Longrightarrow> lex (json_text nl colon d j @ t) = Some (TVal (json_valid j), t)"
  shows "reads_at nl colon j"
  unfolding reads_at_def
proof (intro allI impI)
  fix d fs m ws t assume m: "m \<in> {WantValue, WantValueOrEnd}" and "spaces ws" "ends t"
  then have "lex (ws @ json_text nl colon d j @ t) = Some (TVal (json_valid j), t)"
    using assms by (simp add: lex_spaces)
  from read_token [OF this, of fs m] m
  show "read_json fs m (ws @ json_text nl colon d j @ t) = resume (complete (json_valid j) fs) t"
    by (auto simp: json_step_def step_value_def)
qed

lemma reads_atD:
  assumes "reads_at nl colon j" and "json_ok (maxNestingDepth - length fs) j"
    and "m = WantValue \<or> m = WantValueOrEnd" and "spaces ws" and "ends t"
  shows "read_json fs m (ws @ json_text nl colon d j @ t) = resume (complete (json_valid j) fs) t"
  using assms unfolding reads_at_def by blast

lemma ends_close: "spaces ws \<Longrightarrow> c \<in> {CHR '']'', CHR ''}'', CHR '',''} \<Longrightarrow> ends (ws @ c # t)"
  by (erule ends_spaces) (auto simp: ends_def is_digit_def between_def ord_def)

lemma read_elements:
  assumes nl: "\<And>d. spaces (nl d)" and m: "m = WantValue \<or> m = WantValueOrEnd"
  shows "list_all (reads_at nl colon) xs \<Longrightarrow> list_all (json_ok (maxNestingDepth - Suc (length fs))) xs \<Longrightarrow>
    xs \<noteq> [] \<Longrightarrow>
    read_json (InArr acc # fs) m (nl e @ sep_by (CHR '','' # nl e) (map (json_text nl colon d) xs) @ nl f @ CHR '']'' # t) =
      resume (complete (JArr (acc @ map json_valid xs)) fs) t"
  using m
proof (induction xs arbitrary: acc m)
  case Nil
  then show ?case by simp
next
  case (Cons x xs)
  have x: "read_json (InArr acc # fs) m (nl e @ json_text nl colon d x @ r) =
      read_json (InArr (acc @ [json_valid x]) # fs) AfterValue r" if "ends r" for r
    using reads_atD [of nl colon x "InArr acc # fs" m "nl e" r d] Cons.prems nl that by (simp add: complete_def)
  show ?case
  proof (cases xs)
    case Nil
    have l: "lex (nl f @ CHR '']'' # t) = Some (TRBrack, t)" by (simp add: lex_spaces nl)
    have "read_json (InArr (acc @ [json_valid x]) # fs) AfterValue (nl f @ CHR '']'' # t) =
        resume (complete (JArr (acc @ [json_valid x])) fs) t"
      by (subst read_token [OF l]) (simp add: json_step_def step_after_def)
    with Nil x ends_close [OF nl] show ?thesis by simp
  next
    case (Cons y ys)
    let ?r = "nl e @ sep_by (CHR '','' # nl e) (map (json_text nl colon d) xs) @ nl f @ CHR '']'' # t"
    have l: "lex (CHR '','' # ?r) = Some (TComma, ?r)" by simp
    have "read_json (InArr (acc @ [json_valid x]) # fs) AfterValue (CHR '','' # ?r) =
        read_json (InArr (acc @ [json_valid x]) # fs) WantValue ?r"
      by (subst read_token [OF l]) (simp add: json_step_def step_after_def)
    also have "\<dots> = resume (complete (JArr ((acc @ [json_valid x]) @ map json_valid xs)) fs) t"
      using Cons.IH [of WantValue "acc @ [json_valid x]"] Cons.prems Cons by simp
    finally show ?thesis using Cons x [of "CHR '','' # ?r"] ends_close [of "[]"] by (simp add: spaces_def)
  qed
qed

lemma read_member:
  assumes "spaces ws" and "spaces sp" and "m = WantKey \<or> m = WantKeyOrEnd"
    and "reads_at nl colon v" and "json_ok (maxNestingDepth - Suc (length fs)) v" and "ends r"
  shows "read_json (InObj acc k' # fs) m (ws @ quote k @ (CHR '':'' # sp) @ json_text nl colon d v @ r) =
    read_json (InObj (acc @ [(to_valid k, json_valid v)]) (to_valid k) # fs) AfterValue r"
proof -
  let ?v = "sp @ json_text nl colon d v @ r"
  have l: "lex (ws @ quote k @ CHR '':'' # ?v) = Some (TVal (JStr (to_valid k)), CHR '':'' # ?v)"
    by (simp add: lex_spaces assms(1) lex_quote)
  have c: "lex (CHR '':'' # ?v) = Some (TColon, ?v)" by simp
  have "read_json (InObj acc k' # fs) m (ws @ quote k @ CHR '':'' # ?v) =
      read_json (InObj acc (to_valid k) # fs) WantColon (CHR '':'' # ?v)"
    using assms(3) by (subst read_token [OF l]) (auto simp: json_step_def step_key_def)
  also have "\<dots> = read_json (InObj acc (to_valid k) # fs) WantValue ?v"
    by (subst read_token [OF c]) (simp add: json_step_def)
  also have "\<dots> = resume (complete (json_valid v) (InObj acc (to_valid k) # fs)) r"
    using assms by (intro reads_atD) simp_all
  finally show ?thesis by (simp add: complete_def)
qed

lemma read_members:
  fixes fs :: "frame list"
  assumes nl: "\<And>d. spaces (nl d)" and sp: "spaces sp" and colon: "colon = CHR '':'' # sp"
  defines "mem \<equiv> \<lambda>d (k, v). quote k @ colon @ json_text nl colon d v"
  shows "list_all (\<lambda>(k, v). reads_at nl colon v) kvs \<Longrightarrow>
    list_all (\<lambda>(k, v). json_ok (maxNestingDepth - Suc (length fs)) v) kvs \<Longrightarrow> kvs \<noteq> [] \<Longrightarrow>
    m = WantKey \<or> m = WantKeyOrEnd \<Longrightarrow>
    read_json (InObj acc k' # fs) m (nl e @ sep_by (CHR '','' # nl e) (map (mem d) kvs) @ nl f @ CHR ''}'' # t) =
      resume (complete (JObj (acc @ map (\<lambda>(k, v). (to_valid k, json_valid v)) kvs)) fs) t"
proof (induction kvs arbitrary: acc m k')
  case Nil
  then show ?case by simp
next
  case (Cons kv kvs)
  obtain k v where kv: "kv = (k, v)" by fastforce
  let ?acc = "acc @ [(to_valid k, json_valid v)]"
  have x: "read_json (InObj acc k' # fs) m (nl e @ mem d kv @ r) =
      read_json (InObj ?acc (to_valid k) # fs) AfterValue r" if "ends r" for r
    using read_member [OF nl sp Cons.prems(4), where fs = fs and r = r and acc = acc and k' = k' and k = k and d = d and v = v]
      Cons.prems(1,2) that
    by (simp add: kv mem_def colon)
  show ?case
  proof (cases kvs)
    case Nil
    have l: "lex (nl f @ CHR ''}'' # t) = Some (TRBrace, t)" by (simp add: lex_spaces nl)
    have "read_json (InObj ?acc (to_valid k) # fs) AfterValue (nl f @ CHR ''}'' # t) =
        resume (complete (JObj ?acc) fs) t"
      by (subst read_token [OF l]) (simp add: json_step_def step_after_def)
    with Nil x ends_close [OF nl] show ?thesis by (simp add: kv)
  next
    case (Cons y ys)
    let ?r = "nl e @ sep_by (CHR '','' # nl e) (map (mem d) kvs) @ nl f @ CHR ''}'' # t"
    have l: "lex (CHR '','' # ?r) = Some (TComma, ?r)" by simp
    have "read_json (InObj ?acc (to_valid k) # fs) AfterValue (CHR '','' # ?r) =
        read_json (InObj ?acc (to_valid k) # fs) WantKey ?r"
      by (subst read_token [OF l]) (simp add: json_step_def step_after_def)
    also have "\<dots> = resume (complete (JObj (?acc @ map (\<lambda>(k, v). (to_valid k, json_valid v)) kvs)) fs) t"
      using Cons.IH [of WantKey ?acc "to_valid k"] Cons.prems Cons by simp
    finally show ?thesis using Cons x [of "CHR '','' # ?r"] ends_close [of "[]"] by (simp add: spaces_def kv)
  qed
qed

lemma reads_at_all:
  assumes nl: "\<And>d. spaces (nl d)" and sp: "spaces sp" and colon: "colon = CHR '':'' # sp"
  shows "reads_at nl colon j"
proof (induction j)
  case JNull
  show ?case by (rule reads_atI_token) (simp add: lex_literals [simplified])
next
  case (JBool b)
  show ?case by (rule reads_atI_token) (cases b; simp add: lex_literals [simplified])
next
  case (JInt n)
  show ?case by (rule reads_atI_token) (simp add: lex_int_text)
next
  case (JFloat s)
  show ?case by (simp add: reads_at_def)
next
  case (JStr s)
  show ?case by (rule reads_atI_token) (simp add: lex_quote)
next
  case (JArr xs)
  show ?case
    unfolding reads_at_def
  proof (intro allI impI)
    fix d and fs :: "frame list" and m and ws t :: string
    assume ok: "json_ok (maxNestingDepth - length fs) (JArr xs)" and m: "m \<in> {WantValue, WantValueOrEnd}"
      and ws: "spaces ws" and t: "ends t"
    from ok have d: "length fs < maxNestingDepth" by simp
    let ?b = "(if xs = [] then [] else nl (Suc d) @
        sep_by (CHR '','' # nl (Suc d)) (map (json_text nl colon (Suc d)) xs) @ nl d) @ CHR '']'' # t"
    have l: "lex (ws @ CHR ''['' # ?b) = Some (TLBrack, ?b)" by (simp add: lex_spaces [OF ws])
    have "read_json fs m (ws @ CHR ''['' # ?b) = read_json (InArr [] # fs) WantValueOrEnd ?b"
      using m d by (subst read_token [OF l]) (auto simp: json_step_def step_value_def push_def)
    also have "\<dots> = resume (complete (JArr (map json_valid xs)) fs) t"
    proof (cases "xs = []")
      case True
      have "lex ?b = Some (TRBrack, t)" using True by simp
      from read_token [OF this] show ?thesis using True by (simp add: json_step_def step_after_def)
    next
      case False
      have "list_all (reads_at nl colon) xs" using JArr by (simp add: list_all_iff)
      with False ok read_elements [where nl = nl and m = WantValueOrEnd and fs = fs and acc = "[]", OF nl] d
      show ?thesis by (simp add: Suc_diff_Suc)
    qed
    finally show "read_json fs m (ws @ json_text nl colon d (JArr xs) @ t) =
        resume (complete (json_valid (JArr xs)) fs) t"
      by (cases "xs = []") (simp_all add: bracketed_def)
  qed
next
  case (JObj kvs)
  let ?mem = "\<lambda>d (k, v). quote k @ colon @ json_text nl colon d v"
  show ?case
    unfolding reads_at_def
  proof (intro allI impI)
    fix d and fs :: "frame list" and m and ws t :: string
    assume ok: "json_ok (maxNestingDepth - length fs) (JObj kvs)" and m: "m \<in> {WantValue, WantValueOrEnd}"
      and ws: "spaces ws" and t: "ends t"
    from ok have d: "length fs < maxNestingDepth" by simp
    let ?b = "(if kvs = [] then [] else nl (Suc d) @
        sep_by (CHR '','' # nl (Suc d)) (map (?mem (Suc d)) kvs) @ nl d) @ CHR ''}'' # t"
    have l: "lex (ws @ CHR ''{'' # ?b) = Some (TLBrace, ?b)" by (simp add: lex_spaces [OF ws])
    have "read_json fs m (ws @ CHR ''{'' # ?b) = read_json (InObj [] [] # fs) WantKeyOrEnd ?b"
      using m d by (subst read_token [OF l]) (auto simp: json_step_def step_value_def push_def)
    also have "\<dots> = resume (complete (JObj (map (\<lambda>(k, v). (to_valid k, json_valid v)) kvs)) fs) t"
    proof (cases "kvs = []")
      case True
      have "lex ?b = Some (TRBrace, t)" using True by simp
      from read_token [OF this] show ?thesis using True by (simp add: json_step_def step_after_def)
    next
      case False
      have "list_all (\<lambda>(k, v). reads_at nl colon v) kvs" using JObj by (fastforce simp: list_all_iff)
      with False ok read_members [where nl = nl and m = WantKeyOrEnd and fs = fs and acc = "[]" and sp = sp,
          OF nl sp colon] d
      show ?thesis by (simp add: Suc_diff_Suc)
    qed
    finally show "read_json fs m (ws @ json_text nl colon d (JObj kvs) @ t) =
        resume (complete (json_valid (JObj kvs)) fs) t"
      by (cases "kvs = []") (simp_all add: bracketed_def)
  qed
qed

text \<open>Both text forms are read back, with invalid UTF-8 in strings replaced.\<close>

lemma json_parse_text:
  assumes "json_ok maxNestingDepth j" and "\<And>d. spaces (nl d)" and "spaces sp" and "ends t"
  shows "json_parse (str_bytes (json_text nl (CHR '':'' # sp) 0 j @ t)) = Inr (json_valid j)"
  using reads_atD [OF reads_at_all [OF assms(2,3) refl], where fs = "[]" and m = WantValue and ws = "[]" and d = 0]
    assms(1,4)
  by (simp add: json_parse_def complete_def spaces_def)

lemma json_parse_marshal:
  "json_ok maxNestingDepth j \<Longrightarrow> json_parse (json_marshal j) = Inr (json_valid j)"
  using json_parse_text [of j "\<lambda>_. []" "[]" "[]"] by (simp add: json_marshal_def spaces_def ends_def)

lemma json_parse_indent:
  "json_ok maxNestingDepth j \<Longrightarrow> json_parse (json_encode_indent j) = Inr (json_valid j)"
  using json_parse_text [of j "\<lambda>d. CHR 0x0A # replicate (2 * d) CHR 0x20" "[CHR 0x20]" "[CHR 0x0A]"]
  by (simp add: json_encode_indent_def spaces_def ends_def is_space_def is_digit_def between_def ord_def list_all_iff)

section \<open>Decoding into a variable\<close>

text \<open>\<open>Decode\<close> into a variable that holds \<open>zero\<close>.\<close>

definition json_decode :: "'a dec \<Rightarrow> 'a \<Rightarrow> bytes \<Rightarrow> string + 'a" where
  "json_decode d zero body =
     (case json_parse body of
        Inl err \<Rightarrow> Inl err
      | Inr j \<Rightarrow> (case d j zero of None \<Rightarrow> Inl ''json: cannot unmarshal'' | Some x \<Rightarrow> Inr x))"

text \<open>The values that are read back as they were written: valid strings, not too deep.\<close>

definition reads_back :: "nat \<Rightarrow> json \<Rightarrow> bool" where
  "reads_back n j \<longleftrightarrow> json_ok n j \<and> json_valid j = j"

lemma json_decode_marshal:
  "reads_back maxNestingDepth j \<Longrightarrow> d j zero = Some x \<Longrightarrow> json_decode d zero (json_marshal j) = Inr x"
  by (simp add: json_decode_def reads_back_def json_parse_marshal)

lemma json_decode_indent:
  "reads_back maxNestingDepth j \<Longrightarrow> d j zero = Some x \<Longrightarrow> json_decode d zero (json_encode_indent j) = Inr x"
  by (simp add: json_decode_def reads_back_def json_parse_indent)

lemma json_marshal_inj:
  assumes "reads_back maxNestingDepth i" and "reads_back maxNestingDepth j"
  shows "json_marshal i = json_marshal j \<longleftrightarrow> i = j"
  using assms json_parse_marshal unfolding reads_back_def by (metis sum.inject(2))

lemma reads_back_JInt [simp]: "reads_back n (JInt i)" and reads_back_JNull [simp]: "reads_back n JNull"
  by (simp_all add: reads_back_def)

lemma reads_back_string: "valid_utf8 s \<Longrightarrow> reads_back n (enc_string s)"
  by (simp add: reads_back_def enc_string_def valid_utf8_def)

lemma reads_back_bytes: "reads_back n (enc_bytes bs)"
proof -
  have d: "ord (b64_char k) < 128" if "k < 64" for k
  proof -
    have "list_all (\<lambda>k. ord (b64_alphabet ! k) < 128) [0..<64]"
      by (simp add: upt_rec b64_alphabet_def ord_def)
    with that show ?thesis by (simp add: list_all_iff b64_char_def)
  qed
  have "list_all (\<lambda>c. ord c < 128) (b64_encode bs)"
    by (induction bs rule: b64_encode.induct)
      (simp_all add: digits_def d digit_less group_less, simp_all add: ord_def)
  then show ?thesis by (simp add: reads_back_def enc_bytes_def to_valid_ascii)
qed

lemma reads_back_slice:
  "0 < n \<Longrightarrow> (\<And>x. x \<in> set xs \<Longrightarrow> reads_back (n - 1) (f x)) \<Longrightarrow> reads_back n (enc_slice f xs)"
  by (auto simp: reads_back_def enc_slice_def list_all_iff map_idI)

lemma reads_back_obj:
  "reads_back n (JObj kvs) \<longleftrightarrow> 0 < n \<and> (\<forall>(k, v) \<in> set kvs. valid_utf8 k \<and> reads_back (n - 1) v)"
proof -
  have "map (\<lambda>(k, v). (to_valid k, json_valid v)) kvs = kvs \<longleftrightarrow> (\<forall>(k, v) \<in> set kvs. to_valid k = k \<and> json_valid v = v)"
    by (induction kvs) auto
  then show ?thesis by (auto simp: reads_back_def list_all_iff valid_utf8_def)
qed

lemma reads_back_map:
  assumes "0 < n" and "\<And>k. k \<in> set ks \<Longrightarrow> valid_utf8 k \<and> reads_back (n - 1) (f (the (m k)))"
  shows "reads_back n (enc_map f ks m)"
  using assms by (auto simp: enc_map_def reads_back_obj)

section \<open>Hex strings and unsigned numbers\<close>

lemma hex_ascii: "list_all (\<lambda>c. ord c < 128) (hex_encode bs)"
proof -
  have d: "ord (hex_digit d) < 128" if "unat d < 16" for d
  proof -
    have "list_all (\<lambda>n. ord (hex_digits ! n) < 128) [0..<16]"
      by (simp add: upt_rec hex_digits_def ord_def)
    with that show ?thesis by (simp add: list_all_iff hex_digit_def)
  qed
  show ?thesis by (induction bs) (simp_all add: hex_encode_def d nibble_less)
qed

lemma valid_hex: "valid_utf8 (hex_encode bs)"
  by (rule valid_utf8_ascii [OF hex_ascii])

definition dec_u64 :: "u64 dec" where
  "dec_u64 j old = map_option word_of_int (dec_int 0 (2 ^ 64 - 1) j (uint old))"

lemma dec_u64_enc: "dec_u64 (JInt (uint w)) old = Some w"
proof -
  have "uint w < 2 ^ 64" using unsigned_less [of w] by simp
  then show ?thesis by (simp add: dec_u64_def dec_int_def)
qed

end
