(* ===== verification/Beacon.thy ===== *)
theory Beacon
  imports GoTime JsonText
begin

text \<open>
  The drand client (\<open>src/beacon/beacon.go\<close>, \<open>src/beacon/drand.go\<close>): configuration checks,
  decoding of a drand response into a round with its computed timestamp, and the fan-out of
  rounds to subscriber channels of capacity one. HTTP transport is a
  parameter. The channels handed to subscribers live in a heap indexed by numbers, since
  both the client and its subscribers hold them.
\<close>

section \<open>Data\<close>

record round =
  Number :: u64
  Randomness :: bytes
  Signature :: bytes
  Timestamp :: go_time

record beacon_config =
  URL :: string
  ChainHash :: bytes
  PublicKey :: bytes
  Period :: int
  GenesisTime :: int

record drandResponse =
  Resp_Round :: u64
  Resp_Randomness :: string
  Resp_Signature :: string

datatype beacon_error =
    ErrBeaconConfig string
  | ErrFetch string
  | ErrDecodeResponse string
  | ErrDecodeRandomness hex_error
  | ErrDecodeSignature hex_error
  | ErrBeaconRunning

record drandBeacon =
  b_cfg :: beacon_config
  b_subscribers :: "nat list"
  b_running :: bool
  droppedRounds :: u64
  b_chans :: "nat \<Rightarrow> round chan"
  b_fresh :: nat

section \<open>Construction\<close>

definition newDrandBeacon :: "beacon_config \<Rightarrow> drandBeacon" where
  "newDrandBeacon cfg = \<lparr>b_cfg = cfg, b_subscribers = [], b_running = False, droppedRounds = 0,
     b_chans = (\<lambda>_. make_chan 1), b_fresh = 0\<rparr>"

definition NewBeacon :: "beacon_config \<Rightarrow> beacon_error + drandBeacon" where
  "NewBeacon cfg =
     (if URL cfg = [] then Inl (ErrBeaconConfig ''URL cannot be empty'')
      else if length (ChainHash cfg) = 0 then Inl (ErrBeaconConfig ''ChainHash cannot be empty'')
      else if length (PublicKey cfg) = 0 then Inl (ErrBeaconConfig ''PublicKey cannot be empty'')
      else if Period cfg \<le> 0 then Inl (ErrBeaconConfig ''Period must be positive'')
      else if GenesisTime cfg \<le> 0 then Inl (ErrBeaconConfig ''GenesisTime must be positive'')
      else Inr (newDrandBeacon cfg))"

section \<open>Fetching rounds\<close>

text \<open>\<open>time.Unix(genesis, 0).Add(time.Duration(round-1) * period)\<close>, all in 64 bits.\<close>

definition roundTimestamp :: "beacon_config \<Rightarrow> u64 \<Rightarrow> go_time" where
  "roundTimestamp cfg n =
     time_Add (time_Unix (GenesisTime cfg)) (dur_mult (sint (n - 1)) (Period cfg))"

definition dec_drandResponse :: "drandResponse dec" where
  "dec_drandResponse = dec_struct
     [(''round'', on_field Resp_Round (\<lambda>x r. r\<lparr>Resp_Round := x\<rparr>) dec_u64),
      (''randomness'', on_field Resp_Randomness (\<lambda>x r. r\<lparr>Resp_Randomness := x\<rparr>) dec_string),
      (''signature'', on_field Resp_Signature (\<lambda>x r. r\<lparr>Resp_Signature := x\<rparr>) dec_string)]"

definition zero_response :: drandResponse where
  "zero_response = \<lparr>Resp_Round = 0, Resp_Randomness = [], Resp_Signature = []\<rparr>"

definition parseResponse :: "beacon_config \<Rightarrow> bytes \<Rightarrow> beacon_error + round" where
  "parseResponse cfg body =
     (case json_decode dec_drandResponse zero_response body of
        Inl msg \<Rightarrow> Inl (ErrDecodeResponse msg)
      | Inr resp \<Rightarrow>
          (case hex_decode (Resp_Randomness resp) of
             Inl err \<Rightarrow> Inl (ErrDecodeRandomness err)
           | Inr randomness \<Rightarrow>
               (case hex_decode (Resp_Signature resp) of
                  Inl err \<Rightarrow> Inl (ErrDecodeSignature err)
                | Inr signature \<Rightarrow>
                    Inr \<lparr>Number = Resp_Round resp, Randomness = randomness,
                         Signature = signature,
                         Timestamp = roundTimestamp cfg (Resp_Round resp)\<rparr>)))"

definition GetLatestRound :: "(string \<Rightarrow> string + bytes) \<Rightarrow> drandBeacon \<Rightarrow> beacon_error + round" where
  "GetLatestRound http b =
     (case http (URL (b_cfg b) @ ''/public/latest'') of
        Inl msg \<Rightarrow> Inl (ErrFetch msg)
      | Inr body \<Rightarrow> parseResponse (b_cfg b) body)"

definition GetRound :: "(string \<Rightarrow> string + bytes) \<Rightarrow> u64 \<Rightarrow> drandBeacon \<Rightarrow> beacon_error + round" where
  "GetRound http n b =
     (case http (URL (b_cfg b) @ ''/public/'' @ decimal (unat n)) of
        Inl msg \<Rightarrow> Inl (ErrFetch msg)
      | Inr body \<Rightarrow> parseResponse (b_cfg b) body)"

section \<open>Subscribers and the fetch loop\<close>

definition beacon_Start :: "drandBeacon \<Rightarrow> beacon_error option \<times> drandBeacon" where
  "beacon_Start b =
     (if b_running b then (Some ErrBeaconRunning, b) else (None, b\<lparr>b_running := True\<rparr>))"

definition beacon_Subscribe :: "drandBeacon \<Rightarrow> nat \<times> drandBeacon" where
  "beacon_Subscribe b =
     (b_fresh b, b\<lparr>b_chans := (b_chans b)(b_fresh b := make_chan 1),
                  b_subscribers := b_subscribers b @ [b_fresh b], b_fresh := Suc (b_fresh b)\<rparr>)"

fun close_all :: "nat list \<Rightarrow> (nat \<Rightarrow> 'a chan) \<Rightarrow> (nat \<Rightarrow> 'a chan) exec" where
  "close_all [] h = Done h"
| "close_all (c # cs) h = exec_bind (close_chan (h c)) (\<lambda>ch. close_all cs (h(c := ch)))"

definition beacon_Stop :: "drandBeacon \<Rightarrow> drandBeacon exec" where
  "beacon_Stop b =
     (if \<not> b_running b then Done b
      else exec_bind (close_all (b_subscribers b) (b_chans b))
             (\<lambda>h. Done (b\<lparr>b_running := False, b_chans := h, b_subscribers := []\<rparr>)))"

text \<open>
  The ticker that the goroutine \<open>run\<close> creates first. \<open>Start\<close> does not check the interval: the goroutine
  panics if it is not positive.
\<close>

definition beacon_run_ticker :: "int \<Rightarrow> int exec" where
  "beacon_run_ticker interval = NewTicker interval"

text \<open>One pass over the subscribers: a non-blocking send each, a full channel drops and counts.\<close>

fun deliver :: "round \<Rightarrow> nat list \<Rightarrow> drandBeacon \<Rightarrow> drandBeacon exec" where
  "deliver r [] b = Done b"
| "deliver r (c # cs) b =
     exec_bind (try_send r (b_chans b c))
       (\<lambda>(sent, ch). deliver r cs
          (if sent then b\<lparr>b_chans := (b_chans b)(c := ch)\<rparr>
           else b\<lparr>droppedRounds := droppedRounds b + 1\<rparr>))"

text \<open>The ticker case of \<open>run\<close>, given what \<open>GetLatestRound\<close> returned.\<close>

definition beacon_tick :: "beacon_error + round \<Rightarrow> drandBeacon \<Rightarrow> drandBeacon exec" where
  "beacon_tick fetched b =
     (case fetched of Inl err \<Rightarrow> Done b | Inr r \<Rightarrow> deliver r (b_subscribers b) b)"

text \<open>A subscriber's non-blocking receive on the channel it was given.\<close>

definition beacon_recv :: "nat \<Rightarrow> drandBeacon \<Rightarrow> round option option \<times> drandBeacon" where
  "beacon_recv c b =
     (let (r, ch) = try_recv (b_chans b c) in (r, b\<lparr>b_chans := (b_chans b)(c := ch)\<rparr>))"

section \<open>The client as a transition system\<close>

text \<open>Each method and each pass of the fetch loop is atomic (the mutex).\<close>

inductive beacon_step :: "drandBeacon \<Rightarrow> drandBeacon \<Rightarrow> bool" where
  step_start: "beacon_Start b = (r, b') \<Longrightarrow> beacon_step b b'"
| step_stop: "beacon_Stop b = Done b' \<Longrightarrow> beacon_step b b'"
| step_subscribe: "beacon_Subscribe b = (c, b') \<Longrightarrow> beacon_step b b'"
| step_tick: "beacon_tick f b = Done b' \<Longrightarrow> beacon_step b b'"
| step_recv: "beacon_recv c b = (r, b') \<Longrightarrow> beacon_step b b'"

inductive_cases beacon_step_cases: "beacon_step b b'"

definition beacon_init :: "drandBeacon \<Rightarrow> bool" where
  "beacon_init b \<longleftrightarrow> (\<exists>cfg. NewBeacon cfg = Inr b)"

text \<open>
  The channels in the subscriber list are open, distinct and hold at most one round; the
  others are either closed by \<open>Stop\<close> or not handed out yet.
\<close>

definition beacon_inv :: "drandBeacon \<Rightarrow> bool" where
  "beacon_inv b \<longleftrightarrow> distinct (b_subscribers b) \<and>
     (\<forall>c \<in> set (b_subscribers b). c < b_fresh b \<and> \<not> chan_closed (b_chans b c)) \<and>
     (\<forall>c. chan_ok (b_chans b c) \<and> chan_cap (b_chans b c) = 1)"

lemma close_all_Done:
  "distinct cs \<Longrightarrow> \<forall>c \<in> set cs. \<not> chan_closed (h c) \<Longrightarrow>
     close_all cs h = Done (\<lambda>c. if c \<in> set cs then (h c)\<lparr>chan_closed := True\<rparr> else h c)"
proof (induction cs arbitrary: h)
  case Nil
  then show ?case by simp
next
  case (Cons c cs)
  then show ?case
    by (auto simp: close_chan_def fun_eq_iff)
qed

lemma deliver_frame:
  "deliver r cs b = Done b' \<Longrightarrow> b_subscribers b' = b_subscribers b \<and> b_running b' = b_running b \<and>
     b_fresh b' = b_fresh b \<and> b_cfg b' = b_cfg b \<and>
     (\<forall>c. chan_closed (b_chans b' c) = chan_closed (b_chans b c) \<and>
          chan_cap (b_chans b' c) = chan_cap (b_chans b c) \<and>
          (chan_ok (b_chans b c) \<longrightarrow> chan_ok (b_chans b' c)))"
proof (induction cs arbitrary: b)
  case Nil
  then show ?case by simp
next
  case (Cons c cs)
  obtain s ch where t: "try_send r (b_chans b c) = Done (s, ch)"
    and d: "deliver r cs (if s then b\<lparr>b_chans := (b_chans b)(c := ch)\<rparr>
              else b\<lparr>droppedRounds := droppedRounds b + 1\<rparr>) = Done b'"
    using Cons.prems by (auto simp: exec_bind_eq_Done)
  show ?case
    using Cons.IH [OF d] try_send_Done [OF t] try_send_ok [OF t] by (cases s) (auto split: if_splits)
qed

lemma deliver_Done:
  "\<forall>c \<in> set cs. \<not> chan_closed (b_chans b c) \<Longrightarrow> \<exists>b'. deliver r cs b = Done b'"
proof (induction cs arbitrary: b)
  case Nil
  then show ?case by simp
next
  case (Cons c cs)
  from Cons.prems have "\<not> chan_closed (b_chans b c)" by simp
  then obtain s ch where t: "try_send r (b_chans b c) = Done (s, ch)"
    using try_send_open [of "b_chans b c" r] by blast
  let ?b = "if s then b\<lparr>b_chans := (b_chans b)(c := ch)\<rparr> else b\<lparr>droppedRounds := droppedRounds b + 1\<rparr>"
  have "\<forall>x \<in> set cs. \<not> chan_closed (b_chans ?b x)"
    using Cons.prems try_send_Done [OF t] by auto
  from Cons.IH [OF this] t show ?case by simp
qed

lemma start_inv: "beacon_inv b \<Longrightarrow> beacon_Start b = (r, b') \<Longrightarrow> beacon_inv b'"
  by (auto simp: beacon_Start_def beacon_inv_def split: if_splits)

lemma beacon_Stop_Done:
  "beacon_inv b \<Longrightarrow> beacon_Stop b = Done
     (if b_running b
      then b\<lparr>b_running := False, b_subscribers := [],
             b_chans := (\<lambda>c. if c \<in> set (b_subscribers b)
                             then (b_chans b c)\<lparr>chan_closed := True\<rparr> else b_chans b c)\<rparr>
      else b)"
  using close_all_Done [of "b_subscribers b" "b_chans b"]
  by (simp add: beacon_Stop_def beacon_inv_def)

lemma chan_ok_closed: "chan_ok (c\<lparr>chan_closed := x\<rparr>) = chan_ok c"
  by (simp add: chan_ok_def)

lemma stop_inv: "beacon_inv b \<Longrightarrow> beacon_Stop b = Done b' \<Longrightarrow> beacon_inv b'"
  by (auto simp: beacon_Stop_Done) (auto simp: beacon_inv_def chan_ok_closed)

lemma subscribe_inv: "beacon_inv b \<Longrightarrow> beacon_Subscribe b = (c, b') \<Longrightarrow> beacon_inv b'"
  by (auto simp: beacon_Subscribe_def beacon_inv_def make_chan_ok less_Suc_eq split: if_splits)

lemma tick_inv: "beacon_inv b \<Longrightarrow> beacon_tick f b = Done b' \<Longrightarrow> beacon_inv b'"
  by (auto simp: beacon_tick_def beacon_inv_def dest!: deliver_frame split: sum.splits)

lemma recv_inv:
  assumes "beacon_inv b" and "beacon_recv c b = (r, b')" shows "beacon_inv b'"
proof -
  obtain ch where t: "try_recv (b_chans b c) = (r, ch)"
    and b': "b' = b\<lparr>b_chans := (b_chans b)(c := ch)\<rparr>"
    using assms(2) by (auto simp: beacon_recv_def Let_def split: prod.splits)
  from assms(1) try_recv_ok [OF t] try_recv_frame [OF t] show ?thesis
    unfolding b' by (auto simp: beacon_inv_def)
qed

lemmas beacon_op_inv = start_inv stop_inv subscribe_inv tick_inv recv_inv

interpretation beacon_ts: transition_system beacon_init beacon_step beacon_inv
proof
  fix b assume "beacon_init b"
  then show "beacon_inv b"
    by (auto simp: beacon_init_def NewBeacon_def newDrandBeacon_def beacon_inv_def make_chan_ok
        split: if_splits)
next
  fix b b' assume "beacon_inv b" and "beacon_step b b'"
  then show "beacon_inv b'" by (auto elim!: beacon_step_cases intro: beacon_op_inv)
qed

end
