(* ===== verification/BeaconProps.thy ===== *)
theory BeaconProps
  imports Beacon
begin

text \<open>
  Properties of the drand client: what configurations it accepts, what it makes of a
  response, the exact timestamp of a round, and the behaviour of the subscriber channels.
\<close>

text \<open>A response that carries the hex form of any randomness and signature is turned into a
  round with exactly these bytes and the response's round number. The signature is only decoded:
  every byte string is accepted for every round, whatever the configured public key is.\<close>

lemma parseResponse_any_signature:
  "parseResponse cfg (json_marshal (JObj [(''round'', JInt (uint n)), (''randomness'', enc_string (hex_encode rnd)),
      (''signature'', enc_string (hex_encode sig))])) = Inr \<lparr>Number = n, Randomness = rnd, Signature = sig,
    Timestamp = roundTimestamp cfg n\<rparr>"
proof -
  let ?j = "JObj [(''round'', JInt (uint n)), (''randomness'', enc_string (hex_encode rnd)),
      (''signature'', enc_string (hex_encode sig))]"
  have "reads_back maxNestingDepth ?j"
    by (simp add: reads_back_obj maxNestingDepth_def reads_back_string valid_hex) (simp add: valid_utf8_ascii ord_def)
  moreover have "dec_drandResponse ?j zero_response =
      Some \<lparr>Resp_Round = n, Resp_Randomness = hex_encode rnd, Resp_Signature = hex_encode sig\<rparr>"
    by (simp add: dec_drandResponse_def zero_response_def dec_struct_def field_match_def on_field_def
        dec_u64_enc dec_string_enc ascii_lower_def between_def ord_def)
  ultimately show ?thesis by (simp add: parseResponse_def hex_decode_encode json_decode_marshal)
qed

definition sample_cfg :: beacon_config where
  "sample_cfg = \<lparr>URL = ''u'', ChainHash = [1], PublicKey = [2], Period = 30 * Second,
     GenesisTime = 1595431050\<rparr>"

lemma sint_pred:
  assumes "0 < unat (n :: u64)" and "unat n \<le> 2 ^ 63"
  shows "sint (n - 1) = int (unat n) - 1"
proof -
  have "n \<noteq> 0" using assms(1) by auto
  then have u: "unat (n - 1) = unat n - 1" by (rule unat_minus_one)
  then have i: "uint (n - 1) = int (unat n) - 1" using assms(1) by (simp only: uint_nat)
  from assms(2) have "int (unat n) \<le> int (2 ^ 63)" by (simp only: of_nat_le_iff)
  then have "int (unat n) \<le> 2 ^ 63" by (simp only: of_nat_power of_nat_numeral)
  with i have "uint (n - 1) < 2 ^ 63" by linarith
  then have "sint (n - 1) = uint (n - 1)"
    unfolding sint_uint by (intro signed_take_bit_int_eq_self) (simp_all add: order.trans [of _ 0])
  with i show ?thesis by simp
qed

lemma roundTimestamp_exact:
  assumes "0 \<le> GenesisTime cfg" and "GenesisTime cfg < 2 ^ 61" and "0 < unat n"
    and "unat n \<le> 2 ^ 63" and "int64 ((int (unat n) - 1) * Period cfg)"
  shows "time_ns (roundTimestamp cfg n) =
      (GenesisTime cfg + unixToInternal) * Second + (int (unat n) - 1) * Period cfg \<and>
    0 \<le> t_nsec (roundTimestamp cfg n) \<and> t_nsec (roundTimestamp cfg n) < Second"
  using time_Unix_exact [OF assms(1,2)]
    time_Add_exact [of "time_Unix (GenesisTime cfg)" "(int (unat n) - 1) * Period cfg"] assms(5)
  by (simp add: roundTimestamp_def dur_mult_def sint_pred [OF assms(3,4)])

text \<open>C27: within 64 bits the computed timestamp of round \<open>n\<close> is exactly
  \<open>genesis + (n - 1) * period\<close> in nanoseconds.\<close>

theorem roundTimestamp_formula:
  assumes "0 \<le> GenesisTime cfg" and "GenesisTime cfg < 2 ^ 61" and "0 < unat n"
    and "unat n \<le> 2 ^ 63" and "int64 ((int (unat n) - 1) * Period cfg)"
  shows "time_ns (roundTimestamp cfg n) =
    (GenesisTime cfg + unixToInternal) * Second + (int (unat n) - 1) * Period cfg"
  using roundTimestamp_exact [OF assms] by simp

theorem roundTimestamp_formula_witness:
  "time_ns (roundTimestamp sample_cfg 3) = (1595431110 + unixToInternal) * Second"
  using roundTimestamp_formula [of sample_cfg 3]
  by (simp add: sample_cfg_def int64_def Second_def)

section \<open>Delivery\<close>

lemma deliver_effect:
  "distinct cs \<Longrightarrow> \<forall>c \<in> set cs. \<not> chan_closed (b_chans b c) \<and> chan_cap (b_chans b c) = 1 \<Longrightarrow>
     deliver r cs b = Done (b\<lparr>
       b_chans := (\<lambda>c. if c \<in> set cs \<and> buf (b_chans b c) = [] then (b_chans b c)\<lparr>buf := [r]\<rparr>
                       else b_chans b c),
       droppedRounds := droppedRounds b +
         word_of_nat (length (filter (\<lambda>c. buf (b_chans b c) \<noteq> []) cs))\<rparr>)"
proof (induction cs arbitrary: b)
  case Nil
  then show ?case by simp
next
  case step: (Cons c cs)
  have open_c: "\<not> chan_closed (b_chans b c)" "chan_cap (b_chans b c) = 1" and c: "c \<notin> set cs"
    using step.prems by simp_all
  show ?case
  proof (cases "buf (b_chans b c)")
    case Nil
    let ?b = "b\<lparr>b_chans := (b_chans b)(c := (b_chans b c)\<lparr>buf := [r]\<rparr>)\<rparr>"
    have f: "filter (\<lambda>x. buf (b_chans ?b x) \<noteq> []) cs = filter (\<lambda>x. buf (b_chans b x) \<noteq> []) cs"
      using c by (intro filter_cong) auto
    have "deliver r (c # cs) b = deliver r cs ?b"
      using open_c Nil by (simp add: try_send_def)
    also have "\<dots> = Done (?b\<lparr>
         b_chans := (\<lambda>x. if x \<in> set cs \<and> buf (b_chans ?b x) = [] then (b_chans ?b x)\<lparr>buf := [r]\<rparr>
                         else b_chans ?b x),
         droppedRounds := droppedRounds ?b +
           word_of_nat (length (filter (\<lambda>x. buf (b_chans ?b x) \<noteq> []) cs))\<rparr>)"
      using step.prems by (intro step.IH) simp_all
    also have "(\<lambda>x. if x \<in> set cs \<and> buf (b_chans ?b x) = [] then (b_chans ?b x)\<lparr>buf := [r]\<rparr>
        else b_chans ?b x) = (\<lambda>x. if x \<in> set (c # cs) \<and> buf (b_chans b x) = []
        then (b_chans b x)\<lparr>buf := [r]\<rparr> else b_chans b x)"
      using c Nil by (intro ext) (case_tac "x = c"; simp)
    finally show ?thesis unfolding f using Nil by simp
  next
    case (Cons y ys)
    let ?b = "b\<lparr>droppedRounds := droppedRounds b + 1\<rparr>"
    have "deliver r (c # cs) b = deliver r cs ?b"
      using open_c Cons by (simp add: try_send_def)
    also have "\<dots> = Done (?b\<lparr>
         b_chans := (\<lambda>x. if x \<in> set cs \<and> buf (b_chans ?b x) = [] then (b_chans ?b x)\<lparr>buf := [r]\<rparr>
                         else b_chans ?b x),
         droppedRounds := droppedRounds ?b +
           word_of_nat (length (filter (\<lambda>x. buf (b_chans ?b x) \<noteq> []) cs))\<rparr>)"
      using step.prems by (intro step.IH) simp_all
    also have "(\<lambda>x. if x \<in> set cs \<and> buf (b_chans ?b x) = [] then (b_chans ?b x)\<lparr>buf := [r]\<rparr>
        else b_chans ?b x) = (\<lambda>x. if x \<in> set (c # cs) \<and> buf (b_chans b x) = []
        then (b_chans b x)\<lparr>buf := [r]\<rparr> else b_chans b x)"
      using Cons by (intro ext) (case_tac "x = c"; simp)
    finally show ?thesis using Cons by (simp add: algebra_simps)
  qed
qed

lemma beacon_tick_inv_Done:
  "beacon_inv b \<Longrightarrow> beacon_tick (Inr r) b = Done (b\<lparr>
     b_chans := (\<lambda>c. if c \<in> set (b_subscribers b) \<and> buf (b_chans b c) = []
                     then (b_chans b c)\<lparr>buf := [r]\<rparr> else b_chans b c),
     droppedRounds := droppedRounds b +
       word_of_nat (length (filter (\<lambda>c. buf (b_chans b c) \<noteq> []) (b_subscribers b)))\<rparr>)"
  unfolding beacon_tick_def sum.case by (rule deliver_effect) (simp_all add: beacon_inv_def)

text \<open>C23: in every reachable state of the client, whatever methods, fetches and receives came
  before (also after \<open>Stop\<close> and a new \<open>Start\<close>), delivering a round and \<open>Stop\<close> do not panic: no
  send on a closed channel and no channel closed twice; and no subscriber channel ever holds more
  than one round.\<close>

theorem beacon_never_panics:
  assumes "beacon_init b0" and "beacon_step\<^sup>*\<^sup>* b0 b"
  shows "beacon_Stop b \<noteq> Panic \<and> beacon_tick f b \<noteq> Panic \<and> length (buf (b_chans b c)) \<le> 1"
proof -
  have inv: "beacon_inv b" by (rule beacon_ts.reachable_inv [OF assms(2,1)])
  then have "beacon_tick f b \<noteq> Panic"
    by (cases f) (simp_all add: beacon_tick_inv_Done, simp add: beacon_tick_def)
  moreover have "chan_ok (b_chans b c)" "chan_cap (b_chans b c) = 1"
    using inv by (simp_all add: beacon_inv_def)
  ultimately show ?thesis using beacon_Stop_Done [OF inv] by (simp add: chan_ok_def)
qed

lemma sample_init: "beacon_init (newDrandBeacon sample_cfg)"
  unfolding beacon_init_def
  by (rule exI [of _ sample_cfg]) (simp add: NewBeacon_def sample_cfg_def Second_def)

theorem beacon_never_panics_witness:
  "\<exists>b. beacon_step\<^sup>*\<^sup>* (newDrandBeacon sample_cfg) b \<and> b_running b \<and> b_subscribers b = [0] \<and>
     beacon_Stop b \<noteq> Panic"
proof -
  let ?b0 = "newDrandBeacon sample_cfg"
  let ?b1 = "snd (beacon_Subscribe ?b0)"
  let ?b2 = "snd (beacon_Start ?b1)"
  have s1: "beacon_step ?b0 ?b1" by (rule step_subscribe [OF surjective_pairing])
  have s2: "beacon_step ?b1 ?b2" by (rule step_start [OF surjective_pairing])
  have r: "beacon_step\<^sup>*\<^sup>* ?b0 ?b2"
    by (rule rtranclp.rtrancl_into_rtrancl [where b = ?b1], rule r_into_rtranclp) (rule s1, rule s2)
  have "b_running ?b2" "b_subscribers ?b2 = [0]"
    by (simp_all add: beacon_Subscribe_def beacon_Start_def newDrandBeacon_def)
  with r beacon_never_panics [OF sample_init r] show ?thesis by blast
qed

lemma sample_subscribed_inv: "beacon_inv (snd (beacon_Subscribe (newDrandBeacon sample_cfg)))"
  by (rule subscribe_inv [OF beacon_ts.inv_init [OF sample_init] surjective_pairing])

text \<open>Several fetches in a row.\<close>

fun beacon_ticks :: "round list \<Rightarrow> drandBeacon \<Rightarrow> drandBeacon exec" where
  "beacon_ticks [] b = Done b"
| "beacon_ticks (r # rs) b = exec_bind (beacon_tick (Inr r) b) (beacon_ticks rs)"

lemma beacon_ticks_full:
  "beacon_inv b \<Longrightarrow> buf (b_chans b c) = [r] \<Longrightarrow>
     \<exists>b'. beacon_ticks rs b = Done b' \<and> buf (b_chans b' c) = [r]"
proof (induction rs arbitrary: b)
  case Nil
  then show ?case by simp
next
  case (Cons x rs)
  obtain b1 where t: "beacon_tick (Inr x) b = Done b1" and "buf (b_chans b1 c) = [r]"
    using Cons.prems by (simp add: beacon_tick_inv_Done)
  with Cons.IH [OF tick_inv [OF Cons.prems(1) t]] show ?case by simp
qed

text \<open>A subscriber that has not read since its channel was empty receives the oldest of the
  rounds fetched since, not the most recent one: later rounds are dropped.\<close>

lemma beacon_keeps_oldest:
  assumes "beacon_inv b" and "c \<in> set (b_subscribers b)" and "buf (b_chans b c) = []"
  shows "\<exists>b'. beacon_ticks (r # rs) b = Done b' \<and> fst (beacon_recv c b') = Some (Some r)"
proof -
  obtain b1 where t: "beacon_tick (Inr r) b = Done b1" and "buf (b_chans b1 c) = [r]"
    using assms by (simp add: beacon_tick_inv_Done)
  with beacon_ticks_full [OF tick_inv [OF assms(1) t], of c r rs] show ?thesis
    by (auto simp: beacon_recv_def try_recv_def)
qed

end
