(* ===== verification/Snapshot.thy ===== *)
theory Snapshot
  imports MemoryDag JsonText
begin

text \<open>
  Export and import of a store (\<open>src/dag/export.go\<close>, and \<open>Export\<close>/\<open>Import\<close> of
  \<open>src/dag/memory.go\<close>): the JSON form of an event and of a snapshot, the version check, and what
  the in-memory store does with the decoded maps. A JSON \<open>null\<close> where an event is expected gives a
  nil pointer, so the decoded map has optional events.
\<close>

section \<open>Events as JSON\<close>

definition enc_anchor :: "beacon_anchor \<Rightarrow> json" where
  "enc_anchor a = JObj [(''Round'', JInt (uint (Round a))), (''Randomness'', enc_bytes (Anchor_Randomness a))]"

definition enc_beacon :: "beacon_anchor option \<Rightarrow> json" where
  "enc_beacon b = (case b of None \<Rightarrow> JNull | Some a \<Rightarrow> enc_anchor a)"

definition enc_event :: "event \<Rightarrow> json" where
  "enc_event e = JObj
     [(''ID'', enc_string (ID e)), (''Type'', JInt (sint (Type e))),
      (''ParentID'', enc_string (ParentID e)), (''Parents'', enc_slice enc_string (Parents e)),
      (''Children'', enc_slice enc_string (Children e)), (''Data'', enc_bytes (Data e)),
      (''Beacon'', enc_beacon (Beacon e))]"

definition zero_event :: event where
  "zero_event = \<lparr>ID = [], Type = 0, ParentID = [], Parents = [], Children = [], Data = [], Beacon = None\<rparr>"

definition zero_anchor :: beacon_anchor where
  "zero_anchor = \<lparr>Round = 0, Anchor_Randomness = []\<rparr>"

definition dec_event_type :: "event_type dec" where
  "dec_event_type j old = map_option word_of_int (dec_int (- (2 ^ 63)) (2 ^ 63 - 1) j (sint old))"

definition dec_anchor :: "beacon_anchor dec" where
  "dec_anchor = dec_struct
     [(''Round'', on_field Round (\<lambda>x a. a\<lparr>Round := x\<rparr>) dec_u64),
      (''Randomness'', on_field Anchor_Randomness (\<lambda>x a. a\<lparr>Anchor_Randomness := x\<rparr>) dec_bytes)]"

definition dec_strings :: "string list dec" where
  "dec_strings = dec_slice dec_string []"

definition dec_event :: "event dec" where
  "dec_event = dec_struct
     [(''ID'', on_field ID (\<lambda>x e. e\<lparr>ID := x\<rparr>) dec_string),
      (''Type'', on_field Type (\<lambda>x e. e\<lparr>Type := x\<rparr>) dec_event_type),
      (''ParentID'', on_field ParentID (\<lambda>x e. e\<lparr>ParentID := x\<rparr>) dec_string),
      (''Parents'', on_field Parents (\<lambda>x e. e\<lparr>Parents := x\<rparr>) dec_strings),
      (''Children'', on_field Children (\<lambda>x e. e\<lparr>Children := x\<rparr>) dec_strings),
      (''Data'', on_field Data (\<lambda>x e. e\<lparr>Data := x\<rparr>) dec_bytes),
      (''Beacon'', on_field Beacon (\<lambda>x e. e\<lparr>Beacon := x\<rparr>) (dec_ptr dec_anchor zero_anchor))]"

section \<open>Snapshots\<close>

type_synonym raw_events = "string \<rightharpoonup> event option"
type_synonym children_map = "string \<rightharpoonup> string list"

record dag_snapshot =
  Version :: int
  Snap_Events :: "raw_events option"
  Snap_Children :: "children_map option"

definition CurrentSnapshotVersion :: int where "CurrentSnapshotVersion = 1"

text \<open>
  \<open>ExportDAG\<close>, given the keys of the two maps; \<open>write\<close> is the writer, which may return an error.
\<close>

definition snapshot_json :: "string list \<Rightarrow> event_map \<Rightarrow> string list \<Rightarrow> children_map \<Rightarrow> json" where
  "snapshot_json ks events cks children = JObj
     ([(''version'', JInt CurrentSnapshotVersion), (''events'', enc_map enc_event ks events)] @
      omit_empty (cks = []) (''children'', enc_map (enc_slice enc_string) cks children))"

definition ExportDAG ::
    "(bytes \<Rightarrow> string option) \<Rightarrow> string list \<Rightarrow> event_map \<Rightarrow> string list \<Rightarrow> children_map \<Rightarrow>
       string + bytes" where
  "ExportDAG write ks events cks children =
     (let out = json_encode_indent (snapshot_json ks events cks children)
      in case write out of Some msg \<Rightarrow> Inl (''failed to encode snapshot: '' @ msg) | None \<Rightarrow> Inr out)"

datatype import_error = DecodeSnapshot string | UnsupportedVersion int

definition zero_snapshot :: dag_snapshot where
  "zero_snapshot = \<lparr>Version = 0, Snap_Events = None, Snap_Children = None\<rparr>"

definition dec_snapshot :: "dag_snapshot dec" where
  "dec_snapshot = dec_struct
     [(''version'', on_field Version (\<lambda>x s. s\<lparr>Version := x\<rparr>) (dec_int (- (2 ^ 63)) (2 ^ 63 - 1))),
      (''events'', on_field Snap_Events (\<lambda>x s. s\<lparr>Snap_Events := x\<rparr>)
         (dec_map (dec_ptr dec_event zero_event) None)),
      (''children'', on_field Snap_Children (\<lambda>x s. s\<lparr>Snap_Children := x\<rparr>) (dec_map dec_strings []))]"

definition ImportDAG :: "bytes \<Rightarrow> import_error + (raw_events \<times> children_map)" where
  "ImportDAG body =
     (case json_decode dec_snapshot zero_snapshot body of
        Inl msg \<Rightarrow> Inl (DecodeSnapshot msg)
      | Inr s \<Rightarrow>
          (if Version s \<noteq> CurrentSnapshotVersion then Inl (UnsupportedVersion (Version s))
           else Inr (case Snap_Events s of None \<Rightarrow> (\<lambda>_. None) | Some m \<Rightarrow> m,
                     case Snap_Children s of None \<Rightarrow> (\<lambda>_. None) | Some c \<Rightarrow> c)))"

section \<open>The in-memory store\<close>

fun mem_children :: "event_map \<Rightarrow> string list \<Rightarrow> children_map \<Rightarrow> children_map" where
  "mem_children m [] c = c"
| "mem_children m (k # ks) c =
     mem_children m ks
       (case m k of
          None \<Rightarrow> c
        | Some e \<Rightarrow> (if length (Children e) > 0 then c(ID e \<mapsto> Children e) else c))"

definition child_keys :: "event_map \<Rightarrow> string list \<Rightarrow> string list" where
  "child_keys m ks =
     remdups (map (\<lambda>k. ID (the (m k))) (filter (\<lambda>k. m k \<noteq> None \<and> Children (the (m k)) \<noteq> []) ks))"

definition memory_Export ::
    "(bytes \<Rightarrow> string option) \<Rightarrow> string list \<Rightarrow> memoryDAG \<Rightarrow> string + bytes" where
  "memory_Export write ks d =
     (let m = mem_events d
      in ExportDAG write ks m (child_keys m ks) (mem_children m ks (\<lambda>_. None)))"

text \<open>
  \<open>Import\<close>: assigning to \<open>Children\<close> through a nil pointer panics. \<open>cks\<close> are the keys of the
  decoded children map in the order of the loop. If nil events remain, the store holds them:
  \<open>ImportedNil\<close>; \<open>NilEvents\<close> goes on from there.
\<close>

fun restore_children :: "children_map \<Rightarrow> string list \<Rightarrow> raw_events \<Rightarrow> raw_events exec" where
  "restore_children c [] m = Done m"
| "restore_children c (p # ps) m =
     (case m p of
        None \<Rightarrow> restore_children c ps m
      | Some None \<Rightarrow> Panic
      | Some (Some e) \<Rightarrow> restore_children c ps (m(p \<mapsto> Some (e\<lparr>Children := the (c p)\<rparr>))))"

datatype 'd import_result = ImportFailed import_error | Imported 'd | ImportedNil raw_events

text \<open>The store a decoded map gives; \<open>ks\<close> are the map's keys.\<close>

definition from_raw :: "string list \<Rightarrow> raw_events \<Rightarrow> (event_map \<Rightarrow> 'd) \<Rightarrow> 'd import_result" where
  "from_raw ks m f =
     (if list_ex (\<lambda>k. m k = Some None) ks then ImportedNil m
      else Imported (f (\<lambda>k. case m k of Some (Some e) \<Rightarrow> Some e | _ \<Rightarrow> None)))"

definition memory_Import ::
    "string list \<Rightarrow> string list \<Rightarrow> bytes \<Rightarrow> memoryDAG \<Rightarrow> memoryDAG import_result exec" where
  "memory_Import ks cks body d =
     (case ImportDAG body of
        Inl err \<Rightarrow> Done (ImportFailed err)
      | Inr (events, children) \<Rightarrow>
          exec_bind (restore_children children cks events)
            (\<lambda>m. Done (from_raw ks m (\<lambda>m. d\<lparr>mem_events := m\<rparr>))))"

section \<open>Decoding inverts encoding\<close>

text \<open>Strings that are valid UTF-8 survive; the encoder replaces others.\<close>

definition event_text_ok :: "event \<Rightarrow> bool" where
  "event_text_ok e \<longleftrightarrow> valid_utf8 (ID e) \<and> valid_utf8 (ParentID e) \<and>
     list_all valid_utf8 (Parents e) \<and> list_all valid_utf8 (Children e)"

lemma dec_event_type_enc: "dec_event_type (JInt (sint w)) old = Some w"
proof -
  have "- (2 ^ 63) \<le> sint w" "sint w < 2 ^ 63" using sint_range_size [of w] by (simp_all add: word_size)
  then show ?thesis by (simp add: dec_event_type_def dec_int_def)
qed

lemma dec_strings_enc: "dec_strings (enc_slice enc_string ss) old = Some ss"
  by (auto simp: dec_strings_def intro!: dec_slice_enc dec_string_enc)

lemma dec_anchor_enc: "dec_anchor (enc_anchor a) old = Some a"
  by (simp add: dec_anchor_def enc_anchor_def dec_struct_def field_match_def on_field_def
      dec_u64_enc dec_bytes_enc ascii_lower_def between_def ord_def)

lemma dec_beacon_enc: "dec_ptr dec_anchor zero_anchor (enc_beacon b) old = Some b"
  by (cases b) (simp_all add: dec_ptr_def enc_beacon_def dec_anchor_enc, simp add: enc_anchor_def)

lemma dec_event_enc: "dec_event (enc_event e) old = Some e"
  by (simp add: dec_event_def enc_event_def dec_struct_def field_match_def on_field_def
      dec_string_enc dec_event_type_enc dec_strings_enc dec_bytes_enc dec_beacon_enc
      ascii_lower_def between_def ord_def)

lemma dec_event_ptr_enc: "dec_ptr dec_event zero_event (enc_event e) old = Some (Some e)"
  by (simp add: dec_ptr_def dec_event_enc enc_event_def [of e])
    (simp add: enc_event_def [symmetric] dec_event_enc)

text \<open>What is written for an event with valid strings is read back.\<close>

lemma valid_names: "valid_utf8 ''Round''" "valid_utf8 ''Randomness''" "valid_utf8 ''ID''" "valid_utf8 ''Type''"
  "valid_utf8 ''ParentID''" "valid_utf8 ''Parents''" "valid_utf8 ''Children''" "valid_utf8 ''Data''"
  "valid_utf8 ''Beacon''" "valid_utf8 ''version''" "valid_utf8 ''events''" "valid_utf8 ''children''"
  by (simp_all add: valid_utf8_ascii ord_def)

lemma reads_back_strings: "1 < n \<Longrightarrow> list_all valid_utf8 ss \<Longrightarrow> reads_back n (enc_slice enc_string ss)"
  by (auto simp: list_all_iff intro!: reads_back_slice reads_back_string)

lemma reads_back_beacon: "1 < n \<Longrightarrow> reads_back n (enc_beacon b)"
  by (cases b) (simp_all add: enc_beacon_def enc_anchor_def reads_back_obj reads_back_bytes valid_names)

lemma reads_back_event: "2 < n \<Longrightarrow> event_text_ok e \<Longrightarrow> reads_back n (enc_event e)"
  by (simp add: enc_event_def reads_back_obj valid_names event_text_ok_def reads_back_string
      reads_back_strings reads_back_bytes reads_back_beacon)

text \<open>A snapshot whose strings are valid.\<close>

definition snapshot_text_ok :: "event_map \<Rightarrow> children_map \<Rightarrow> bool" where
  "snapshot_text_ok m c \<longleftrightarrow> (\<forall>k e. m k = Some e \<longrightarrow> valid_utf8 k \<and> event_text_ok e) \<and>
     (\<forall>k ss. c k = Some ss \<longrightarrow> valid_utf8 k \<and> list_all valid_utf8 ss)"

lemma reads_back_snapshot:
  assumes "snapshot_text_ok m c" and "set ks = dom m" and "set cks = dom c" and "4 < n"
  shows "reads_back n (snapshot_json ks m cks c)"
proof -
  have "reads_back (n - 1) (enc_map enc_event ks m)"
    using assms by (intro reads_back_map) (auto simp: snapshot_text_ok_def reads_back_event)
  moreover have "reads_back (n - 1) (enc_map (enc_slice enc_string) cks c)"
    using assms by (intro reads_back_map) (auto simp: snapshot_text_ok_def reads_back_strings)
  ultimately show ?thesis using assms(4)
    by (auto simp: snapshot_json_def reads_back_obj valid_names omit_empty_def)
qed

lemma dec_snapshot_enc:
  assumes "set ks = dom m" and "set cks = dom c"
  shows "dec_snapshot (snapshot_json ks m cks c) zero_snapshot =
      Some \<lparr>Version = 1, Snap_Events = Some (\<lambda>k. map_option Some (m k)),
            Snap_Children = (if cks = [] then None else Some c)\<rparr>"
proof -
  have e: "dec_map (dec_ptr dec_event zero_event) None (enc_map enc_event ks m) None =
      Some (Some (\<lambda>k. map_option Some (m k)))"
    using assms(1) dec_event_ptr_enc by (intro dec_map_enc) auto
  have "dec_map dec_strings [] (enc_map (enc_slice enc_string) cks c) None =
      Some (Some (\<lambda>k. map_option (\<lambda>x. x) (c k)))"
    using assms(2) dec_strings_enc by (intro dec_map_enc) auto
  then have ch: "dec_map dec_strings [] (enc_map (enc_slice enc_string) cks c) None = Some (Some c)"
    by (simp add: option.map_ident)
  show ?thesis
    using e ch
    by (simp add: dec_snapshot_def snapshot_json_def dec_struct_def field_match_def on_field_def
        ascii_lower_def between_def ord_def omit_empty_def zero_snapshot_def dec_int_def
        CurrentSnapshotVersion_def)
qed

lemma ImportDAG_snapshot:
  assumes "snapshot_text_ok m c" and "set ks = dom m" and "set cks = dom c"
  shows "ImportDAG (json_encode_indent (snapshot_json ks m cks c)) = Inr (\<lambda>k. map_option Some (m k), c)"
proof -
  have "reads_back maxNestingDepth (snapshot_json ks m cks c)"
    using assms by (rule reads_back_snapshot) (simp add: maxNestingDepth_def)
  note d = json_decode_indent [where d = dec_snapshot, OF this dec_snapshot_enc [OF assms(2,3)]]
  have "cks = [] \<Longrightarrow> c = (\<lambda>_. None)" using assms(3) by auto
  then show ?thesis by (simp add: ImportDAG_def d CurrentSnapshotVersion_def)
qed

section \<open>What the export of the in-memory store holds\<close>

definition children_of :: "event_map \<Rightarrow> string \<Rightarrow> string list option" where
  "children_of m i = (case m i of None \<Rightarrow> None | Some e \<Rightarrow> if Children e = [] then None else Some (Children e))"

lemma mem_children_eq:
  "keys_ok m \<Longrightarrow> mem_children m ks c = (\<lambda>i. if i \<in> set ks \<and> children_of m i \<noteq> None then children_of m i else c i)"
proof (induction ks arbitrary: c)
  case Nil
  then show ?case by simp
next
  case (Cons k ks)
  let ?c = "case m k of None \<Rightarrow> c | Some e \<Rightarrow> (if length (Children e) > 0 then c(ID e \<mapsto> Children e) else c)"
  have "?c i = (if i = k \<and> children_of m k \<noteq> None then children_of m k else c i)" for i
    using Cons.prems by (auto simp: children_of_def keys_ok_def split: option.splits)
  with Cons.IH [OF Cons.prems] show ?case by (auto simp: fun_eq_iff)
qed

lemma mem_children_all:
  assumes "keys_ok m" and "set ks = dom m"
  shows "mem_children m ks (\<lambda>_. None) = children_of m"
  unfolding mem_children_eq [OF assms(1)] using assms(2)
  by (auto simp: fun_eq_iff children_of_def domIff split: option.splits)

lemma set_child_keys:
  assumes "keys_ok m" and "set ks = dom m" shows "set (child_keys m ks) = dom (children_of m)"
proof -
  have "ID (the (m k)) = k" if "m k \<noteq> None" for k
    using assms(1) that by (auto simp: keys_ok_def)
  then show ?thesis
    using assms(2) by (force simp: child_keys_def children_of_def split: option.splits if_splits)
qed

text \<open>Restoring the children that were exported changes nothing.\<close>

lemma restore_children_same:
  assumes "set ps \<subseteq> dom c" and "\<And>p. p \<in> dom c \<Longrightarrow> \<exists>e. m p = Some e \<and> c p = Some (Children e)"
  shows "restore_children c ps (\<lambda>k. map_option Some (m k)) = Done (\<lambda>k. map_option Some (m k))"
  using assms(1)
proof (induction ps)
  case Nil
  then show ?case by simp
next
  case (Cons p ps)
  then obtain e where e: "m p = Some e" "c p = Some (Children e)" using assms(2) by auto
  then have "(\<lambda>k. map_option Some (m k))(p \<mapsto> Some (e\<lparr>Children := the (c p)\<rparr>)) = (\<lambda>k. map_option Some (m k))"
    by (auto simp: fun_eq_iff)
  with Cons e show ?case by simp
qed

lemma from_raw_some: "from_raw ks (\<lambda>k. map_option Some (m k)) f = Imported (f m)"
proof -
  have "\<not> list_ex (\<lambda>k. map_option Some (m k) = Some None) ks" by (auto simp: list_ex_iff)
  moreover have "(\<lambda>k. case map_option Some (m k) of Some (Some e) \<Rightarrow> Some e | _ \<Rightarrow> None) = m"
    by (auto simp: fun_eq_iff split: option.splits)
  ultimately show ?thesis by (simp add: from_raw_def)
qed

end
