(* ===== verification/SnapshotProps.thy ===== *)
theory SnapshotProps
  imports Snapshot MemoryProps
begin

text \<open>
  Properties of export and import: the round trip through a snapshot, and what import does not
  check.
\<close>

lemma snapshot_roundtrip:
  assumes "keys_ok (mem_events d)" and "range_order (mem_events d) ks"
    and "\<And>i e. mem_events d i = Some e \<Longrightarrow> event_text_ok e"
    and "set cks = dom (children_of (mem_events d))"
  shows "\<exists>out. (\<forall>write. memory_Export write ks d =
      (case write out of None \<Rightarrow> Inr out | Some msg \<Rightarrow> Inl (''failed to encode snapshot: '' @ msg))) \<and>
    memory_Import ks cks out d' = Done (Imported d)"
proof -
  let ?m = "mem_events d"
  let ?c = "children_of ?m" and ?j = "snapshot_json ks ?m (child_keys ?m ks) (children_of ?m)"
  have ks: "set ks = dom ?m" using assms(2) by (simp add: range_order_def)
  have out: "memory_Export w ks d = (case w (json_encode_indent ?j) of
      None \<Rightarrow> Inr (json_encode_indent ?j) | Some msg \<Rightarrow> Inl (''failed to encode snapshot: '' @ msg))" for w
    by (simp add: memory_Export_def ExportDAG_def Let_def mem_children_all [OF assms(1) ks] split: option.splits)
  have m: "valid_utf8 k \<and> event_text_ok e" if "?m k = Some e" for k e
    using assms(3) [OF that] assms(1) that by (auto simp: keys_ok_def event_text_ok_def)
  have "valid_utf8 k \<and> list_all valid_utf8 ss" if "?c k = Some ss" for k ss
    using that m [of k] by (auto simp: children_of_def event_text_ok_def split: option.splits if_splits)
  with m have "snapshot_text_ok ?m ?c" by (simp add: snapshot_text_ok_def)
  note imp = ImportDAG_snapshot [OF this ks set_child_keys [OF assms(1) ks]]
  have "restore_children ?c cks (\<lambda>k. map_option Some (?m k)) = Done (\<lambda>k. map_option Some (?m k))"
    using assms(4)
    by (intro restore_children_same) (auto simp: children_of_def split: option.splits if_splits)
  then have "memory_Import ks cks (json_encode_indent ?j) d' = Done (Imported d)"
    by (simp add: memory_Import_def imp from_raw_some)
  with out show ?thesis by blast
qed

text \<open>C21: exporting a store whose keys are its events' IDs writes bytes (unless the writer fails) from
  which an import into any other store makes that store equal to the exported one: events, children,
  data and anchors, as long as the strings are valid UTF-8. The order in which the maps are ranged
  over does not matter.\<close>

theorem memory_export_import:
  assumes "keys_ok (mem_events d)" and "range_order (mem_events d) ks"
    and "\<And>i e. mem_events d i = Some e \<Longrightarrow> event_text_ok e"
    and "set cks = dom (children_of (mem_events d))"
  shows "\<exists>out. (\<forall>write. memory_Export write ks d =
      (case write out of None \<Rightarrow> Inr out | Some msg \<Rightarrow> Inl (''failed to encode snapshot: '' @ msg))) \<and>
    memory_Import ks cks out d' = Done (Imported d)"
  by (rule snapshot_roundtrip) (fact assms)+

lemma event_text_ok_ascii:
  "list_all (list_all (\<lambda>c. ord c < 128)) (ID e # ParentID e # Parents e @ Children e) \<Longrightarrow> event_text_ok e"
  by (auto simp: event_text_ok_def valid_utf8_ascii elim!: list.pred_mono_strong)

theorem memory_export_import_witness:
  "\<exists>out. memory_Export (\<lambda>_. None) [''b'', ''a''] \<lparr>mem_events = map_ab\<rparr> = Inr out \<and>
     memory_Import [''b'', ''a''] [''a''] out NewMemoryDAG = Done (Imported \<lparr>mem_events = map_ab\<rparr>)"
proof -
  let ?d = "\<lparr>mem_events = map_ab\<rparr>" and ?ks = "[''b'', ''a'']"
  have k: "keys_ok (mem_events ?d)" using map_ab_wf by (simp add: dag_wf_def)
  have o: "range_order (mem_events ?d) ?ks" by (auto simp: range_order_def)
  have t: "event_text_ok e" if "mem_events ?d i = Some e" for i e
    using that by (intro event_text_ok_ascii) (auto simp: sample_defs ord_def split: if_splits)
  have c: "set [''a''] = dom (children_of (mem_events ?d))"
    by (auto simp: children_of_def sample_defs split: if_splits)
  from memory_export_import [OF k o t c, where d' = NewMemoryDAG] show ?thesis
    by (force dest: spec [of _ "\<lambda>_. None"])
qed

text \<open>Import accepts whatever graph the snapshot holds, also one that no sequence of \<open>AddEvent\<close>
  calls can build: two events that are each other's parent are exported and imported unchanged,
  and only a later \<open>Verify\<close> reports the cycle.\<close>

lemma memory_Import_unchecked:
  "\<exists>out d err. memory_Export (\<lambda>_. None) [''a'', ''b''] \<lparr>mem_events = map_cycle\<rparr> = Inr out \<and>
    memory_Import [''a'', ''b''] [] out NewMemoryDAG = Done (Imported d) \<and>
    memory_Verify [''a'', ''b''] [''a'', ''b''] d = Done (Some err)"
proof -
  let ?d = "\<lparr>mem_events = map_cycle\<rparr>" and ?ks = "[''a'', ''b'']"
  have k: "keys_ok (mem_events ?d)" by (auto simp: keys_ok_def sample_defs split: if_splits)
  have o: "range_order (mem_events ?d) ?ks"
    by (auto simp: range_order_def map_cycle_def split: if_splits)
  have t: "event_text_ok e" if "mem_events ?d i = Some e" for i e
    using that by (intro event_text_ok_ascii) (auto simp: sample_defs ord_def split: if_splits)
  have c0: "children_of (mem_events ?d) = (\<lambda>_. None)"
    by (auto simp: children_of_def sample_defs fun_eq_iff)
  have "\<exists>out. memory_Export (\<lambda>_. None) ?ks ?d = Inr out \<and>
      memory_Import ?ks [] out NewMemoryDAG = Done (Imported ?d)"
    using snapshot_roundtrip [OF k o t, where cks = "[]" and d' = NewMemoryDAG] c0 by (force dest: spec [of _ "\<lambda>_. None"])
  moreover have "(''a'', ''b'') \<in> edges map_cycle" "(''b'', ''a'') \<in> edges map_cycle"
    by (simp_all add: edges_def sample_defs)
  then have "\<not> acyclic (edges map_cycle)" unfolding acyclic_def by (meson trancl.intros)
  then have "\<exists>err. memory_Verify ?ks ?ks ?d = Done (Some err)"
    using memory_Verify_iff [OF o o] by auto
  ultimately show ?thesis by blast
qed

end
