(* ===== verification/IpfsDag.thy ===== *)
theory IpfsDag
  imports MemoryDag Snapshot Cid
begin

text \<open>
  The IPFS-backed store (\<open>src/dag/ipfs.go\<close>): a local index of events, a separate children
  index, and an IPFS daemon reached over HTTP, whose answers are a parameter. Context deadlines
  show as errors of the HTTP calls. Writes to in-memory buffers and closing them never fail, so
  those error branches of the source cannot be taken and are left out.
\<close>

section \<open>Parameters and state\<close>

record ipfs_config =
  APIURL :: string
  IndexPath :: string
  ConnectTimeout :: int
  OperationTimeout :: int

record http_response =
  status :: nat
  resp_body :: "string + bytes"

text \<open>
  The outside: building a request from a URL may fail, so may performing it; \<open>multipart\<close> wraps a
  document in a form.
\<close>

record daemon =
  new_request :: "string \<Rightarrow> string option"
  do_post :: "string \<Rightarrow> bytes \<Rightarrow> string + http_response"
  multipart :: "bytes \<Rightarrow> bytes"

record ipfsDAG =
  ipfs_cfg :: ipfs_config
  ipfs_events :: event_map
  ipfs_children :: children_map

definition kids_of :: "children_map \<Rightarrow> string \<Rightarrow> string list" where
  "kids_of c i = (case c i of None \<Rightarrow> [] | Some ks \<Rightarrow> ks)"

section \<open>The daemon's API\<close>

definition ping :: "daemon \<Rightarrow> ipfs_config \<Rightarrow> string option" where
  "ping N cfg =
     (let url = APIURL cfg @ ''/api/v0/id''
      in case new_request N url of
           Some err \<Rightarrow> Some err
         | None \<Rightarrow>
             (case do_post N url [] of
                Inl err \<Rightarrow> Some err
              | Inr resp \<Rightarrow>
                  (if status resp \<noteq> 200 then Some (''IPFS returned status '' @ decimal (status resp)) else None)))"

record event_data =
  D_Type :: event_type
  D_ParentID :: string
  D_Parents :: "string list"
  D_Data :: bytes
  D_Beacon :: "beacon_anchor option"

definition enc_event_data :: "event_data \<Rightarrow> json" where
  "enc_event_data d = JObj
     ([(''type'', JInt (sint (D_Type d)))] @
      omit_empty (D_ParentID d = []) (''parent_id'', enc_string (D_ParentID d)) @
      omit_empty (D_Parents d = []) (''parents'', enc_slice enc_string (D_Parents d)) @
      omit_empty (D_Data d = []) (''data'', enc_bytes (D_Data d)) @
      omit_empty (D_Beacon d = None) (''beacon'', enc_beacon (D_Beacon d)))"

definition zero_event_data :: event_data where
  "zero_event_data = \<lparr>D_Type = 0, D_ParentID = [], D_Parents = [], D_Data = [], D_Beacon = None\<rparr>"

definition dec_event_data :: "event_data dec" where
  "dec_event_data = dec_struct
     [(''type'', on_field D_Type (\<lambda>x d. d\<lparr>D_Type := x\<rparr>) dec_event_type),
      (''parent_id'', on_field D_ParentID (\<lambda>x d. d\<lparr>D_ParentID := x\<rparr>) dec_string),
      (''parents'', on_field D_Parents (\<lambda>x d. d\<lparr>D_Parents := x\<rparr>) dec_strings),
      (''data'', on_field D_Data (\<lambda>x d. d\<lparr>D_Data := x\<rparr>) dec_bytes),
      (''beacon'', on_field D_Beacon (\<lambda>x d. d\<lparr>D_Beacon := x\<rparr>) (dec_ptr dec_anchor zero_anchor))]"

record ipfsAddResponse =
  Add_Hash :: string
  Add_Name :: string
  Add_Size :: string

definition dec_add_response :: "ipfsAddResponse dec" where
  "dec_add_response = dec_struct
     [(''Hash'', on_field Add_Hash (\<lambda>x r. r\<lparr>Add_Hash := x\<rparr>) dec_string),
      (''Name'', on_field Add_Name (\<lambda>x r. r\<lparr>Add_Name := x\<rparr>) dec_string),
      (''Size'', on_field Add_Size (\<lambda>x r. r\<lparr>Add_Size := x\<rparr>) dec_string)]"

text \<open>\<open>json.NewDecoder(resp.Body).Decode\<close> into a variable holding \<open>zero\<close>.\<close>

definition decode_body :: "'a dec \<Rightarrow> 'a \<Rightarrow> http_response \<Rightarrow> string + 'a" where
  "decode_body d zero resp =
     (case resp_body resp of Inl err \<Rightarrow> Inl err | Inr body \<Rightarrow> json_decode d zero body)"

text \<open>The message for a status other than 200; \<open>what\<close> is \<open>add\<close> or \<open>cat\<close>.\<close>

definition status_error :: "string \<Rightarrow> http_response \<Rightarrow> string" where
  "status_error what resp =
     (case resp_body resp of
        Inl err \<Rightarrow> ''IPFS '' @ what @ '' failed (status '' @ decimal (status resp) @ '', read error: '' @ err @ '')''
      | Inr body \<Rightarrow> ''IPFS '' @ what @ '' failed (status '' @ decimal (status resp) @ ''): '' @ map char_of_byte body)"

definition event_content :: "event \<Rightarrow> event_data" where
  "event_content e = \<lparr>D_Type = Type e, D_ParentID = ParentID e, D_Parents = Parents e, D_Data = Data e,
     D_Beacon = Beacon e\<rparr>"

definition storeEvent :: "daemon \<Rightarrow> ipfs_config \<Rightarrow> event \<Rightarrow> string + string" where
  "storeEvent N cfg e =
     (let body = multipart N (json_marshal (enc_event_data (event_content e)));
          url = APIURL cfg @ ''/api/v0/add''
      in case new_request N url of
           Some err \<Rightarrow> Inl err
         | None \<Rightarrow>
             (case do_post N url body of
                Inl err \<Rightarrow> Inl (''failed to add to IPFS: '' @ err)
              | Inr resp \<Rightarrow>
                  (if status resp \<noteq> 200 then Inl (status_error ''add'' resp)
                   else
                     (case decode_body dec_add_response \<lparr>Add_Hash = [], Add_Name = [], Add_Size = []\<rparr> resp of
                        Inl err \<Rightarrow> Inl (''failed to decode IPFS response: '' @ err)
                      | Inr r \<Rightarrow> Inr (Add_Hash r)))))"

definition fetched_event :: "string \<Rightarrow> event_data \<Rightarrow> event" where
  "fetched_event cid d = \<lparr>ID = cid, Type = D_Type d, ParentID = D_ParentID d, Parents = D_Parents d,
     Children = [], Data = D_Data d, Beacon = D_Beacon d\<rparr>"

definition fetchEvent :: "daemon \<Rightarrow> ipfs_config \<Rightarrow> string \<Rightarrow> string + event" where
  "fetchEvent N cfg cid =
     (let url = APIURL cfg @ ''/api/v0/cat?arg='' @ cid
      in case new_request N url of
           Some err \<Rightarrow> Inl err
         | None \<Rightarrow>
             (case do_post N url [] of
                Inl err \<Rightarrow> Inl (''failed to fetch from IPFS: '' @ err)
              | Inr resp \<Rightarrow>
                  (if status resp \<noteq> 200 then Inl (status_error ''cat'' resp)
                   else
                     (case decode_body dec_event_data zero_event_data resp of
                        Inl err \<Rightarrow> Inl (''failed to decode event: '' @ err)
                      | Inr d \<Rightarrow> Inr (fetched_event cid d)))))"

section \<open>Adding events\<close>

definition add_child :: "string \<Rightarrow> string \<Rightarrow> children_map \<Rightarrow> children_map" where
  "add_child p i c = c(p \<mapsto> kids_of c p @ [i])"

definition ipfs_link_sub :: "event \<Rightarrow> event_map \<Rightarrow> children_map \<Rightarrow> dag_error option \<times> children_map" where
  "ipfs_link_sub e m c =
     (if Type e = SubEvent then
        (if ParentID e = [] then (Some (ErrInvalidEvent ''sub-event must have a parent ID''), c)
         else if m (ParentID e) = None then (Some (ErrMissingParent (ParentID e)), c)
         else (None, add_child (ParentID e) (ID e) c))
      else (None, c))"

fun ipfs_link_parents ::
    "string \<Rightarrow> string list \<Rightarrow> event_map \<Rightarrow> children_map \<Rightarrow> dag_error option \<times> children_map" where
  "ipfs_link_parents i [] m c = (None, c)"
| "ipfs_link_parents i (p # ps) m c =
     (if m p = None then (Some (ErrMissingParent p), c)
      else ipfs_link_parents i ps m (add_child p i c))"

definition cid_error_text :: "cid_error \<Rightarrow> string" where
  "cid_error_text err =
     (case err of
        CidNilEvent \<Rightarrow> ''event cannot be nil''
      | CidMultihash msg \<Rightarrow> ''failed to create multihash: '' @ msg
      | _ \<Rightarrow> [])"

text \<open>The event with the ID it is added under: an empty ID is computed.\<close>

definition ipfs_assign_id :: "cid_lib \<Rightarrow> event \<Rightarrow> dag_error + event" where
  "ipfs_assign_id L e =
     (if ID e = [] then
        (case ComputeCID L (Some e) of
           Inl err \<Rightarrow> Inl (ErrComputeCID (cid_error_text err))
         | Inr c \<Rightarrow> Inr (e\<lparr>ID := c\<rparr>))
      else Inr e)"

definition ipfs_insert :: "daemon \<Rightarrow> event \<Rightarrow> ipfsDAG \<Rightarrow> dag_error option \<times> ipfsDAG" where
  "ipfs_insert N e d =
     (let m = ipfs_events d
      in if m (ID e) \<noteq> None then (Some (ErrDuplicateEvent (ID e)), d)
         else
           (case ipfs_link_sub e m (ipfs_children d) of
              (Some err, c) \<Rightarrow> (Some err, d\<lparr>ipfs_children := c\<rparr>)
            | (None, c) \<Rightarrow>
                (case ipfs_link_parents (ID e) (Parents e) m c of
                   (Some err, c) \<Rightarrow> (Some err, d\<lparr>ipfs_children := c\<rparr>)
                 | (None, c) \<Rightarrow>
                     (case storeEvent N (ipfs_cfg d) e of
                        Inl msg \<Rightarrow> (Some (ErrIPFS msg), d\<lparr>ipfs_children := c\<rparr>)
                      | Inr storedCID \<Rightarrow>
                          (None, d\<lparr>ipfs_children := c, ipfs_events := m(ID e \<mapsto> e)\<rparr>)))))"

definition ipfs_AddEvent ::
    "cid_lib \<Rightarrow> daemon \<Rightarrow> event option \<Rightarrow> ipfsDAG \<Rightarrow> dag_error option \<times> ipfsDAG" where
  "ipfs_AddEvent L N ev d =
     (case ev of
        None \<Rightarrow> (Some (ErrInvalidEvent ''event cannot be nil''), d)
      | Some e \<Rightarrow>
          (case ipfs_assign_id L e of
             Inl err \<Rightarrow> (Some err, d)
           | Inr e \<Rightarrow> ipfs_insert N e d))"

section \<open>Queries\<close>

definition ipfs_GetEvent :: "daemon \<Rightarrow> string \<Rightarrow> ipfsDAG \<Rightarrow> (dag_error + event) \<times> ipfsDAG" where
  "ipfs_GetEvent N i d =
     (if i = [] then (Inl ErrEmptyID, d)
      else
        (case ipfs_events d i of
           Some e \<Rightarrow> (Inr (e\<lparr>Children := kids_of (ipfs_children d) i\<rparr>), d)
         | None \<Rightarrow>
             (case fetchEvent N (ipfs_cfg d) i of
                Inl _ \<Rightarrow> (Inl ErrNotFound, d)
              | Inr e \<Rightarrow>
                  (let e = e\<lparr>Children := kids_of (ipfs_children d) i\<rparr>
                   in (Inr e, d\<lparr>ipfs_events := (ipfs_events d)(i \<mapsto> e)\<rparr>)))))"

fun ipfs_get_all ::
    "(string \<Rightarrow> dag_error \<Rightarrow> dag_error) \<Rightarrow> daemon \<Rightarrow> string list \<Rightarrow> ipfsDAG \<Rightarrow>
       (dag_error + event list) \<times> ipfsDAG" where
  "ipfs_get_all wrap N [] d = (Inr [], d)"
| "ipfs_get_all wrap N (i # is) d =
     (case ipfs_GetEvent N i d of
        (Inl err, d) \<Rightarrow> (Inl (wrap i err), d)
      | (Inr e, d) \<Rightarrow>
          (case ipfs_get_all wrap N is d of
             (Inl err, d) \<Rightarrow> (Inl err, d)
           | (Inr es, d) \<Rightarrow> (Inr (e # es), d)))"

definition ipfs_GetParents ::
    "daemon \<Rightarrow> string \<Rightarrow> ipfsDAG \<Rightarrow> (dag_error + event list) \<times> ipfsDAG" where
  "ipfs_GetParents N i d =
     (if i = [] then (Inl ErrEmptyID, d)
      else
        (case ipfs_GetEvent N i d of
           (Inl err, d) \<Rightarrow> (Inl err, d)
         | (Inr e, d) \<Rightarrow> ipfs_get_all ErrParentFetch N (Parents e) d))"

definition ipfs_GetChildren ::
    "daemon \<Rightarrow> string \<Rightarrow> ipfsDAG \<Rightarrow> (dag_error + event list) \<times> ipfsDAG" where
  "ipfs_GetChildren N i d =
     (if i = [] then (Inl ErrEmptyID, d)
      else ipfs_get_all ErrChildFetch N (kids_of (ipfs_children d) i) d)"

definition ipfs_kids :: "children_map \<Rightarrow> kids" where
  "ipfs_kids c i e = kids_of c i"

definition ipfs_GetSubEvents :: "nat \<Rightarrow> string \<Rightarrow> ipfsDAG \<Rightarrow> (dag_error + event list) exec" where
  "ipfs_GetSubEvents n i d =
     (if i = [] then Done (Inl ErrEmptyID)
      else if ipfs_events d i = None then Done (Inl ErrNotFound)
      else
        exec_bind (traverseAll (ipfs_kids (ipfs_children d)) (ipfs_events d) i n
            (kids_of (ipfs_children d) i) ({}, []))
          (\<lambda>(r, visited, subs). Done (case r of Some err \<Rightarrow> Inl err | None \<Rightarrow> Inr subs)))"

definition ipfs_GetMainEvents :: "string list \<Rightarrow> ipfsDAG \<Rightarrow> event list" where
  "ipfs_GetMainEvents ks d =
     map (\<lambda>e. e\<lparr>Children := kids_of (ipfs_children d) (ID e)\<rparr>)
       (filter (\<lambda>e. Type e = MainEvent) (List.map_filter (ipfs_events d) ks))"

definition ipfs_Verify :: "string list \<Rightarrow> string list \<Rightarrow> ipfsDAG \<Rightarrow> dag_error option exec" where
  "ipfs_Verify ks1 ks2 d =
     (let m = ipfs_events d
      in case verify_refs (check_parent_refs m) m ks1 of
           Some err \<Rightarrow> Done (Some err)
         | None \<Rightarrow> exec_bind (checkAll m (Suc (length ks2)) ks2 ({}, {})) (\<lambda>(r, st). Done r))"

section \<open>Persistence\<close>

definition ipfs_Export ::
    "(bytes \<Rightarrow> string option) \<Rightarrow> string list \<Rightarrow> string list \<Rightarrow> ipfsDAG \<Rightarrow> string + bytes" where
  "ipfs_Export write ks cks d = ExportDAG write ks (ipfs_events d) cks (ipfs_children d)"

definition ipfs_Import :: "string list \<Rightarrow> bytes \<Rightarrow> ipfsDAG \<Rightarrow> ipfsDAG import_result" where
  "ipfs_Import ks body d =
     (case ImportDAG body of
        Inl err \<Rightarrow> ImportFailed err
      | Inr (events, children) \<Rightarrow>
          from_raw ks events (\<lambda>m. d\<lparr>ipfs_events := m, ipfs_children := children\<rparr>))"

datatype open_result = NotExist | OpenFailed string | Opened bytes

datatype new_ipfs_error = ConnectFailed string | LoadIndexOpen string | LoadIndexImport import_error

definition defaultIPFSConnectTimeout :: int where "defaultIPFSConnectTimeout = 5000000000"
definition defaultIPFSOpTimeout :: int where "defaultIPFSOpTimeout = 30000000000"

definition ipfs_defaults :: "ipfs_config \<Rightarrow> ipfs_config" where
  "ipfs_defaults cfg = cfg\<lparr>
     APIURL := (if APIURL cfg = [] then ''http://localhost:5001'' else APIURL cfg),
     ConnectTimeout := (if ConnectTimeout cfg \<le> 0 then defaultIPFSConnectTimeout else ConnectTimeout cfg),
     OperationTimeout := (if OperationTimeout cfg \<le> 0 then defaultIPFSOpTimeout else OperationTimeout cfg)\<rparr>"

text \<open>\<open>opened\<close> is what opening the index file gives; \<open>ks\<close> the keys of its events.\<close>

definition NewIPFSDAG ::
    "daemon \<Rightarrow> (string \<Rightarrow> open_result) \<Rightarrow> string list \<Rightarrow> ipfs_config \<Rightarrow>
       new_ipfs_error + ipfsDAG import_result" where
  "NewIPFSDAG N opened ks cfg =
     (let cfg = ipfs_defaults cfg;
          d = \<lparr>ipfs_cfg = cfg, ipfs_events = (\<lambda>_. None), ipfs_children = (\<lambda>_. None)\<rparr>
      in case ping N cfg of
           Some err \<Rightarrow> Inl (ConnectFailed err)
         | None \<Rightarrow>
             (if IndexPath cfg = [] then Inr (Imported d)
              else
                (case opened (IndexPath cfg) of
                   NotExist \<Rightarrow> Inr (Imported d)
                 | OpenFailed err \<Rightarrow> Inl (LoadIndexOpen err)
                 | Opened body \<Rightarrow>
                     (case ipfs_Import ks body d of
                        ImportFailed err \<Rightarrow> Inl (LoadIndexImport err)
                      | r \<Rightarrow> Inr r))))"

text \<open>\<open>SaveIndex\<close>, which is all of \<open>Close\<close>: \<open>created\<close> may give an error.\<close>

definition SaveIndex ::
    "(string \<Rightarrow> string option) \<Rightarrow> (bytes \<Rightarrow> string option) \<Rightarrow> string list \<Rightarrow> string list \<Rightarrow>
       ipfsDAG \<Rightarrow> string option \<times> bytes option" where
  "SaveIndex created write ks cks d =
     (let path = IndexPath (ipfs_cfg d)
      in if path = [] then (None, None)
         else
           (case created path of
              Some err \<Rightarrow> (Some (''failed to create index file: '' @ err), None)
            | None \<Rightarrow>
                (case ipfs_Export write ks cks d of
                   Inl err \<Rightarrow> (Some err, None) | Inr out \<Rightarrow> (None, Some out))))"

section \<open>Lemmas on adding\<close>

lemma kids_add_child: "kids_of (add_child p i c) q = (if q = p then kids_of c p @ [i] else kids_of c q)"
  by (simp add: kids_of_def add_child_def)

lemma dom_add_child: "m p \<noteq> None \<Longrightarrow> dom c \<subseteq> dom m \<Longrightarrow> dom (add_child p i c) \<subseteq> dom m"
  by (auto simp: add_child_def)

lemma dom_ipfs_link_sub: "ipfs_link_sub e m c = (r, c') \<Longrightarrow> dom c \<subseteq> dom m \<Longrightarrow> dom c' \<subseteq> dom m"
  using dom_add_child [of m "ParentID e" c "ID e"] by (auto simp: ipfs_link_sub_def split: if_splits)

lemma dom_ipfs_link_parents:
  "ipfs_link_parents i ps m c = (r, c') \<Longrightarrow> dom c \<subseteq> dom m \<Longrightarrow> dom c' \<subseteq> dom m"
proof (induction ps arbitrary: c)
  case Nil
  then show ?case by simp
next
  case (Cons p ps)
  show ?case
  proof (cases "m p = None")
    case True
    with Cons.prems show ?thesis by simp
  next
    case False
    with Cons.prems have "ipfs_link_parents i ps m (add_child p i c) = (r, c')" by simp
    from Cons.IH [OF this dom_add_child [OF False Cons.prems(2)]] show ?thesis .
  qed
qed

lemma ipfs_link_parents_None: "ipfs_link_parents i ps m c = (None, c') \<Longrightarrow> set ps \<subseteq> dom m"
  by (induction ps arbitrary: c) (auto split: if_splits)

lemma ipfs_link_parents_Some: "ipfs_link_parents i ps m c = (Some err, c') \<Longrightarrow>
    \<exists>p \<in> set ps - dom m. err = ErrMissingParent p"
  by (induction ps arbitrary: c) (auto split: if_splits)

lemma ipfs_insert_cases:
  assumes "ipfs_insert N e d = (r, d')"
  obtains (added) "r = None" "ID e \<notin> dom (ipfs_events d)"
      "Type e = SubEvent \<longrightarrow> ParentID e \<noteq> []" "set (refs e) \<subseteq> dom (ipfs_events d)"
      "ipfs_events d' = (ipfs_events d)(ID e \<mapsto> e)"
    | (duplicate) "r = Some (ErrDuplicateEvent (ID e))" "d' = d" "ID e \<in> dom (ipfs_events d)"
    | (orphan) msg where "r = Some (ErrInvalidEvent msg)" "Type e = SubEvent" "ParentID e = []"
      "ipfs_events d' = ipfs_events d"
    | (missing) p where "r = Some (ErrMissingParent p)" "p \<in> set (refs e) - dom (ipfs_events d)"
      "ipfs_events d' = ipfs_events d"
    | (unstored) msg where "r = Some (ErrIPFS msg)" "ipfs_events d' = ipfs_events d"
proof (cases "ID e \<in> dom (ipfs_events d)")
  case True
  with assms show thesis by (auto simp: ipfs_insert_def intro: duplicate)
next
  case False
  obtain s c where l: "ipfs_link_sub e (ipfs_events d) (ipfs_children d) = (s, c)" by fastforce
  obtain s2 c2 where l2: "ipfs_link_parents (ID e) (Parents e) (ipfs_events d) c = (s2, c2)" by fastforce
  note r = assms [unfolded ipfs_insert_def Let_def l l2 case_prod_conv]
  show thesis
  proof (cases s)
    case (Some err)
    with False r have r': "r = Some err" "ipfs_events d' = ipfs_events d" by (auto simp: domIff)
    from l Some consider "Type e = SubEvent" "ParentID e = []" "err = ErrInvalidEvent ''sub-event must have a parent ID''"
      | "Type e = SubEvent" "ipfs_events d (ParentID e) = None" "err = ErrMissingParent (ParentID e)"
      by (auto simp: ipfs_link_sub_def split: if_splits)
    then show thesis
      by cases (use r' in \<open>auto simp: refs_def domIff intro: orphan missing\<close>)
  next
    case None
    have sub: "Type e = SubEvent \<longrightarrow> ParentID e \<noteq> [] \<and> ParentID e \<in> dom (ipfs_events d)"
      using l None by (auto simp: ipfs_link_sub_def split: if_splits)
    show thesis
    proof (cases s2)
      case (Some err)
      with False None r have r': "r = Some err" "ipfs_events d' = ipfs_events d" by (auto simp: domIff)
      from ipfs_link_parents_Some [OF l2 [unfolded Some]] r' show thesis
        by (auto simp: refs_def intro: missing)
    next
      case s2: None
      have ps: "set (Parents e) \<subseteq> dom (ipfs_events d)" by (rule ipfs_link_parents_None [OF l2 [unfolded s2]])
      show thesis
      proof (cases "storeEvent N (ipfs_cfg d) e")
        case (Inl msg)
        with False None s2 r show thesis by (auto simp: domIff intro: unstored)
      next
        case (Inr cid)
        with False None s2 r have "r = None" "ipfs_events d' = (ipfs_events d)(ID e \<mapsto> e)"
          by (auto simp: domIff)
        with False sub ps show thesis by (intro added) (auto simp: refs_def)
      qed
    qed
  qed
qed

definition ipfs_SetBeacon :: "string \<Rightarrow> beacon_anchor \<Rightarrow> ipfsDAG \<Rightarrow> ipfsDAG" where
  "ipfs_SetBeacon i a d = d\<lparr>ipfs_events := set_beacon i a (ipfs_events d)\<rparr>"

lemma ipfs_AddEvent_insert: "ID e \<noteq> [] \<Longrightarrow> ipfs_AddEvent L N (Some e) d = ipfs_insert N e d"
  by (simp add: ipfs_AddEvent_def ipfs_assign_id_def)

text \<open>The store meets the interface the pool relies on.\<close>

interpretation ipfs: dag_store "\<lambda>e. ipfs_AddEvent L N (Some e)" ipfs_events ipfs_SetBeacon
  for L :: cid_lib and N :: daemon
proof
  fix e s s'
  assume "ipfs_AddEvent L N (Some e) s = (None, s')" and ne: "ID e \<noteq> []"
  then have "ipfs_insert N e s = (None, s')" by (simp add: ipfs_AddEvent_insert)
  then show "addable (ipfs_events s) e \<and> same_graph ((ipfs_events s)(ID e \<mapsto> e)) (ipfs_events s') \<and>
      ipfs_events s' (ID e) = Some e \<and>
      (\<forall>i x y. ipfs_events s i = Some x \<longrightarrow> ipfs_events s' i = Some y \<longrightarrow> Beacon y = Beacon x)"
    by (cases rule: ipfs_insert_cases) (use ne in \<open>auto simp: addable_def\<close>)
next
  fix e s s' err
  assume "ipfs_AddEvent L N (Some e) s = (Some err, s')" and ne: "ID e \<noteq> []"
  then have "ipfs_insert N e s = (Some err, s')" by (simp add: ipfs_AddEvent_insert)
  then have "ipfs_events s' = ipfs_events s" by (cases rule: ipfs_insert_cases) auto
  then show "same_graph (ipfs_events s) (ipfs_events s') \<and>
      (\<forall>i x y. ipfs_events s i = Some x \<longrightarrow> ipfs_events s' i = Some y \<longrightarrow> Beacon y = Beacon x)" by auto
next
  fix e s s' p
  assume "ipfs_AddEvent L N (Some e) s = (Some (ErrMissingParent p), s')" and ne: "ID e \<noteq> []"
  then have "ipfs_insert N e s = (Some (ErrMissingParent p), s')" by (simp add: ipfs_AddEvent_insert)
  then show "p \<in> set (refs e) - dom (ipfs_events s)" by (cases rule: ipfs_insert_cases) auto
next
  fix e s s' msg
  assume "ipfs_AddEvent L N (Some e) s = (Some (ErrInvalidEvent msg), s')" and ne: "ID e \<noteq> []"
  then have "ipfs_insert N e s = (Some (ErrInvalidEvent msg), s')" by (simp add: ipfs_AddEvent_insert)
  then show "Type e = SubEvent \<and> ParentID e = []" by (cases rule: ipfs_insert_cases) auto
next
  fix i a s
  show "ipfs_events (ipfs_SetBeacon i a s) = set_beacon i a (ipfs_events s)"
    by (simp add: ipfs_SetBeacon_def)
qed

end
