(* ===== verification/IpfsProps.thy ===== *)
theory IpfsProps
  imports IpfsDag MemoryProps SnapshotProps
begin

text \<open>
  Properties of the IPFS-backed store: its \<open>AddEvent\<close> refines that of the in-memory store, its
  \<open>Verify\<close> decides what it checks, stored documents read back as the same event, and the effects
  of failed writes and of reads that fetch.
\<close>

section \<open>The in-memory view\<close>

text \<open>
  The state seen as an in-memory store: each event with the children of the index.
\<close>

definition view :: "event_map \<Rightarrow> children_map \<Rightarrow> event_map" where
  "view m c = (\<lambda>i. map_option (\<lambda>e. e\<lparr>Children := kids_of c i\<rparr>) (m i))"

definition ipfs_view :: "ipfsDAG \<Rightarrow> memoryDAG" where
  "ipfs_view d = \<lparr>mem_events = view (ipfs_events d) (ipfs_children d)\<rparr>"

definition ipfs_index_ok :: "ipfsDAG \<Rightarrow> bool" where
  "ipfs_index_ok d \<longleftrightarrow> dom (ipfs_children d) \<subseteq> dom (ipfs_events d)"

lemma dom_view [simp]: "dom (view m c) = dom m"
  by (auto simp: view_def dom_def)

lemma view_None: "view m c i = None \<longleftrightarrow> m i = None"
  by (simp add: view_def)

lemma view_same_graph: "same_graph m (view m c)"
  by (auto simp: same_graph_def same_refs_def view_def dom_def)

lemma append_child_view: "m p \<noteq> None \<Longrightarrow> append_child p i (view m c) = view m (add_child p i c)"
  by (auto simp: append_child_def view_def kids_add_child fun_eq_iff split: option.splits)

lemma link_sub_view: "link_sub e (view m c) = map_prod id (view m) (ipfs_link_sub e m c)"
proof (cases "m (ParentID e)")
  case None
  then have "view m c (ParentID e) = None" by (simp add: view_None)
  with None show ?thesis by (simp add: link_sub_def ipfs_link_sub_def)
next
  case (Some x)
  then have "view m c (ParentID e) = Some (x\<lparr>Children := kids_of c (ParentID e)\<rparr>)" by (simp add: view_def)
  with Some show ?thesis by (simp add: link_sub_def ipfs_link_sub_def append_child_view)
qed

lemma link_parents_view:
  "link_parents i ps (view m c) = map_prod id (view m) (ipfs_link_parents i ps m c)"
proof (induction ps arbitrary: c)
  case Nil
  then show ?case by simp
next
  case (Cons p ps)
  show ?case
  proof (cases "m p")
    case None
    have "view m c p = None" using None by (simp add: view_def)
    with None show ?thesis by simp
  next
    case (Some e)
    then have "view m c p = Some (e\<lparr>Children := kids_of c p\<rparr>)" by (simp add: view_def)
    with Some Cons.IH show ?thesis by (simp add: append_child_view)
  qed
qed

lemma view_insert:
  assumes "c i = None" and "Children e = []"
  shows "(view m c)(i \<mapsto> e) = view (m(i \<mapsto> e)) c"
  using assms by (auto simp: view_def kids_of_def fun_eq_iff)

lemma kids_unlinked: "ipfs_index_ok d \<Longrightarrow> i \<notin> dom (ipfs_events d) \<Longrightarrow> ipfs_children d i = None"
  by (auto simp: ipfs_index_ok_def)

text \<open>Nothing the loops append concerns the new event's own entry.\<close>

lemma link_keeps_None:
  assumes "dom c \<subseteq> dom m" and "m i = None"
    and "ipfs_link_sub e m c = (None, c1)" and "ipfs_link_parents j ps m c1 = (r, c2)"
  shows "c2 i = None"
proof -
  have "dom c2 \<subseteq> dom m"
    by (rule dom_ipfs_link_parents [OF assms(4) dom_ipfs_link_sub [OF assms(3,1)]])
  with assms(2) show ?thesis by auto
qed

text \<open>C19: adding an event to the IPFS store does to its in-memory view exactly what the in-memory
  store's \<open>AddEvent\<close> does, with the same error or success and, on errors, the same half-done
  linking, whenever the daemon stores the event: the two back ends are interchangeable.\<close>

theorem ipfs_refines_memory:
  assumes "ipfs_index_ok d" and "ID e \<noteq> []" and "Children e = []"
    and "storeEvent N (ipfs_cfg d) e = Inr cid"
    and "ipfs_AddEvent L N (Some e) d = (r, d')"
  shows "memory_AddEvent (Some e) (ipfs_view d) = (r, ipfs_view d') \<and> ipfs_index_ok d'"
proof -
  let ?m = "ipfs_events d" and ?c = "ipfs_children d"
  have ins: "ipfs_insert N e d = (r, d')" using assms(2,5) by (simp add: ipfs_AddEvent_insert)
  have dc: "dom ?c \<subseteq> dom ?m" using assms(1) by (simp add: ipfs_index_ok_def)
  obtain s c1 where l: "ipfs_link_sub e ?m ?c = (s, c1)" by fastforce
  obtain s2 c2 where l2: "ipfs_link_parents (ID e) (Parents e) ?m c1 = (s2, c2)" by fastforce
  have d1: "dom c1 \<subseteq> dom ?m" by (rule dom_ipfs_link_sub [OF l dc])
  have d2: "dom c2 \<subseteq> dom ?m" by (rule dom_ipfs_link_parents [OF l2 d1])
  note r = ins [unfolded ipfs_insert_def Let_def l l2 case_prod_conv]
  have v: "mem_events (ipfs_view d) = view ?m ?c" by (simp add: ipfs_view_def)
  show ?thesis
  proof (cases "?m (ID e)")
    case (Some x)
    with r have "r = Some (ErrDuplicateEvent (ID e))" "d' = d" by auto
    moreover have "view ?m ?c (ID e) \<noteq> None" using Some by (simp add: view_def)
    ultimately show ?thesis using assms(1,2) by (auto simp: memory_AddEvent_def v)
  next
    case None
    then have vn: "view ?m ?c (ID e) = None" by (simp add: view_None)
    have ls: "link_sub e (view ?m ?c) = (s, view ?m c1)" by (simp add: link_sub_view l)
    have lp: "link_parents (ID e) (Parents e) (view ?m c1) = (s2, view ?m c2)"
      by (simp add: link_parents_view l2)
    note ma = memory_AddEvent_def [of "Some e" "ipfs_view d", unfolded v option.case ls case_prod_conv lp]
    show ?thesis
    proof (cases s)
      case (Some err)
      with r None have "r = Some err" "d' = d\<lparr>ipfs_children := c1\<rparr>" by simp_all
      with ma Some vn assms(2) d1 show ?thesis by (simp add: ipfs_view_def ipfs_index_ok_def)
    next
      case s: None
      show ?thesis
      proof (cases s2)
        case (Some err)
        with r None s have "r = Some err" "d' = d\<lparr>ipfs_children := c2\<rparr>" by simp_all
        with ma Some s vn assms(2) d2 show ?thesis by (simp add: ipfs_view_def ipfs_index_ok_def)
      next
        case s2: None
        with r None s assms(4)
        have d': "r = None" "d' = d\<lparr>ipfs_children := c2, ipfs_events := ?m(ID e \<mapsto> e)\<rparr>" by simp_all
        have "c2 (ID e) = None" using None d2 by (auto simp: domIff)
        from view_insert [of c2 "ID e" e ?m, OF this assms(3)] ma s s2 vn assms(2) d' d2
        show ?thesis by (auto simp: ipfs_view_def ipfs_index_ok_def)
      qed
    qed
  qed
qed

text \<open>A daemon that answers everything with one document, and one that refuses every connection.\<close>

definition serving :: "json \<Rightarrow> daemon" where
  "serving j = \<lparr>new_request = (\<lambda>_. None),
     do_post = (\<lambda>_ _. Inr \<lparr>status = 200, resp_body = Inr (json_marshal j)\<rparr>), multipart = (\<lambda>b. b)\<rparr>"

definition kind_daemon :: daemon where
  "kind_daemon = serving (JObj [(''Name'', JStr ''event.json''), (''Hash'', JStr ''Qm''), (''Size'', JStr ''1'')])"

definition refusing_daemon :: daemon where
  "refusing_daemon = \<lparr>new_request = (\<lambda>_. None), do_post = (\<lambda>_ _. Inl ''connection refused''), multipart = (\<lambda>b. b)\<rparr>"

lemma kind_daemon_stores: "storeEvent kind_daemon cfg e = Inr ''Qm''"
proof -
  let ?j = "JObj [(''Name'', JStr ''event.json''), (''Hash'', JStr ''Qm''), (''Size'', JStr ''1'')]"
  have "reads_back maxNestingDepth ?j"
    by (simp add: reads_back_obj maxNestingDepth_def reads_back_string [unfolded enc_string_def] valid_utf8_ascii ord_def)
  moreover have "dec_add_response ?j \<lparr>Add_Hash = [], Add_Name = [], Add_Size = []\<rparr> =
      Some \<lparr>Add_Hash = ''Qm'', Add_Name = ''event.json'', Add_Size = ''1''\<rparr>"
    by (simp add: dec_add_response_def dec_struct_def field_match_def on_field_def ascii_lower_def between_def ord_def)
  ultimately show ?thesis
    by (simp add: storeEvent_def kind_daemon_def serving_def decode_body_def json_decode_marshal)
qed

definition ipfs_empty :: ipfsDAG where
  "ipfs_empty = \<lparr>ipfs_cfg = \<lparr>APIURL = ''u'', IndexPath = [], ConnectTimeout = 1, OperationTimeout = 1\<rparr>,
     ipfs_events = (\<lambda>_. None), ipfs_children = (\<lambda>_. None)\<rparr>"

theorem ipfs_refines_memory_witness:
  "\<exists>d'. ipfs_AddEvent \<lparr>mh_sum = Inr, cid_string = map char_of_byte\<rparr> kind_daemon (Some (main_ev ''1'' [])) ipfs_empty = (None, d') \<and>
     memory_AddEvent (Some (main_ev ''1'' [])) (ipfs_view ipfs_empty) = (None, ipfs_view d')"
proof -
  let ?e = "main_ev ''1'' []"
  have a: "ipfs_index_ok ipfs_empty" "ID ?e \<noteq> []" "Children ?e = []"
    by (simp_all add: ipfs_index_ok_def ipfs_empty_def main_ev_def)
  obtain r d' where add: "ipfs_AddEvent \<lparr>mh_sum = Inr, cid_string = map char_of_byte\<rparr> kind_daemon (Some ?e) ipfs_empty = (r, d')" by fastforce
  have ref: "memory_AddEvent (Some ?e) (ipfs_view ipfs_empty) = (r, ipfs_view d')"
    using ipfs_refines_memory [OF a kind_daemon_stores add] by blast
  have "r = None" using add
    by (simp add: ipfs_AddEvent_insert main_ev_def ipfs_insert_def ipfs_empty_def ipfs_link_sub_def
        kind_daemon_stores)
  with add ref show ?thesis by auto
qed

section \<open>Verification\<close>

text \<open>The verdict on a store without nil events, and how it differs from the in-memory store's.\<close>

lemma ipfs_Verify_verdicts:
  assumes "range_order (ipfs_events d) ks1" and "range_order (ipfs_events d) ks2"
  shows "\<exists>r r'. ipfs_Verify ks1 ks2 d = Done r \<and> memory_Verify ks1 ks2 (ipfs_view d) = Done r' \<and>
    (r = None \<longleftrightarrow> refs_ok (ipfs_events d) \<and> acyclic (edges (ipfs_events d))) \<and>
    (r' = None \<longleftrightarrow> r = None \<and>
       (\<forall>i c. i \<in> dom (ipfs_events d) \<longrightarrow> c \<in> set (kids_of (ipfs_children d) i) \<longrightarrow> c \<in> dom (ipfs_events d)))"
proof -
  let ?m = "ipfs_events d" and ?v = "view (ipfs_events d) (ipfs_children d)"
  have o: "range_order (mem_events (ipfs_view d)) ks1" "range_order (mem_events (ipfs_view d)) ks2"
    using assms by (simp_all add: range_order_def ipfs_view_def)
  have e: "edges ?v = edges ?m"
    by (auto simp: edges_def view_def)
  have rf: "refs_ok ?v = refs_ok ?m"
    using same_graph_refs_ok [OF view_same_graph] same_graph_refs_ok [OF same_graph_sym [OF view_same_graph]]
    by blast
  have ce: "children_exist ?v \<longleftrightarrow>
      (\<forall>i c. i \<in> dom ?m \<longrightarrow> c \<in> set (kids_of (ipfs_children d) i) \<longrightarrow> c \<in> dom ?m)"
  proof -
    have "children_exist ?v \<longleftrightarrow> (\<forall>i e. ?m i = Some e \<longrightarrow> set (kids_of (ipfs_children d) i) \<subseteq> dom ?m)"
    proof -
      have "?v i = Some x \<longleftrightarrow> (\<exists>e. ?m i = Some e \<and> x = e\<lparr>Children := kids_of (ipfs_children d) i\<rparr>)" for i x
        by (auto simp: view_def)
      then show ?thesis unfolding children_exist_def dom_view by fastforce
    qed
    also have "\<dots> \<longleftrightarrow> (\<forall>i. i \<in> dom ?m \<longrightarrow> set (kids_of (ipfs_children d) i) \<subseteq> dom ?m)" by blast
    finally show ?thesis by blast
  qed
  obtain r' where r': "memory_Verify ks1 ks2 (ipfs_view d) = Done r'"
    "r' = None \<longleftrightarrow> refs_ok ?v \<and> children_exist ?v \<and> acyclic (edges ?v)"
    using memory_Verify_iff [OF o] by (auto simp: ipfs_view_def)
  have "\<exists>r. ipfs_Verify ks1 ks2 d = Done r \<and> (r = None \<longleftrightarrow> refs_ok ?m \<and> acyclic (edges ?m))"
  proof (cases "verify_refs (check_parent_refs ?m) ?m ks1")
    case (Some err)
    then have "\<not> refs_ok ?m" using verify_refs_refs_ok [OF assms(1)] by simp
    with Some show ?thesis by (simp add: ipfs_Verify_def)
  next
    case None
    then have ok: "refs_ok ?m" using verify_refs_refs_ok [OF assms(1)] by simp
    obtain r st where "checkAll ?m (Suc (length ks2)) ks2 ({}, {}) = Done (r, st)"
      and "r = None \<longleftrightarrow> acyclic (edges ?m)"
      using checkAll_result [of ?m ks2 "Suc (length ks2)"] assms(2) ok
      by (auto simp: range_order_finite range_order_card refs_ok_parents_ok range_order_def)
    with None ok show ?thesis by (simp add: ipfs_Verify_def)
  qed
  with r' e rf ce show ?thesis by auto
qed

section \<open>Stored documents\<close>

lemma dec_event_data_enc: "dec_event_data (enc_event_data d) zero_event_data = Some d"
proof -
  have "\<And>b. b \<noteq> None \<Longrightarrow> enc_beacon b \<noteq> JNull"
    by (auto simp: enc_beacon_def enc_anchor_def)
  then show ?thesis
    by (cases "D_ParentID d = []"; cases "D_Parents d = []"; cases "D_Data d = []"; cases "D_Beacon d = None")
      (simp_all add: dec_event_data_def enc_event_data_def dec_struct_def field_match_def on_field_def
        omit_empty_def zero_event_data_def dec_string_enc dec_event_type_enc dec_strings_enc
        dec_bytes_enc dec_beacon_enc ascii_lower_def between_def ord_def)
qed

lemma reads_back_event_data:
  assumes "valid_utf8 (D_ParentID d)" and "list_all valid_utf8 (D_Parents d)" and "2 < n"
  shows "reads_back n (enc_event_data d)"
proof -
  have "valid_utf8 ''type''" "valid_utf8 ''parent_id''" "valid_utf8 ''parents''" "valid_utf8 ''data''" "valid_utf8 ''beacon''"
    by (simp_all add: valid_utf8_ascii ord_def)
  with assms show ?thesis
    by (auto simp: enc_event_data_def reads_back_obj omit_empty_def reads_back_string reads_back_strings
        reads_back_bytes reads_back_beacon)
qed

lemma fetch_posted:
  assumes "new_request N (APIURL cfg @ ''/api/v0/cat?arg='' @ i) = None"
    and "do_post N (APIURL cfg @ ''/api/v0/cat?arg='' @ i) [] =
      Inr \<lparr>status = 200, resp_body = Inr (json_marshal (enc_event_data (event_content e)))\<rparr>"
    and "valid_utf8 (ParentID e)" and "list_all valid_utf8 (Parents e)"
  shows "fetchEvent N cfg i = Inr (e\<lparr>ID := i, Children := []\<rparr>)"
proof -
  have d: "dec_event_data (enc_event_data (event_content e)) zero_event_data = Some (event_content e)"
    by (rule dec_event_data_enc)
  have "reads_back maxNestingDepth (enc_event_data (event_content e))"
    using assms(3,4) by (intro reads_back_event_data) (simp_all add: event_content_def maxNestingDepth_def)
  moreover have "fetched_event i (event_content e) = e\<lparr>ID := i, Children := []\<rparr>"
    by (simp add: fetched_event_def event_content_def)
  ultimately show ?thesis using d assms(1,2)
    by (simp add: fetchEvent_def decode_body_def json_decode_marshal Let_def)
qed

text \<open>C22: if the daemon answers a fetch with the document that \<open>storeEvent\<close> posted for an event, the
  fetch yields that event, anchor included, under the ID it was asked for and without children.\<close>

theorem ipfs_store_fetch:
  assumes "new_request N (APIURL cfg @ ''/api/v0/cat?arg='' @ i) = None"
    and "do_post N (APIURL cfg @ ''/api/v0/cat?arg='' @ i) [] =
      Inr \<lparr>status = 200, resp_body = Inr (json_marshal (enc_event_data (event_content e)))\<rparr>"
    and "valid_utf8 (ParentID e)" and "list_all valid_utf8 (Parents e)"
  shows "fetchEvent N cfg i = Inr (e\<lparr>ID := i, Children := []\<rparr>)"
  by (rule fetch_posted) (fact assms)+

theorem ipfs_store_fetch_witness:
  "fetchEvent (serving (enc_event_data (event_content (sub_ev ''s'' ''m'' [''p'']))))
     (ipfs_cfg ipfs_empty) ''s'' = Inr (sub_ev ''s'' ''m'' [''p''])"
proof -
  let ?e = "sub_ev ''s'' ''m'' [''p'']"
  have v: "valid_utf8 (ParentID ?e)" "list_all valid_utf8 (Parents ?e)"
    by (simp_all add: sub_ev_def valid_utf8_ascii ord_def)
  have "fetchEvent (serving (enc_event_data (event_content ?e))) (ipfs_cfg ipfs_empty) ''s'' =
      Inr (?e\<lparr>ID := ''s'', Children := []\<rparr>)"
    by (rule ipfs_store_fetch [OF _ _ v]) (simp_all add: serving_def)
  then show ?thesis by (simp add: sub_ev_def)
qed

section \<open>Failed writes and fetching reads\<close>

lemma ipfs_link_parents_kids:
  "set ps \<subseteq> dom m \<Longrightarrow> \<exists>c'. ipfs_link_parents i ps m c = (None, c') \<and>
     (\<forall>q. set (kids_of c q) \<subseteq> set (kids_of c' q)) \<and> (\<forall>q \<in> set ps. i \<in> set (kids_of c' q))"
proof (induction ps arbitrary: c)
  case Nil
  then show ?case by simp
next
  case (Cons p ps)
  then have "m p \<noteq> None" by auto
  moreover obtain c' where c': "ipfs_link_parents i ps m (add_child p i c) = (None, c')"
    "\<And>q. set (kids_of (add_child p i c) q) \<subseteq> set (kids_of c' q)"
    "\<And>q. q \<in> set ps \<Longrightarrow> i \<in> set (kids_of c' q)"
    using Cons.IH [of "add_child p i c"] Cons.prems by auto
  moreover have "set (kids_of c q) \<subseteq> set (kids_of c' q)" for q
    using c'(2) [of q] by (auto simp: kids_add_child split: if_splits)
  moreover have "i \<in> set (kids_of c' p)" using c'(2) [of p] by (simp add: kids_add_child)
  ultimately show ?case by auto
qed

lemma ipfs_link_sub_addable:
  "addable m e \<Longrightarrow> \<exists>c'. ipfs_link_sub e m c = (None, c') \<and>
     (Type e = SubEvent \<longrightarrow> ID e \<in> set (kids_of c' (ParentID e)))"
  by (auto simp: ipfs_link_sub_def addable_def refs_def kids_add_child)

lemma ipfs_get_all_missing:
  assumes "\<And>i. \<exists>err. fetchEvent N (ipfs_cfg d) i = Inl err" and "x \<in> set is"
    and "x \<notin> dom (ipfs_events d)"
  shows "\<exists>err. ipfs_get_all wrap N is d = (Inl err, d)"
  using assms(2)
proof (induction "is")
  case Nil
  then show ?case by simp
next
  case (Cons i "is")
  have g: "ipfs_GetEvent N i d = (Inl ErrEmptyID, d) \<or> ipfs_GetEvent N i d = (Inl ErrNotFound, d)"
    if "i \<notin> dom (ipfs_events d)" for i
    using assms(1) [of i] that by (auto simp: ipfs_GetEvent_def domIff)
  show ?case
  proof (cases "i = [] \<or> i \<notin> dom (ipfs_events d)")
    case True
    then show ?thesis
    proof
      assume "i = []"
      then have "ipfs_GetEvent N i d = (Inl ErrEmptyID, d)" by (simp add: ipfs_GetEvent_def)
      then show ?thesis by auto
    next
      assume "i \<notin> dom (ipfs_events d)"
      then show ?thesis using g [of i] by auto
    qed
  next
    case False
    then obtain e where "ipfs_GetEvent N i d = (Inr e, d)" by (auto simp: ipfs_GetEvent_def)
    moreover have "x \<in> set is" using False Cons.prems assms(3) by auto
    ultimately show ?thesis using Cons.IH by auto
  qed
qed

text \<open>When the daemon refuses a document, \<open>AddEvent\<close> fails and the event is not stored, but its ID
  stays among the children of every event it references: reading the children of such an event
  then fails as well, for as long as the daemon cannot supply the missing child.\<close>

lemma ipfs_failed_store_dangles:
  assumes "addable (ipfs_events d) e" and "p \<in> set (refs e)" and "p \<noteq> []"
    and "storeEvent N (ipfs_cfg d) e = Inl msg"
    and "\<And>i. \<exists>err. fetchEvent N (ipfs_cfg d) i = Inl err"
  shows "\<exists>d' err. ipfs_AddEvent L N (Some e) d = (Some (ErrIPFS msg), d') \<and>
    ipfs_events d' = ipfs_events d \<and> ID e \<in> set (kids_of (ipfs_children d') p) \<and>
    fst (ipfs_GetChildren N p d') = Inl err"
proof -
  let ?m = "ipfs_events d"
  have ne: "ID e \<noteq> []" "?m (ID e) = None" and ps: "set (Parents e) \<subseteq> dom ?m"
    using assms(1) by (auto simp: addable_def refs_def)
  obtain c1 where l: "ipfs_link_sub e ?m (ipfs_children d) = (None, c1)"
    "Type e = SubEvent \<longrightarrow> ID e \<in> set (kids_of c1 (ParentID e))"
    using ipfs_link_sub_addable [OF assms(1)] by blast
  obtain c2 where l2: "ipfs_link_parents (ID e) (Parents e) ?m c1 = (None, c2)"
    "\<And>q. set (kids_of c1 q) \<subseteq> set (kids_of c2 q)" "\<And>q. q \<in> set (Parents e) \<Longrightarrow> ID e \<in> set (kids_of c2 q)"
    using ipfs_link_parents_kids [OF ps] by blast
  let ?d = "d\<lparr>ipfs_children := c2\<rparr>"
  have add: "ipfs_AddEvent L N (Some e) d = (Some (ErrIPFS msg), ?d)"
    using ne l(1) l2(1) assms(4) by (simp add: ipfs_AddEvent_insert ipfs_insert_def)
  have k: "ID e \<in> set (kids_of c2 p)"
    using assms(2) l(2) l2(2) [of "ParentID e"] l2(3) by (auto simp: refs_def split: if_splits)
  then have "\<exists>err. ipfs_get_all ErrChildFetch N (kids_of c2 p) ?d = (Inl err, ?d)"
    using assms(5) ne by (intro ipfs_get_all_missing) (auto simp: domIff)
  then have "\<exists>err. fst (ipfs_GetChildren N p ?d) = Inl err" using assms(3) by (auto simp: ipfs_GetChildren_def)
  with add k show ?thesis by (intro exI [of _ ?d]) simp
qed

text \<open>\<open>GetEvent\<close> returns a stored event with the children of the index and changes nothing;
  otherwise it asks the daemon, reports \<open>ErrNotFound\<close> whatever went wrong, and caches what it got
  in the graph without checking its references: after fetching an event one of whose parents is not
  stored, \<open>Verify\<close> fails.\<close>

lemma ipfs_GetEvent_effect:
  assumes "i \<noteq> []"
  shows "(\<forall>e. ipfs_events d i = Some e \<longrightarrow>
      ipfs_GetEvent N i d = (Inr (e\<lparr>Children := kids_of (ipfs_children d) i\<rparr>), d)) \<and>
    (ipfs_events d i = None \<longrightarrow> (\<forall>err. fetchEvent N (ipfs_cfg d) i = Inl err \<longrightarrow>
      ipfs_GetEvent N i d = (Inl ErrNotFound, d))) \<and>
    (ipfs_events d i = None \<longrightarrow> (\<forall>e. fetchEvent N (ipfs_cfg d) i = Inr e \<longrightarrow>
      (\<exists>x d'. ipfs_GetEvent N i d = (Inr x, d') \<and> x = e\<lparr>Children := kids_of (ipfs_children d) i\<rparr> \<and>
         ipfs_events d' = (ipfs_events d)(i \<mapsto> x) \<and>
         (\<forall>p ks1 ks2. p \<in> set (Parents e) \<longrightarrow> p \<notin> insert i (dom (ipfs_events d)) \<longrightarrow>
            range_order (ipfs_events d') ks1 \<longrightarrow> range_order (ipfs_events d') ks2 \<longrightarrow>
            (\<exists>err. ipfs_Verify ks1 ks2 d' = Done (Some err))))))"
proof -
  have "\<exists>err. ipfs_Verify ks1 ks2 d' = Done (Some err)"
    if m: "ipfs_events d' = (ipfs_events d)(i \<mapsto> x)" and p: "p \<in> set (Parents x)"
      "p \<notin> insert i (dom (ipfs_events d))" and o: "range_order (ipfs_events d') ks1" for d' x p ks1 ks2
  proof -
    have dm: "dom (ipfs_events d') = insert i (dom (ipfs_events d))" by (simp add: m)
    have "ipfs_events d' i = Some x" by (simp add: m)
    moreover have "p \<in> set (refs x)" using p(1) by (simp add: refs_def)
    moreover have "p \<notin> dom (ipfs_events d')" unfolding dm by (rule p(2))
    ultimately have "\<not> refs_ok (ipfs_events d')" using refs_okD by blast
    then have "verify_refs (check_parent_refs (ipfs_events d')) (ipfs_events d') ks1 \<noteq> None"
      using verify_refs_refs_ok [OF o] by simp
    then show ?thesis by (auto simp: ipfs_Verify_def)
  qed
  then show ?thesis using assms by (auto simp: ipfs_GetEvent_def Let_def)
qed

end
