(* ===== verification/NilEvents.thy ===== *)
theory NilEvents
  imports IpfsProps
begin

text \<open>
  The stores as \<open>Import\<close> can leave them. The Go map of a store holds event pointers, and a JSON \<open>null\<close>
  where a snapshot should have an event becomes a nil pointer, stored under its ID. The methods of
  \<open>src/dag/memory.go\<close> and those of \<open>src/dag/ipfs.go\<close> that look into stored events are defined here over
  maps of pointers, with the panics of nil dereferences; on a store without nil events they are the
  definitions of the other theories, and no other operation than \<open>Import\<close> stores a nil event.
\<close>

section \<open>Maps of pointers\<close>

text \<open>
  \<open>deref m i\<close>: the event that \<open>m[i]\<close> points to, read without the presence flag; a missing key and a nil
  pointer both give no event.
\<close>

definition deref :: "raw_events \<Rightarrow> event_map" where
  "deref m = (\<lambda>i. case m i of Some (Some e) \<Rightarrow> Some e | _ \<Rightarrow> None)"

definition nil_free :: "raw_events \<Rightarrow> bool" where
  "nil_free m \<longleftrightarrow> (\<forall>i. m i \<noteq> Some None)"

definition ptrs_to :: "event_map \<Rightarrow> raw_events" where
  "ptrs_to m = (\<lambda>i. map_option Some (m i))"

lemma deref_Some [simp]: "deref m i = Some e \<longleftrightarrow> m i = Some (Some e)"
  by (auto simp: deref_def split: option.splits)

lemma deref_ptrs_to [simp]: "deref (ptrs_to m) = m"
  by (auto simp: deref_def ptrs_to_def fun_eq_iff split: option.splits)

lemma nil_free_ptrs_to [simp]: "nil_free (ptrs_to m)"
  by (simp add: nil_free_def ptrs_to_def)

lemma dom_ptrs_to [simp]: "dom (ptrs_to m) = dom m"
  by (auto simp: ptrs_to_def dom_def)

lemma ptrs_to_deref: "nil_free m \<Longrightarrow> ptrs_to (deref m) = m"
  by (rule ext) (auto simp: nil_free_def deref_def ptrs_to_def split: option.splits)

lemma deref_missing: "nil_free m \<Longrightarrow> deref m i = None \<longleftrightarrow> m i = None"
  by (auto simp: nil_free_def deref_def split: option.splits)

lemma dom_deref: "nil_free m \<Longrightarrow> dom (deref m) = dom m"
  by (auto simp: dom_def deref_missing simp del: not_None_eq)

lemma ptrs_to_upd: "ptrs_to (m(i \<mapsto> e)) = (ptrs_to m)(i \<mapsto> Some e)"
  by (auto simp: ptrs_to_def fun_eq_iff)

record memory_ptrs =
  mem_ptrs :: raw_events

record ipfs_ptrs =
  iptr_cfg :: ipfs_config
  iptr_events :: raw_events
  iptr_children :: children_map

definition memory_to_ptrs :: "memoryDAG \<Rightarrow> memory_ptrs" where
  "memory_to_ptrs d = \<lparr>mem_ptrs = ptrs_to (mem_events d)\<rparr>"

definition ipfs_to_ptrs :: "ipfsDAG \<Rightarrow> ipfs_ptrs" where
  "ipfs_to_ptrs d = \<lparr>iptr_cfg = ipfs_cfg d, iptr_events = ptrs_to (ipfs_events d), iptr_children = ipfs_children d\<rparr>"

definition ipfs_proper :: "ipfs_ptrs \<Rightarrow> ipfsDAG" where
  "ipfs_proper d = \<lparr>ipfs_cfg = iptr_cfg d, ipfs_events = deref (iptr_events d), ipfs_children = iptr_children d\<rparr>"

section \<open>Adding and reading\<close>

definition ptr_append_child :: "string \<Rightarrow> string \<Rightarrow> raw_events \<Rightarrow> raw_events exec" where
  "ptr_append_child p c m =
     (case deref m p of None \<Rightarrow> Panic | Some e \<Rightarrow> Done (m(p \<mapsto> Some (e\<lparr>Children := Children e @ [c]\<rparr>))))"

definition ptr_link_sub :: "event \<Rightarrow> raw_events \<Rightarrow> (dag_error option \<times> raw_events) exec" where
  "ptr_link_sub e m =
     (if Type e = SubEvent then
        (if ParentID e = [] then Done (Some (ErrInvalidEvent ''sub-event must have a parent ID''), m)
         else if m (ParentID e) = None then Done (Some (ErrMissingParent (ParentID e)), m)
         else exec_bind (ptr_append_child (ParentID e) (ID e) m) (\<lambda>m. Done (None, m)))
      else Done (None, m))"

fun ptr_link_parents :: "string \<Rightarrow> string list \<Rightarrow> raw_events \<Rightarrow> (dag_error option \<times> raw_events) exec" where
  "ptr_link_parents c [] m = Done (None, m)"
| "ptr_link_parents c (p # ps) m =
     (if m p = None then Done (Some (ErrMissingParent p), m)
      else exec_bind (ptr_append_child p c m) (ptr_link_parents c ps))"

definition ptr_AddEvent :: "event option \<Rightarrow> memory_ptrs \<Rightarrow> (dag_error option \<times> memory_ptrs) exec" where
  "ptr_AddEvent ev d =
     (case ev of
        None \<Rightarrow> Done (Some (ErrInvalidEvent ''event cannot be nil''), d)
      | Some e \<Rightarrow>
          (if ID e = [] then Done (Some (ErrInvalidEvent ''event ID cannot be empty''), d)
           else if mem_ptrs d (ID e) \<noteq> None then Done (Some (ErrDuplicateEvent (ID e)), d)
           else
             exec_bind (ptr_link_sub e (mem_ptrs d)) (\<lambda>(r, m).
               case r of
                 Some err \<Rightarrow> Done (Some err, d\<lparr>mem_ptrs := m\<rparr>)
               | None \<Rightarrow>
                   exec_bind (ptr_link_parents (ID e) (Parents e) m) (\<lambda>(r, m).
                     case r of
                       Some err \<Rightarrow> Done (Some err, d\<lparr>mem_ptrs := m\<rparr>)
                     | None \<Rightarrow> Done (None, d\<lparr>mem_ptrs := m(ID e \<mapsto> Some e)\<rparr>)))))"

text \<open>\<open>GetEvent\<close> returns a nil event without an error; the lists of the next two may contain nil events.\<close>

definition ptr_GetEvent :: "string \<Rightarrow> memory_ptrs \<Rightarrow> dag_error + event option" where
  "ptr_GetEvent i d =
     (if i = [] then Inl ErrEmptyID
      else (case mem_ptrs d i of None \<Rightarrow> Inl ErrNotFound | Some e \<Rightarrow> Inr e))"

fun ptr_collect :: "(string \<Rightarrow> dag_error) \<Rightarrow> raw_events \<Rightarrow> string list \<Rightarrow> dag_error + event option list" where
  "ptr_collect err m [] = Inr []"
| "ptr_collect err m (i # is) =
     (case m i of
        None \<Rightarrow> Inl (err i)
      | Some e \<Rightarrow> (case ptr_collect err m is of Inl x \<Rightarrow> Inl x | Inr es \<Rightarrow> Inr (e # es)))"

definition ptr_GetParents :: "string \<Rightarrow> memory_ptrs \<Rightarrow> (dag_error + event option list) exec" where
  "ptr_GetParents i d =
     (if i = [] then Done (Inl ErrEmptyID)
      else
        (case mem_ptrs d i of
           None \<Rightarrow> Done (Inl ErrNotFound)
         | Some None \<Rightarrow> Panic
         | Some (Some e) \<Rightarrow> Done (ptr_collect ErrMissingParent (mem_ptrs d) (Parents e))))"

definition ptr_GetChildren :: "string \<Rightarrow> memory_ptrs \<Rightarrow> (dag_error + event option list) exec" where
  "ptr_GetChildren i d =
     (if i = [] then Done (Inl ErrEmptyID)
      else
        (case mem_ptrs d i of
           None \<Rightarrow> Done (Inl ErrNotFound)
         | Some None \<Rightarrow> Panic
         | Some (Some e) \<Rightarrow> Done (ptr_collect ErrNotFoundChild (mem_ptrs d) (Children e))))"

fun ptr_main_events :: "raw_events \<Rightarrow> string list \<Rightarrow> event list exec" where
  "ptr_main_events m [] = Done []"
| "ptr_main_events m (k # ks) =
     (case m k of
        None \<Rightarrow> ptr_main_events m ks
      | Some None \<Rightarrow> Panic
      | Some (Some e) \<Rightarrow>
          exec_bind (ptr_main_events m ks) (\<lambda>es. Done (if Type e = MainEvent then e # es else es)))"

definition ptr_GetMainEvents :: "string list \<Rightarrow> memory_ptrs \<Rightarrow> event list exec" where
  "ptr_GetMainEvents ks d = ptr_main_events (mem_ptrs d) ks"

text \<open>\<open>Import\<close> into the in-memory store keeps what was decoded, nil events included.\<close>

definition ptr_Import :: "string list \<Rightarrow> bytes \<Rightarrow> memory_ptrs \<Rightarrow> (import_error option \<times> memory_ptrs) exec" where
  "ptr_Import cks body d =
     (case ImportDAG body of
        Inl err \<Rightarrow> Done (Some err, d)
      | Inr (events, children) \<Rightarrow>
          exec_bind (restore_children children cks events) (\<lambda>m. Done (None, d\<lparr>mem_ptrs := m\<rparr>)))"

definition ptr_ipfs_Import :: "bytes \<Rightarrow> ipfs_ptrs \<Rightarrow> import_error option \<times> ipfs_ptrs" where
  "ptr_ipfs_Import body d =
     (case ImportDAG body of
        Inl err \<Rightarrow> (Some err, d)
      | Inr (events, children) \<Rightarrow> (None, d\<lparr>iptr_events := events, iptr_children := children\<rparr>))"

text \<open>\<open>Export\<close> reads the children of every event; after that there is no nil event left to encode.\<close>

fun ptr_children :: "raw_events \<Rightarrow> string list \<Rightarrow> children_map \<Rightarrow> children_map exec" where
  "ptr_children m [] c = Done c"
| "ptr_children m (k # ks) c =
     (case m k of
        None \<Rightarrow> ptr_children m ks c
      | Some None \<Rightarrow> Panic
      | Some (Some e) \<Rightarrow>
          ptr_children m ks (if length (Children e) > 0 then c(ID e \<mapsto> Children e) else c))"

definition ptr_Export ::
    "(bytes \<Rightarrow> string option) \<Rightarrow> string list \<Rightarrow> memory_ptrs \<Rightarrow> (string + bytes) exec" where
  "ptr_Export write ks d =
     (let m = deref (mem_ptrs d)
      in exec_bind (ptr_children (mem_ptrs d) ks (\<lambda>_. None))
           (\<lambda>c. Done (ExportDAG write ks m (child_keys m ks) c)))"

text \<open>\<open>*event\<close> in \<open>GetEvent\<close> of the IPFS store, where the ID is in the index.\<close>

definition ptr_ipfs_GetEvent :: "daemon \<Rightarrow> string \<Rightarrow> ipfs_ptrs \<Rightarrow> ((dag_error + event) \<times> ipfs_ptrs) exec" where
  "ptr_ipfs_GetEvent N i d =
     (if i = [] then Done (Inl ErrEmptyID, d)
      else
        (case iptr_events d i of
           Some None \<Rightarrow> Panic
         | Some (Some e) \<Rightarrow> Done (Inr (e\<lparr>Children := kids_of (iptr_children d) i\<rparr>), d)
         | None \<Rightarrow>
             (case fetchEvent N (iptr_cfg d) i of
                Inl _ \<Rightarrow> Done (Inl ErrNotFound, d)
              | Inr e \<Rightarrow>
                  (let e = e\<lparr>Children := kids_of (iptr_children d) i\<rparr>
                   in Done (Inr e, d\<lparr>iptr_events := (iptr_events d)(i \<mapsto> Some e)\<rparr>)))))"

section \<open>Verifying\<close>

fun ptr_verify_refs ::
    "(string \<Rightarrow> event \<Rightarrow> dag_error option) \<Rightarrow> raw_events \<Rightarrow> string list \<Rightarrow> dag_error option exec" where
  "ptr_verify_refs chk m [] = Done None"
| "ptr_verify_refs chk m (i # is) =
     (case m i of
        None \<Rightarrow> ptr_verify_refs chk m is
      | Some None \<Rightarrow> Panic
      | Some (Some e) \<Rightarrow>
          (case chk i e of Some err \<Rightarrow> Done (Some err) | None \<Rightarrow> ptr_verify_refs chk m is))"

text \<open>The search for cycles reads \<open>d.events[id]\<close> without the presence flag: it works on \<open>deref\<close>.\<close>

definition ptr_cycles :: "raw_events \<Rightarrow> string list \<Rightarrow> dag_error option exec" where
  "ptr_cycles m ks = exec_bind (checkAll (deref m) (Suc (length ks)) ks ({}, {})) (\<lambda>(r, st). Done r)"

definition ptr_Verify :: "string list \<Rightarrow> string list \<Rightarrow> memory_ptrs \<Rightarrow> dag_error option exec" where
  "ptr_Verify ks1 ks2 d =
     (let m = mem_ptrs d;
          chk = (\<lambda>i e. case check_parent_refs m i e of
                         Some err \<Rightarrow> Some err | None \<Rightarrow> check_child_refs m i e)
      in exec_bind (ptr_verify_refs chk m ks1)
           (\<lambda>r. case r of Some err \<Rightarrow> Done (Some err) | None \<Rightarrow> ptr_cycles m ks2))"

definition ptr_ipfs_Verify :: "string list \<Rightarrow> string list \<Rightarrow> ipfs_ptrs \<Rightarrow> dag_error option exec" where
  "ptr_ipfs_Verify ks1 ks2 d =
     (let m = iptr_events d
      in exec_bind (ptr_verify_refs (check_parent_refs m) m ks1)
           (\<lambda>r. case r of Some err \<Rightarrow> Done (Some err) | None \<Rightarrow> ptr_cycles m ks2))"

section \<open>The traversal of \<open>GetSubEvents\<close>\<close>

function (sequential) ptr_traverse ::
    "kids \<Rightarrow> raw_events \<Rightarrow> string \<Rightarrow> nat \<Rightarrow> string \<Rightarrow> trav_state \<Rightarrow>
       (dag_error option \<times> trav_state) exec"
  and ptr_traverseAll ::
    "kids \<Rightarrow> raw_events \<Rightarrow> string \<Rightarrow> nat \<Rightarrow> string list \<Rightarrow> trav_state \<Rightarrow>
       (dag_error option \<times> trav_state) exec" where
  "ptr_traverse k m root 0 i st = OutOfFuel"
| "ptr_traverse k m root (Suc n) i (visited, subs) =
     (if i \<in> visited then Done (None, visited, subs)
      else
        (case m i of
           None \<Rightarrow> Done (Some (ErrTraversal i), insert i visited, subs)
         | Some None \<Rightarrow> Panic
         | Some (Some e) \<Rightarrow>
             (if is_sub_of root e
              then ptr_traverseAll k m root n (k i e) (insert i visited, subs @ [e])
              else Done (None, insert i visited, subs))))"
| "ptr_traverseAll k m root n [] st = Done (None, st)"
| "ptr_traverseAll k m root n (c # cs) st =
     exec_bind (ptr_traverse k m root n c st)
       (\<lambda>(r, st'). case r of Some err \<Rightarrow> Done (Some err, st')
                           | None \<Rightarrow> ptr_traverseAll k m root n cs st')"
  by pat_completeness auto
termination
  by (relation "measures
        [\<lambda>x. case x of Inl (k, m, r, n, i, st) \<Rightarrow> n | Inr (k, m, r, n, cs, st) \<Rightarrow> n,
         \<lambda>x. case x of Inl (k, m, r, n, i, st) \<Rightarrow> 0 | Inr (k, m, r, n, cs, st) \<Rightarrow> Suc (length cs)]")
    auto

definition ptr_GetSubEvents :: "nat \<Rightarrow> string \<Rightarrow> memory_ptrs \<Rightarrow> (dag_error + event list) exec" where
  "ptr_GetSubEvents n i d =
     (if i = [] then Done (Inl ErrEmptyID)
      else
        (case mem_ptrs d i of
           None \<Rightarrow> Done (Inl ErrNotFound)
         | Some None \<Rightarrow> Panic
         | Some (Some e) \<Rightarrow>
             exec_bind (ptr_traverseAll memory_kids (mem_ptrs d) i n (Children e) ({}, []))
               (\<lambda>(r, visited, subs). Done (case r of Some err \<Rightarrow> Inl err | None \<Rightarrow> Inr subs))))"

definition ptr_ipfs_GetSubEvents :: "nat \<Rightarrow> string \<Rightarrow> ipfs_ptrs \<Rightarrow> (dag_error + event list) exec" where
  "ptr_ipfs_GetSubEvents n i d =
     (if i = [] then Done (Inl ErrEmptyID)
      else if iptr_events d i = None then Done (Inl ErrNotFound)
      else
        exec_bind (ptr_traverseAll (ipfs_kids (iptr_children d)) (iptr_events d) i n
            (kids_of (iptr_children d) i) ({}, []))
          (\<lambda>(r, visited, subs). Done (case r of Some err \<Rightarrow> Inl err | None \<Rightarrow> Inr subs)))"

end
