(* ===== verification/NilProps.thy ===== *)
theory NilProps
  imports NilEvents
begin

text \<open>
  What the methods do on stores with nil events: they agree with the definitions of the other theories
  where there are none, and panic exactly where they meet one.
\<close>

section \<open>Stores without nil events\<close>

lemma ptrs_to_Some: "ptrs_to m i = Some x \<longleftrightarrow> (\<exists>e. x = Some e \<and> m i = Some e)"
  by (auto simp: ptrs_to_def)

lemma ptrs_to_None [simp]: "ptrs_to m i = None \<longleftrightarrow> m i = None"
  by (simp add: ptrs_to_def)

lemma checks_ptrs_to:
  "check_parent_refs (ptrs_to m) = check_parent_refs m"
  "check_child_refs (ptrs_to m) = check_child_refs m"
  by (simp_all add: check_parent_refs_def check_child_refs_def fun_eq_iff)

lemma ptr_append_child_ptrs_to:
  "m p \<noteq> None \<Longrightarrow> ptr_append_child p c (ptrs_to m) = Done (ptrs_to (append_child p c m))"
  by (auto simp: ptr_append_child_def append_child_def ptrs_to_upd)

lemma ptr_link_sub_ptrs_to:
  "ptr_link_sub e (ptrs_to m) = Done (map_prod id ptrs_to (link_sub e m))"
  by (auto simp: ptr_link_sub_def link_sub_def ptr_append_child_ptrs_to split: option.split)

lemma ptr_link_parents_ptrs_to:
  "ptr_link_parents c ps (ptrs_to m) = Done (map_prod id ptrs_to (link_parents c ps m))"
  by (induction ps arbitrary: m) (auto simp: ptr_append_child_ptrs_to split: option.split)

lemma ptr_AddEvent_agrees:
  "ptr_AddEvent ev (memory_to_ptrs d) = Done (map_prod id memory_to_ptrs (memory_AddEvent ev d))"
proof (cases ev)
  case None
  then show ?thesis by (simp add: ptr_AddEvent_def memory_AddEvent_def)
next
  case (Some e)
  obtain r m where l: "link_sub e (mem_events d) = (r, m)" by fastforce
  obtain r2 m2 where l2: "link_parents (ID e) (Parents e) m = (r2, m2)" by fastforce
  from Some l l2 show ?thesis
    by (cases r; cases r2) (auto simp: ptr_AddEvent_def memory_AddEvent_def memory_to_ptrs_def
      ptr_link_sub_ptrs_to ptr_link_parents_ptrs_to ptrs_to_upd)
qed

lemma ptr_GetEvent_agrees:
  "ptr_GetEvent i (memory_to_ptrs d) = map_sum id Some (memory_GetEvent i d)"
  by (simp add: ptr_GetEvent_def memory_GetEvent_def memory_to_ptrs_def ptrs_to_def split: option.split)

lemma ptr_collect_ptrs_to: "ptr_collect err (ptrs_to m) is = map_sum id (map Some) (collect_events err m is)"
  by (induction "is") (auto simp: ptrs_to_def split: option.split sum.split)

lemma ptr_GetParents_agrees:
  "ptr_GetParents i (memory_to_ptrs d) = Done (map_sum id (map Some) (memory_GetParents i d))"
  by (simp add: ptr_GetParents_def memory_GetParents_def memory_to_ptrs_def ptr_collect_ptrs_to ptrs_to_Some
      split: option.split)

lemma ptr_GetChildren_agrees:
  "ptr_GetChildren i (memory_to_ptrs d) = Done (map_sum id (map Some) (memory_GetChildren i d))"
  by (simp add: ptr_GetChildren_def memory_GetChildren_def memory_to_ptrs_def ptr_collect_ptrs_to ptrs_to_Some
      split: option.split)

lemma ptr_GetMainEvents_agrees:
  "ptr_GetMainEvents ks (memory_to_ptrs d) = Done (memory_GetMainEvents ks d)"
proof -
  have "ptr_main_events (ptrs_to m) ks = Done (filter (\<lambda>e. Type e = MainEvent) (List.map_filter m ks))" for m
    by (induction ks) (auto simp: ptrs_to_def map_filter_simps split: option.split)
  then show ?thesis by (simp add: ptr_GetMainEvents_def memory_GetMainEvents_def memory_to_ptrs_def)
qed

lemma ptr_Export_agrees:
  "ptr_Export write ks (memory_to_ptrs d) = Done (memory_Export write ks d)"
proof -
  have "ptr_children (ptrs_to m) ks c = Done (mem_children m ks c)" for m c
    by (induction ks arbitrary: c) (auto simp: ptrs_to_def split: option.split)
  then show ?thesis by (simp add: ptr_Export_def memory_Export_def memory_to_ptrs_def Let_def)
qed

lemma ptr_verify_refs_ptrs_to: "ptr_verify_refs chk (ptrs_to m) is = Done (verify_refs chk m is)"
  by (induction "is") (auto simp: ptrs_to_def split: option.split)

lemma ptr_Verify_agrees: "ptr_Verify ks1 ks2 (memory_to_ptrs d) = memory_Verify ks1 ks2 d"
  unfolding ptr_Verify_def memory_to_ptrs_def memory_ptrs.simps Let_def ptr_verify_refs_ptrs_to checks_ptrs_to
    memory_Verify_def ptr_cycles_def deref_ptrs_to by (simp split: option.split)

lemma ptr_ipfs_Verify_agrees: "ptr_ipfs_Verify ks1 ks2 (ipfs_to_ptrs d) = ipfs_Verify ks1 ks2 d"
  by (simp add: ptr_ipfs_Verify_def ipfs_Verify_def ipfs_to_ptrs_def ptr_verify_refs_ptrs_to checks_ptrs_to
      ptr_cycles_def Let_def split: option.split)

lemma ptr_traverse_ptrs_to:
  "ptr_traverse k (ptrs_to m) root n i st = traverse k m root n i st"
  "ptr_traverseAll k (ptrs_to m) root n cs st = traverseAll k m root n cs st"
proof (induction k m root n i st and k m root n cs st rule: traverse_traverseAll.induct)
  case (2 k m root n i visited subs)
  then show ?case by (auto simp: ptrs_to_def split: option.split)
next
  case (4 k m root n c cs st)
  then show ?case by (auto intro!: exec_bind_cong split: option.split)
qed simp_all

lemma ptr_GetSubEvents_agrees: "ptr_GetSubEvents n i (memory_to_ptrs d) = memory_GetSubEvents n i d"
  by (simp add: ptr_GetSubEvents_def memory_GetSubEvents_def memory_to_ptrs_def ptr_traverse_ptrs_to ptrs_to_Some
      split: option.split)

lemma ptr_ipfs_GetSubEvents_agrees: "ptr_ipfs_GetSubEvents n i (ipfs_to_ptrs d) = ipfs_GetSubEvents n i d"
  by (simp add: ptr_ipfs_GetSubEvents_def ipfs_GetSubEvents_def ipfs_to_ptrs_def ptr_traverse_ptrs_to)

lemma ptr_ipfs_GetEvent_agrees:
  "ptr_ipfs_GetEvent N i (ipfs_to_ptrs d) = Done (map_prod id ipfs_to_ptrs (ipfs_GetEvent N i d))"
  by (auto simp: ptr_ipfs_GetEvent_def ipfs_GetEvent_def ipfs_to_ptrs_def ptrs_to_Some ptrs_to_upd Let_def
      split: option.split sum.split)

section \<open>Verifying a store with nil events\<close>

text \<open>
  Every reference of a proper event has an entry in the map (which may be nil), and so has every child.
\<close>

definition ptr_refs_ok :: "raw_events \<Rightarrow> bool" where
  "ptr_refs_ok m \<longleftrightarrow> (\<forall>i e. m i = Some (Some e) \<longrightarrow>
     (Type e = SubEvent \<longrightarrow> ParentID e \<noteq> [] \<and> ParentID e \<in> dom m) \<and> set (Parents e) \<subseteq> dom m)"

definition ptr_children_exist :: "raw_events \<Rightarrow> bool" where
  "ptr_children_exist m \<longleftrightarrow> (\<forall>i e. m i = Some (Some e) \<longrightarrow> set (Children e) \<subseteq> dom m)"

definition ptr_order :: "raw_events \<Rightarrow> string list \<Rightarrow> bool" where
  "ptr_order m ks \<longleftrightarrow> distinct ks \<and> set ks = dom m"

lemma ptr_order_range: "nil_free m \<Longrightarrow> ptr_order m ks \<Longrightarrow> range_order (deref m) ks"
  by (simp add: ptr_order_def range_order_def dom_deref)

text \<open>The first loop: it ends without a panic only if it saw no nil event before an error.\<close>

lemma ptr_verify_refs_None:
  "ptr_verify_refs chk m is = Done None \<longleftrightarrow>
     (\<forall>i \<in> set is. m i \<noteq> Some None \<and> (\<forall>e. m i = Some (Some e) \<longrightarrow> chk i e = None))"
  by (induction "is") (auto split: option.splits)

lemma ptr_verify_refs_total: "ptr_verify_refs chk m is \<noteq> OutOfFuel"
  by (induction "is") (auto split: option.splits)

lemma ptr_verify_refs_Panic:
  "i \<in> set is \<Longrightarrow> m i = Some None \<Longrightarrow> \<forall>j e. m j = Some (Some e) \<longrightarrow> chk j e = None \<Longrightarrow>
     ptr_verify_refs chk m is = Panic"
  by (induction "is") (auto split: option.splits)

lemma ptr_verify_nil:
  assumes "\<not> nil_free m" and "ptr_order m ks"
  shows "(\<exists>err. ptr_verify_refs chk m ks = Done (Some err)) \<or> ptr_verify_refs chk m ks = Panic"
    and "\<forall>j e. m j = Some (Some e) \<longrightarrow> chk j e = None \<Longrightarrow> ptr_verify_refs chk m ks = Panic"
proof -
  obtain i where i: "m i = Some None" using assms(1) by (auto simp: nil_free_def)
  then have ik: "i \<in> set ks" using assms(2) by (auto simp: ptr_order_def)
  with i have "ptr_verify_refs chk m ks \<noteq> Done None" by (auto simp: ptr_verify_refs_None)
  with ptr_verify_refs_total [of chk m ks]
  show "(\<exists>err. ptr_verify_refs chk m ks = Done (Some err)) \<or> ptr_verify_refs chk m ks = Panic"
    by (cases "ptr_verify_refs chk m ks") auto
  show "ptr_verify_refs chk m ks = Panic" if "\<forall>j e. m j = Some (Some e) \<longrightarrow> chk j e = None"
    by (rule ptr_verify_refs_Panic [of i]) (use i ik that in auto)
qed

lemma ptr_memory_deref:
  "nil_free (mem_ptrs d) \<Longrightarrow> memory_to_ptrs \<lparr>mem_events = deref (mem_ptrs d)\<rparr> = d"
  by (simp add: memory_to_ptrs_def ptrs_to_deref)

lemma ptr_ipfs_deref: "nil_free (iptr_events d) \<Longrightarrow> ipfs_to_ptrs (ipfs_proper d) = d"
  by (simp add: ipfs_to_ptrs_def ipfs_proper_def ptrs_to_deref)

lemma acyclic_map_cycle: "\<not> acyclic (edges map_cycle)"
proof -
  have "(''a'', ''b'') \<in> edges map_cycle" "(''b'', ''a'') \<in> edges map_cycle"
    by (simp_all add: edges_def sample_defs)
  then show ?thesis unfolding acyclic_def by (meson trancl.intros)
qed

text \<open>C1: what \<open>memoryDAG.Verify\<close> decides, for every content of the store, nil events included, and
  every order in which Go ranges over it. It reports no error exactly when no event is nil, every
  \<open>ParentID\<close> of a sub-event, parent and child resolves, and the relation of \<open>Parents\<close> (not that of
  \<open>ParentID\<close>, see \<open>Verify_misses_ParentID_cycle\<close>) has no cycle. It always returns when no event is
  nil. A nil event, which only an import of \<open>null\<close> can store, makes it panic unless an error is found
  first, so it panics for certain when all references of the proper events resolve.\<close>

theorem memory_Verify_decides:
  assumes "ptr_order (mem_ptrs d) ks1" and "ptr_order (mem_ptrs d) ks2"
  shows "(ptr_Verify ks1 ks2 d = Done None \<longleftrightarrow>
       nil_free (mem_ptrs d) \<and> refs_ok (deref (mem_ptrs d)) \<and> children_exist (deref (mem_ptrs d)) \<and>
       acyclic (edges (deref (mem_ptrs d)))) \<and>
    (nil_free (mem_ptrs d) \<longrightarrow> (\<exists>r. ptr_Verify ks1 ks2 d = Done r)) \<and>
    (\<not> nil_free (mem_ptrs d) \<longrightarrow> ptr_Verify ks1 ks2 d = Panic \<or> (\<exists>err. ptr_Verify ks1 ks2 d = Done (Some err))) \<and>
    (\<not> nil_free (mem_ptrs d) \<and> ptr_refs_ok (mem_ptrs d) \<and> ptr_children_exist (mem_ptrs d) \<longrightarrow>
       ptr_Verify ks1 ks2 d = Panic)"
proof (cases "nil_free (mem_ptrs d)")
  case True
  note o = ptr_order_range [OF True assms(1)] ptr_order_range [OF True assms(2)]
  have v: "ptr_Verify ks1 ks2 d = memory_Verify ks1 ks2 \<lparr>mem_events = deref (mem_ptrs d)\<rparr>"
    using ptr_Verify_agrees [of ks1 ks2 "\<lparr>mem_events = deref (mem_ptrs d)\<rparr>"] ptr_memory_deref [OF True] by simp
  show ?thesis
    unfolding v using memory_Verify_iff [of "\<lparr>mem_events = deref (mem_ptrs d)\<rparr>" ks1 ks2] o True by auto
next
  case False
  let ?m = "mem_ptrs d"
  let ?chk = "\<lambda>i e. case check_parent_refs ?m i e of
      Some err \<Rightarrow> Some err | None \<Rightarrow> check_child_refs ?m i e"
  have p: "ptr_Verify ks1 ks2 d = Panic" if "ptr_verify_refs ?chk ?m ks1 = Panic"
    using that by (simp add: ptr_Verify_def Let_def)
  have q: "ptr_Verify ks1 ks2 d = Done (Some err)" if "ptr_verify_refs ?chk ?m ks1 = Done (Some err)" for err
    using that by (simp add: ptr_Verify_def Let_def)
  have ok: "\<forall>j e. ?m j = Some (Some e) \<longrightarrow> ?chk j e = None" if "ptr_refs_ok ?m" "ptr_children_exist ?m"
  proof (intro allI impI)
    fix j e assume "?m j = Some (Some e)"
    with that have "check_parent_refs ?m j e = None" "check_child_refs ?m j e = None"
      unfolding check_parent_refs_None check_child_refs_None ptr_refs_ok_def ptr_children_exist_def by blast+
    then show "?chk j e = None" by simp
  qed
  have "ptr_Verify ks1 ks2 d = Panic \<or> (\<exists>err. ptr_Verify ks1 ks2 d = Done (Some err))"
    using ptr_verify_nil(1) [OF False assms(1), of ?chk] p q by blast
  moreover have "ptr_Verify ks1 ks2 d = Panic" if "ptr_refs_ok ?m" "ptr_children_exist ?m"
    by (rule p [OF ptr_verify_nil(2) [OF False assms(1) ok [OF that]]])
  ultimately show ?thesis using False by auto
qed

theorem memory_Verify_decides_witness:
  "ptr_Verify [''a'', ''b''] [''b'', ''a''] \<lparr>mem_ptrs = (ptrs_to map_cycle)(''a'' \<mapsto> None)\<rparr> = Panic \<and>
   (\<exists>r. ptr_Verify [''a'', ''b''] [''b'', ''a''] \<lparr>mem_ptrs = ptrs_to map_cycle\<rparr> = Done (Some r))"
proof -
  let ?m = "(ptrs_to map_cycle)(''a'' \<mapsto> None)"
  have o: "ptr_order ?m [''a'', ''b'']" "ptr_order ?m [''b'', ''a'']"
    "ptr_order (ptrs_to map_cycle) [''a'', ''b'']" "ptr_order (ptrs_to map_cycle) [''b'', ''a'']"
    by (auto simp: ptr_order_def map_cycle_def split: if_splits)
  have "\<not> nil_free ?m" by (auto simp: nil_free_def)
  moreover have "ptr_refs_ok ?m" "ptr_children_exist ?m"
    by (auto simp: ptr_refs_ok_def ptr_children_exist_def ptrs_to_Some sample_defs split: if_splits)
  ultimately have "ptr_Verify [''a'', ''b''] [''b'', ''a''] \<lparr>mem_ptrs = ?m\<rparr> = Panic"
    using memory_Verify_decides [of "\<lparr>mem_ptrs = ?m\<rparr>" "[''a'', ''b'']" "[''b'', ''a'']"] o by simp
  moreover have "ptr_Verify [''a'', ''b''] [''b'', ''a''] \<lparr>mem_ptrs = ptrs_to map_cycle\<rparr> \<noteq> Done None"
    "\<exists>r. ptr_Verify [''a'', ''b''] [''b'', ''a''] \<lparr>mem_ptrs = ptrs_to map_cycle\<rparr> = Done r"
    using memory_Verify_decides [of "\<lparr>mem_ptrs = ptrs_to map_cycle\<rparr>" "[''a'', ''b'']" "[''b'', ''a'']"] o
      acyclic_map_cycle by simp_all
  ultimately show ?thesis by (metis not_None_eq)
qed

text \<open>C20: \<open>Verify\<close> of the IPFS store reports no error exactly when no event is nil, every parent and
  \<open>ParentID\<close> resolves, and the relation of \<open>Parents\<close> is acyclic (again not that of \<open>ParentID\<close>). Without
  nil events it always returns and, unlike the in-memory store's, it does not look at children: the
  two verdicts on the same contents differ exactly by dangling children. With a nil event it panics
  unless an error is found first, so for certain when all references of the proper events resolve.\<close>

theorem ipfs_Verify_decides:
  assumes "ptr_order (iptr_events d) ks1" and "ptr_order (iptr_events d) ks2"
  shows "(ptr_ipfs_Verify ks1 ks2 d = Done None \<longleftrightarrow>
       nil_free (iptr_events d) \<and> refs_ok (deref (iptr_events d)) \<and> acyclic (edges (deref (iptr_events d)))) \<and>
    (nil_free (iptr_events d) \<longrightarrow>
       (\<exists>r r'. ptr_ipfs_Verify ks1 ks2 d = Done r \<and> memory_Verify ks1 ks2 (ipfs_view (ipfs_proper d)) = Done r' \<and>
          (r' = None \<longleftrightarrow> r = None \<and> (\<forall>i c. i \<in> dom (iptr_events d) \<longrightarrow>
             c \<in> set (kids_of (iptr_children d) i) \<longrightarrow> c \<in> dom (iptr_events d))))) \<and>
    (\<not> nil_free (iptr_events d) \<longrightarrow>
       ptr_ipfs_Verify ks1 ks2 d = Panic \<or> (\<exists>err. ptr_ipfs_Verify ks1 ks2 d = Done (Some err))) \<and>
    (\<not> nil_free (iptr_events d) \<and> ptr_refs_ok (iptr_events d) \<longrightarrow> ptr_ipfs_Verify ks1 ks2 d = Panic)"
proof (cases "nil_free (iptr_events d)")
  case True
  have v: "ptr_ipfs_Verify ks1 ks2 d = ipfs_Verify ks1 ks2 (ipfs_proper d)"
    using ptr_ipfs_Verify_agrees [of ks1 ks2 "ipfs_proper d"] ptr_ipfs_deref [OF True] by simp
  have p: "ipfs_events (ipfs_proper d) = deref (iptr_events d)" "ipfs_children (ipfs_proper d) = iptr_children d"
    by (simp_all add: ipfs_proper_def)
  obtain r r' where "ipfs_Verify ks1 ks2 (ipfs_proper d) = Done r"
    "memory_Verify ks1 ks2 (ipfs_view (ipfs_proper d)) = Done r'"
    "r = None \<longleftrightarrow> refs_ok (deref (iptr_events d)) \<and> acyclic (edges (deref (iptr_events d)))"
    "r' = None \<longleftrightarrow> r = None \<and> (\<forall>i c. i \<in> dom (iptr_events d) \<longrightarrow>
       c \<in> set (kids_of (iptr_children d) i) \<longrightarrow> c \<in> dom (iptr_events d))"
    using ipfs_Verify_verdicts [of "ipfs_proper d" ks1 ks2] ptr_order_range [OF True assms(1)]
      ptr_order_range [OF True assms(2)] unfolding p dom_deref [OF True] by blast
  with True show ?thesis unfolding v by simp
next
  case False
  let ?m = "iptr_events d"
  have p: "ptr_ipfs_Verify ks1 ks2 d = Panic" if "ptr_verify_refs (check_parent_refs ?m) ?m ks1 = Panic"
    using that by (simp add: ptr_ipfs_Verify_def Let_def)
  have q: "ptr_ipfs_Verify ks1 ks2 d = Done (Some err)"
    if "ptr_verify_refs (check_parent_refs ?m) ?m ks1 = Done (Some err)" for err
    using that by (simp add: ptr_ipfs_Verify_def Let_def)
  have ok: "\<forall>j e. ?m j = Some (Some e) \<longrightarrow> check_parent_refs ?m j e = None" if "ptr_refs_ok ?m"
    using that unfolding check_parent_refs_None ptr_refs_ok_def by blast
  have "ptr_ipfs_Verify ks1 ks2 d = Panic \<or> (\<exists>err. ptr_ipfs_Verify ks1 ks2 d = Done (Some err))"
    using ptr_verify_nil(1) [OF False assms(1), of "check_parent_refs ?m"] p q by blast
  moreover have "ptr_ipfs_Verify ks1 ks2 d = Panic" if "ptr_refs_ok ?m"
    by (rule p [OF ptr_verify_nil(2) [OF False assms(1) ok [OF that]]])
  ultimately show ?thesis using False by auto
qed

theorem ipfs_Verify_decides_witness:
  "\<exists>r. ptr_ipfs_Verify [''a'', ''b''] [''b'', ''a''] (ipfs_to_ptrs (ipfs_empty\<lparr>ipfs_events := map_cycle\<rparr>)) = Done (Some r)"
proof -
  let ?d = "ipfs_to_ptrs (ipfs_empty\<lparr>ipfs_events := map_cycle\<rparr>)"
  have e: "iptr_events ?d = ptrs_to map_cycle" by (simp add: ipfs_to_ptrs_def)
  have o: "ptr_order (iptr_events ?d) [''a'', ''b'']" "ptr_order (iptr_events ?d) [''b'', ''a'']"
    unfolding e by (auto simp: ptr_order_def map_cycle_def split: if_splits)
  have "ptr_ipfs_Verify [''a'', ''b''] [''b'', ''a''] ?d \<noteq> Done None"
    "\<exists>r. ptr_ipfs_Verify [''a'', ''b''] [''b'', ''a''] ?d = Done r"
    using ipfs_Verify_decides [OF o] acyclic_map_cycle unfolding e by auto
  then show ?thesis by (metis not_None_eq)
qed

text \<open>
  A cycle through \<open>ParentID\<close> passes: two sub-events that name each other as the event they come from,
  which an import can bring in, satisfy both \<open>Verify\<close> methods, although the interface promises that they
  check for cycles in event relationships.
\<close>

lemma Verify_misses_ParentID_cycle:
  defines "m \<equiv> [''a'' \<mapsto> sub_ev ''a'' ''b'' [], ''b'' \<mapsto> sub_ev ''b'' ''a'' []] :: event_map"
  shows "\<not> acyclic (causal_edges m) \<and>
    memory_Verify [''a'', ''b''] [''a'', ''b''] \<lparr>mem_events = m\<rparr> = Done None \<and>
    ipfs_Verify [''a'', ''b''] [''a'', ''b''] (ipfs_empty\<lparr>ipfs_events := m\<rparr>) = Done None"
proof -
  have "(''a'', ''b'') \<in> causal_edges m" "(''b'', ''a'') \<in> causal_edges m"
    by (simp_all add: causal_edges_def refs_def m_def sub_ev_def)
  then have "\<not> acyclic (causal_edges m)" unfolding acyclic_def by (meson trancl.intros)
  moreover have o: "range_order m [''a'', ''b'']" by (auto simp: range_order_def m_def split: if_splits)
  moreover have "refs_ok m" "children_exist m"
    by (auto simp: refs_ok_def children_exist_def m_def sub_ev_def split: if_splits)
  moreover have "edges m = {}" by (auto simp: edges_def m_def sub_ev_def split: if_splits)
  then have "acyclic (edges m)" by (simp add: acyclic_def)
  ultimately show ?thesis
    using memory_Verify_iff [of "\<lparr>mem_events = m\<rparr>" "[''a'', ''b'']" "[''a'', ''b'']"]
      ipfs_Verify_verdicts [of "ipfs_empty\<lparr>ipfs_events := m\<rparr>" "[''a'', ''b'']" "[''a'', ''b'']"] by auto
qed

section \<open>The traversal of a store with nil events\<close>

text \<open>The steps the traversal makes: from a sub-event of the root to its children.\<close>

definition sub_edges :: "kids \<Rightarrow> raw_events \<Rightarrow> string \<Rightarrow> (string \<times> string) set" where
  "sub_edges k m root = {(i, j). \<exists>e. m i = Some (Some e) \<and> is_sub_of root e \<and> j \<in> set (k i e)}"

definition reaches_nil :: "kids \<Rightarrow> raw_events \<Rightarrow> string \<Rightarrow> string set \<Rightarrow> bool" where
  "reaches_nil k m root T \<longleftrightarrow> (\<exists>c \<in> T. \<exists>j. (c, j) \<in> (sub_edges k m root)\<^sup>* \<and> m j = Some None)"

text \<open>
  What a call promises: it does not run out of fuel, what it has visited besides \<open>V\<close> is not nil and, if
  there was no error, closed under the steps; a panic means that a nil event was reached.
\<close>

definition ptr_post ::
    "kids \<Rightarrow> raw_events \<Rightarrow> string \<Rightarrow> string set \<Rightarrow> string set \<Rightarrow> (dag_error option \<times> trav_state) exec \<Rightarrow> bool" where
  "ptr_post k m root V T res \<longleftrightarrow>
     (case res of
        Done (r, V', subs) \<Rightarrow> V \<subseteq> V' \<and> (\<forall>j \<in> V' - V. m j \<noteq> Some None) \<and>
          (r = None \<longrightarrow> T \<subseteq> V' \<and> sub_edges k m root `` (V' - V) \<subseteq> V') \<and>
          (T \<subseteq> dom m \<and> (\<forall>i e. m i = Some (Some e) \<longrightarrow> set (k i e) \<subseteq> dom m) \<longrightarrow> r = None)
      | Panic \<Rightarrow> reaches_nil k m root T
      | OutOfFuel \<Rightarrow> False)"

lemma reaches_nil_step:
  "(i, j) \<in> sub_edges k m root \<Longrightarrow> reaches_nil k m root {j} \<Longrightarrow> reaches_nil k m root {i}"
  by (auto simp: reaches_nil_def intro: converse_rtrancl_into_rtrancl)

lemma reaches_nil_mono: "reaches_nil k m root T \<Longrightarrow> T \<subseteq> T' \<Longrightarrow> reaches_nil k m root T'"
  by (auto simp: reaches_nil_def)

lemma reaches_nil_kids:
  assumes "m i = Some (Some e)" and "is_sub_of root e" and "reaches_nil k m root (set (k i e))"
  shows "reaches_nil k m root {i}"
proof -
  from assms(3) obtain c where "c \<in> set (k i e)" "reaches_nil k m root {c}" by (auto simp: reaches_nil_def)
  with assms(1,2) show ?thesis by (intro reaches_nil_step [of i c]) (auto simp: sub_edges_def)
qed

lemma ptr_post_visit:
  assumes e: "m i = Some (Some e)" and i: "i \<notin> V"
    and res: "ptr_post k m root (insert i V) (if is_sub_of root e then set (k i e) else {}) res"
  shows "ptr_post k m root V {i} res"
proof (cases res)
  case (Done x)
  obtain r V' subs where x: "x = (r, V', subs)" by (cases x) auto
  have d: "V' - V \<subseteq> insert i (V' - insert i V)" by auto
  have out: "sub_edges k m root `` {i} \<subseteq> (if is_sub_of root e then set (k i e) else {})"
    using e by (auto simp: sub_edges_def)
  from res have b: "insert i V \<subseteq> V'" "\<forall>j \<in> V' - insert i V. m j \<noteq> Some None"
    "r = None \<Longrightarrow> (if is_sub_of root e then set (k i e) else {}) \<subseteq> V' \<and> sub_edges k m root `` (V' - insert i V) \<subseteq> V'"
    "(\<forall>i e. m i = Some (Some e) \<longrightarrow> set (k i e) \<subseteq> dom m) \<Longrightarrow> r = None"
    using e by (auto simp: ptr_post_def Done x split: if_splits)
  have "sub_edges k m root `` (V' - V) \<subseteq> V'" if "r = None"
  proof -
    have "sub_edges k m root `` (V' - V) \<subseteq> sub_edges k m root `` {i} \<union> sub_edges k m root `` (V' - insert i V)"
      using d by blast
    with b(3) [OF that] out show ?thesis by blast
  qed
  moreover have "\<forall>j \<in> V' - V. m j \<noteq> Some None" using b(2) d e by auto
  ultimately show ?thesis using b(1,4) by (auto simp: ptr_post_def Done x)
next
  case Panic
  with res e reaches_nil_kids [of m i e root k] show ?thesis
    by (auto simp: ptr_post_def reaches_nil_def split: if_splits)
next
  case OutOfFuel
  with res show ?thesis by (simp add: ptr_post_def)
qed

lemma ptr_post_seq:
  assumes "ptr_post k m root V {c} (Done (None, V1, subs1))" and "ptr_post k m root V1 T res"
  shows "ptr_post k m root V (insert c T) res"
proof (cases res)
  case (Done x)
  obtain r V' subs where x: "x = (r, V', subs)" by (cases x) auto
  from assms(1) have a: "V \<subseteq> V1" "\<forall>j \<in> V1 - V. m j \<noteq> Some None" "c \<in> V1" "sub_edges k m root `` (V1 - V) \<subseteq> V1"
    by (simp_all add: ptr_post_def)
  from assms(2) have b: "V1 \<subseteq> V'" "\<forall>j \<in> V' - V1. m j \<noteq> Some None"
    "r = None \<Longrightarrow> T \<subseteq> V' \<and> sub_edges k m root `` (V' - V1) \<subseteq> V'"
    "T \<subseteq> dom m \<Longrightarrow> (\<forall>i e. m i = Some (Some e) \<longrightarrow> set (k i e) \<subseteq> dom m) \<Longrightarrow> r = None"
    by (simp_all add: ptr_post_def Done x)
  have d: "V' - V = (V' - V1) \<union> (V1 - V)" using a(1) b(1) by blast
  have "\<forall>j \<in> V' - V. m j \<noteq> Some None" unfolding d using a(2) b(2) by blast
  moreover have "sub_edges k m root `` (V' - V) \<subseteq> V'" if "r = None"
    unfolding d using a(4) b(1) b(3) [OF that] by blast
  ultimately show ?thesis using a(1,3) b(1,3,4) by (auto simp: ptr_post_def Done x)
next
  case Panic
  with assms(2) reaches_nil_mono [of k m root T "insert c T"] show ?thesis by (auto simp: ptr_post_def)
next
  case OutOfFuel
  with assms(2) show ?thesis by (simp add: ptr_post_def)
qed

lemma ptr_traverse_post:
  "finite (dom m) \<Longrightarrow> card (dom m - fst st) < n \<Longrightarrow>
     ptr_post k m root (fst st) {i} (ptr_traverse k m root n i st)"
  "finite (dom m) \<Longrightarrow> card (dom m - fst st) < n \<Longrightarrow>
     ptr_post k m root (fst st) (set cs) (ptr_traverseAll k m root n cs st)"
proof (induction k m root n i st and k m root n cs st rule: ptr_traverse_ptr_traverseAll.induct)
  case (1 k m root i st)
  then show ?case by simp
next
  case (2 k m root n i V subs)
  show ?case
  proof (cases "i \<in> V")
    case True
    then show ?thesis by (simp add: ptr_post_def)
  next
    case iV: False
    consider "m i = None" | "m i = Some None" | e where "m i = Some (Some e)"
      by (cases "m i") auto
    then show ?thesis
    proof cases
      case 1
      with iV show ?thesis by (auto simp: ptr_post_def)
    next
      case 2
      with iV show ?thesis by (auto simp: ptr_post_def reaches_nil_def)
    next
      case 3
      have "ptr_post k m root (insert i V) (if is_sub_of root e then set (k i e) else {})
          (ptr_traverse k m root (Suc n) i (V, subs))"
      proof (cases "is_sub_of root e")
        case True
        have "card (dom m - insert i V) < n"
          using "2.prems" 3 iV by (intro card_diff_insert_less) auto
        with "2.IH" [OF iV 3 refl True] "2.prems" iV 3 True show ?thesis by simp
      next
        case False
        with iV 3 show ?thesis by (auto simp: ptr_post_def)
      qed
      from ptr_post_visit [OF 3 iV this] show ?thesis by simp
    qed
  qed
next
  case (3 k m root n st)
  then show ?case by (cases st) (simp add: ptr_post_def)
next
  case (4 k m root n c cs st)
  have p1: "ptr_post k m root (fst st) {c} (ptr_traverse k m root n c st)" by (rule "4.IH"(1) [OF "4.prems"])
  show ?case
  proof (cases "ptr_traverse k m root n c st")
    case (Done x)
    obtain r V' subs' where x: "x = (r, V', subs')" by (cases x) auto
    show ?thesis
    proof (cases r)
      case (Some err)
      with p1 Done x show ?thesis by (auto simp: ptr_post_def)
    next
      case None
      with p1 Done x have "fst st \<subseteq> V'" by (simp add: ptr_post_def)
      then have "card (dom m - V') < n" using "4.prems" card_diff_mono_less by blast
      with "4.IH"(2) [OF Done x [symmetric] None] "4.prems"
      have "ptr_post k m root V' (set cs) (ptr_traverseAll k m root n cs (V', subs'))" by simp
      from ptr_post_seq [OF p1 [unfolded Done x None] this] Done x None show ?thesis by simp
    qed
  next
    case Panic
    with p1 reaches_nil_mono [of k m root "{c}" "set (c # cs)"] show ?thesis by (simp add: ptr_post_def)
  next
    case OutOfFuel
    with p1 show ?thesis by (simp add: ptr_post_def)
  qed
qed

text \<open>From the empty state: without dangling children it panics exactly if it can reach a nil event.\<close>

lemma ptr_traversal:
  assumes "finite (dom m)" and "card (dom m) < n"
  shows "ptr_traverseAll k m root n cs ({}, []) \<noteq> OutOfFuel \<and>
    (ptr_traverseAll k m root n cs ({}, []) = Panic \<longrightarrow> reaches_nil k m root (set cs)) \<and>
    (reaches_nil k m root (set cs) \<and> set cs \<subseteq> dom m \<and>
       (\<forall>i e. m i = Some (Some e) \<longrightarrow> set (k i e) \<subseteq> dom m) \<longrightarrow>
     ptr_traverseAll k m root n cs ({}, []) = Panic)"
proof -
  have p: "ptr_post k m root {} (set cs) (ptr_traverseAll k m root n cs ({}, []))"
    using ptr_traverse_post(2) [of m "({}, [])" n k root cs] assms by simp
  show ?thesis
  proof (cases "ptr_traverseAll k m root n cs ({}, [])")
    case (Done x)
    obtain r V' subs where x: "x = (r, V', subs)" by (cases x) auto
    have "\<not> reaches_nil k m root (set cs)"
      if "set cs \<subseteq> dom m" "\<forall>i e. m i = Some (Some e) \<longrightarrow> set (k i e) \<subseteq> dom m"
    proof
      assume "reaches_nil k m root (set cs)"
      then obtain c j where c: "c \<in> set cs" and j: "(c, j) \<in> (sub_edges k m root)\<^sup>*" "m j = Some None"
        by (auto simp: reaches_nil_def)
      from p Done x that have "set cs \<subseteq> V'" "sub_edges k m root `` V' \<subseteq> V'" "\<forall>j \<in> V'. m j \<noteq> Some None"
        by (simp_all add: ptr_post_def)
      with closed_rtrancl [of "sub_edges k m root" V' c j] c j show False by auto
    qed
    with Done show ?thesis by auto
  next
    case Panic
    with p show ?thesis by (simp add: ptr_post_def)
  next
    case OutOfFuel
    with p show ?thesis by (simp add: ptr_post_def)
  qed
qed

text \<open>C9: \<open>memoryDAG.GetSubEvents\<close> terminates on every content of the store, for every ID, also when
  children dangle, the stored graph has a cycle or events are nil: a recursion depth of one more than
  the number of entries is enough. It panics only if the event asked for is nil, or a nil event can be
  reached from it through children and sub-events of it; if all children have an entry in the map, it
  panics exactly then.\<close>

theorem memory_GetSubEvents_returns:
  fixes d :: memory_ptrs and i :: string
  defines "r \<equiv> ptr_GetSubEvents (Suc (card (dom (mem_ptrs d)))) i d"
    and "nil \<equiv> i \<noteq> [] \<and> (mem_ptrs d i = Some None \<or>
      (\<exists>e. mem_ptrs d i = Some (Some e) \<and> reaches_nil memory_kids (mem_ptrs d) i (set (Children e))))"
  assumes "finite (dom (mem_ptrs d))"
  shows "r \<noteq> OutOfFuel \<and> (r = Panic \<longrightarrow> nil) \<and> (ptr_children_exist (mem_ptrs d) \<and> nil \<longrightarrow> r = Panic)"
proof -
  let ?m = "mem_ptrs d"
  consider "i = []" | "i \<noteq> []" "?m i = None" | "i \<noteq> []" "?m i = Some None"
    | e where "i \<noteq> []" "?m i = Some (Some e)"
    by (cases "?m i") auto
  then show ?thesis
  proof cases
    case (4 e)
    let ?t = "ptr_traverseAll memory_kids ?m i (Suc (card (dom ?m))) (Children e) ({}, [])"
    have r: "r = exec_bind ?t (\<lambda>(r, visited, subs). Done (case r of Some err \<Rightarrow> Inl err | None \<Rightarrow> Inr subs))"
      using 4 by (simp add: r_def ptr_GetSubEvents_def)
    have "r = Panic \<longleftrightarrow> ?t = Panic" "r = OutOfFuel \<longleftrightarrow> ?t = OutOfFuel"
      unfolding r by (cases ?t; auto)+
    moreover have "nil \<longleftrightarrow> reaches_nil memory_kids ?m i (set (Children e))" using 4 by (simp add: nil_def)
    moreover have "set (Children e) \<subseteq> dom ?m \<and> (\<forall>i e. ?m i = Some (Some e) \<longrightarrow> set (memory_kids i e) \<subseteq> dom ?m)"
      if "ptr_children_exist ?m"
      using that 4(2) by (simp add: ptr_children_exist_def memory_kids_def)
    ultimately show ?thesis
      using ptr_traversal [OF assms(3) lessI, of memory_kids i "Children e"] by blast
  qed (simp_all add: r_def nil_def ptr_GetSubEvents_def)
qed

theorem memory_GetSubEvents_returns_witness:
  "ptr_GetSubEvents 3 ''a'' \<lparr>mem_ptrs = (ptrs_to map_ab)(''b'' \<mapsto> None)\<rparr> = Panic \<and>
   ptr_GetSubEvents 3 ''a'' \<lparr>mem_ptrs = ptrs_to map_ab\<rparr> \<noteq> Panic"
proof -
  let ?m = "(ptrs_to map_ab)(''b'' \<mapsto> None)"
  have a: "?m ''a'' = Some (Some ((main_ev ''a'' [])\<lparr>Children := [''b'']\<rparr>))"
    by (simp add: ptrs_to_def map_ab_def)
  have "dom ?m = {''a'', ''b''}" by auto
  then have c: "card (dom ?m) = 2" by simp
  have "reaches_nil memory_kids ?m ''a'' {''b''}" by (auto simp: reaches_nil_def)
  moreover have "ptr_children_exist ?m"
    by (auto simp: ptr_children_exist_def ptrs_to_Some sample_defs split: if_splits)
  ultimately have "ptr_GetSubEvents 3 ''a'' \<lparr>mem_ptrs = ?m\<rparr> = Panic"
    using memory_GetSubEvents_returns [of "\<lparr>mem_ptrs = ?m\<rparr>" "''a''"] a unfolding memory_ptrs.simps c
    by (simp add: eval_nat_numeral)
  moreover have "ptr_GetSubEvents 3 ''a'' \<lparr>mem_ptrs = ptrs_to map_ab\<rparr> \<noteq> Panic"
    using memory_GetSubEvents_returns [of "\<lparr>mem_ptrs = ptrs_to map_ab\<rparr>" "''a''"]
    by (simp add: reaches_nil_def ptrs_to_Some eval_nat_numeral)
  ultimately show ?thesis by blast
qed

section \<open>How a nil event gets into a store\<close>

text \<open>\<open>Import\<close> of the other theories tells the two cases apart: \<open>Imported\<close>, and \<open>ImportedNil\<close>.\<close>

lemma restore_children_dom: "restore_children c ps m = Done m' \<Longrightarrow> dom m' = dom m"
  by (induction ps arbitrary: m) (force split: option.splits)+

lemma ptr_Import_agrees:
  assumes "\<And>events children. ImportDAG body = Inr (events, children) \<Longrightarrow> set ks = dom events"
  shows "ptr_Import cks body p =
    exec_bind (memory_Import ks cks body d) (\<lambda>x. Done (case x of
        ImportFailed err \<Rightarrow> (Some err, p)
      | Imported d' \<Rightarrow> (None, memory_to_ptrs d')
      | ImportedNil m \<Rightarrow> (None, \<lparr>mem_ptrs = m\<rparr>)))"
proof (cases "ImportDAG body")
  case (Inl err)
  then show ?thesis by (simp add: ptr_Import_def memory_Import_def)
next
  case (Inr x)
  obtain events children where x: "ImportDAG body = Inr (events, children)" using Inr by (cases x) auto
  show ?thesis
  proof (cases "restore_children children cks events")
    case (Done m)
    have k: "set ks = dom m" using assms [OF x] restore_children_dom [OF Done] by simp
    have "list_ex (\<lambda>k. m k = Some None) ks \<longleftrightarrow> \<not> nil_free m"
      using k by (auto simp: list_ex_iff nil_free_def)
    moreover have "(\<lambda>k. case m k of Some (Some e) \<Rightarrow> Some e | _ \<Rightarrow> None) = deref m"
      by (simp add: deref_def)
    ultimately show ?thesis using x Done
      by (simp add: ptr_Import_def memory_Import_def from_raw_def memory_to_ptrs_def ptrs_to_deref)
  qed (simp_all add: ptr_Import_def memory_Import_def x)
qed

text \<open>Only \<open>Import\<close> stores nil events: \<open>AddEvent\<close> adds none.\<close>

lemma ptr_append_child_nil:
  "ptr_append_child p c m = Done m' \<Longrightarrow> m' i = Some None \<Longrightarrow> m i = Some None"
  by (auto simp: ptr_append_child_def split: option.splits if_splits)

lemma ptr_link_parents_nil:
  "ptr_link_parents c ps m = Done (r, m') \<Longrightarrow> m' i = Some None \<Longrightarrow> m i = Some None"
  by (induction ps arbitrary: m)
    (auto simp: exec_bind_eq_Done split: if_splits dest: ptr_append_child_nil)

lemma ptr_link_sub_nil:
  "ptr_link_sub e m = Done (r, m') \<Longrightarrow> m' i = Some None \<Longrightarrow> m i = Some None"
  by (auto simp: ptr_link_sub_def exec_bind_eq_Done split: if_splits dest: ptr_append_child_nil)

lemma ptr_AddEvent_nil:
  assumes "ptr_AddEvent ev d = Done (r, d')" and "mem_ptrs d' i = Some None"
  shows "mem_ptrs d i = Some None"
  using assms
  by (auto simp: ptr_AddEvent_def exec_bind_eq_Done split: option.splits if_splits
      dest!: ptr_link_parents_nil ptr_link_sub_nil)

text \<open>A snapshot with a \<open>null\<close> event is imported, and the queries on the store panic.\<close>

definition null_snapshot :: bytes where
  "null_snapshot = json_marshal (JObj [(''version'', JInt 1), (''events'', JObj [(''a'', JNull)])])"

lemma import_null_panics:
  "ptr_Import [] null_snapshot d = Done (None, \<lparr>mem_ptrs = [''a'' \<mapsto> None]\<rparr>) \<and>
   ptr_Verify [''a''] [''a''] \<lparr>mem_ptrs = [''a'' \<mapsto> None]\<rparr> = Panic \<and>
   ptr_GetSubEvents n ''a'' \<lparr>mem_ptrs = [''a'' \<mapsto> None]\<rparr> = Panic \<and>
   ptr_GetParents ''a'' \<lparr>mem_ptrs = [''a'' \<mapsto> None]\<rparr> = Panic \<and>
   ptr_GetMainEvents [''a''] \<lparr>mem_ptrs = [''a'' \<mapsto> None]\<rparr> = Panic \<and>
   ptr_Export write [''a''] \<lparr>mem_ptrs = [''a'' \<mapsto> None]\<rparr> = Panic"
proof -
  let ?j = "JObj [(''version'', JInt 1), (''events'', JObj [(''a'', JNull)])]"
  have "reads_back maxNestingDepth ?j"
    by (simp add: reads_back_obj maxNestingDepth_def valid_utf8_ascii ord_def)
  moreover have "dec_snapshot ?j zero_snapshot =
      Some \<lparr>Version = 1, Snap_Events = Some [''a'' \<mapsto> None], Snap_Children = None\<rparr>"
    by (simp add: dec_snapshot_def dec_struct_def field_match_def on_field_def dec_int_def dec_map_def
        dec_ptr_def zero_snapshot_def ascii_lower_def between_def ord_def)
  ultimately have "ImportDAG null_snapshot = Inr ([''a'' \<mapsto> None], \<lambda>_. None)"
    by (simp add: ImportDAG_def null_snapshot_def json_decode_marshal CurrentSnapshotVersion_def)
  then have "ptr_Import [] null_snapshot d = Done (None, \<lparr>mem_ptrs = [''a'' \<mapsto> None]\<rparr>)"
    by (simp add: ptr_Import_def)
  moreover have "ptr_Verify [''a''] [''a''] \<lparr>mem_ptrs = [''a'' \<mapsto> None]\<rparr> = Panic"
    by (simp add: ptr_Verify_def)
  ultimately show ?thesis
    by (simp add: ptr_GetSubEvents_def ptr_GetParents_def ptr_GetMainEvents_def ptr_Export_def)
qed

end
