(* ===== verification/IpfsRace.thy ===== *)
theory IpfsRace
  imports IpfsProps
begin

text \<open>
  Concurrent clients of the IPFS store (\<open>src/dag/ipfs.go\<close>). \<open>AddEvent\<close> holds the lock throughout, but
  \<open>GetEvent\<close> releases it between the lookup that misses, the fetch, the write that caches the fetched
  event, and the write of its children; these are steps of their own here, interleaved with those of
  other clients. The map of the store holds pointers, and a caller of \<open>AddEvent\<close> (the pool) keeps its
  pointer to write the anchor later, so pointers are explicit.
\<close>

section \<open>The interleaving\<close>

text \<open>
  Where a client's call of \<open>GetEvent\<close> is: it has missed an ID, has fetched the event into a new object,
  or has put that object into the map.
\<close>

datatype get_call = Idle | Missed string | Fetched string nat | Cached string nat

text \<open>
  \<open>objs\<close> holds the events that pointers below \<open>fresh\<close> point to, \<open>entry\<close> and \<open>index\<close> are the maps
  \<open>events\<close> and \<open>children\<close> of the store, and \<open>added\<close> the pointers of the events added so far.
\<close>

record ipfs_clients =
  objs :: "nat \<Rightarrow> event"
  fresh :: nat
  entry :: "string \<rightharpoonup> nat"
  index :: children_map
  conf :: ipfs_config
  calls :: "nat \<Rightarrow> get_call"
  added :: "nat set"

definition store_of :: "ipfs_clients \<Rightarrow> ipfsDAG" where
  "store_of s = \<lparr>ipfs_cfg = conf s, ipfs_events = (\<lambda>i. map_option (objs s) (entry s i)), ipfs_children = index s\<rparr>"

text \<open>\<open>AddEvent\<close> of an event that no one else has a pointer to.\<close>

definition add_object :: "daemon \<Rightarrow> event \<Rightarrow> ipfs_clients \<Rightarrow> ipfs_clients" where
  "add_object N e s =
     (let (r, d) = ipfs_insert N e (store_of s); p = fresh s;
          s = s\<lparr>objs := (objs s)(p := e), fresh := Suc p, index := ipfs_children d\<rparr>
      in case r of
           Some err \<Rightarrow> s
         | None \<Rightarrow> s\<lparr>entry := (entry s)(ID e \<mapsto> p), added := insert p (added s)\<rparr>)"

inductive ipfs_op :: "cid_lib \<Rightarrow> daemon \<Rightarrow> ipfs_clients \<Rightarrow> ipfs_clients \<Rightarrow> bool" for L N where
  get_miss: "calls s c = Idle \<Longrightarrow> i \<noteq> [] \<Longrightarrow> entry s i = None \<Longrightarrow>
     ipfs_op L N s (s\<lparr>calls := (calls s)(c := Missed i)\<rparr>)"
| get_fetch: "calls s c = Missed i \<Longrightarrow> fetchEvent N (conf s) i = Inr e \<Longrightarrow>
     ipfs_op L N s (s\<lparr>calls := (calls s)(c := Fetched i (fresh s)), objs := (objs s)(fresh s := e), fresh := Suc (fresh s)\<rparr>)"
| get_fail: "calls s c = Missed i \<Longrightarrow> fetchEvent N (conf s) i = Inl err \<Longrightarrow>
     ipfs_op L N s (s\<lparr>calls := (calls s)(c := Idle)\<rparr>)"
| get_cache: "calls s c = Fetched i p \<Longrightarrow>
     ipfs_op L N s (s\<lparr>calls := (calls s)(c := Cached i p), entry := (entry s)(i \<mapsto> p)\<rparr>)"
| get_children: "calls s c = Cached i p \<Longrightarrow>
     ipfs_op L N s (s\<lparr>calls := (calls s)(c := Idle),
       objs := (objs s)(p := (objs s p)\<lparr>Children := kids_of (index s) i\<rparr>)\<rparr>)"
| add: "ipfs_assign_id L e = Inr e' \<Longrightarrow> ipfs_op L N s (add_object N e' s)"
| anchor: "p \<in> added s \<Longrightarrow> ipfs_op L N s (s\<lparr>objs := (objs s)(p := (objs s p)\<lparr>Beacon := Some a\<rparr>)\<rparr>)"

text \<open>Initially no call is under way, and no event is held by a client.\<close>

definition clients_init :: "ipfs_clients \<Rightarrow> bool" where
  "clients_init s \<longleftrightarrow> (\<forall>i p. entry s i = Some p \<longrightarrow> p < fresh s) \<and> (\<forall>c. calls s c = Idle) \<and> added s = {}"

text \<open>A call of \<open>GetEvent\<close> that will still write the entry of \<open>i\<close>.\<close>

fun pending :: "string \<Rightarrow> get_call \<Rightarrow> bool" where
  "pending i Idle = False"
| "pending i (Missed j) = (i = j)"
| "pending i (Fetched j p) = (i = j)"
| "pending i (Cached j p) = False"

section \<open>The steps are those of the sequential store\<close>

definition ptrs_ok :: "ipfs_clients \<Rightarrow> bool" where
  "ptrs_ok s \<longleftrightarrow> (\<forall>i p. entry s i = Some p \<longrightarrow> p < fresh s) \<and> (\<forall>p \<in> added s. p < fresh s) \<and>
     (\<forall>c i p. calls s c = Fetched i p \<or> calls s c = Cached i p \<longrightarrow> p < fresh s)"

lemma ipfs_insert_events:
  assumes "ipfs_insert N e d = (r, d')"
  shows "ipfs_cfg d' = ipfs_cfg d \<and>
    (if r = None then ipfs_events d (ID e) = None \<and> ipfs_events d' = (ipfs_events d)(ID e \<mapsto> e)
     else ipfs_events d' = ipfs_events d)"
  using assms by (auto simp: ipfs_insert_def Let_def split: if_splits prod.splits option.splits sum.splits)

lemma add_object_cases:
  obtains (rejected) err d where "ipfs_insert N e (store_of s) = (Some err, d)"
      "add_object N e s = s\<lparr>objs := (objs s)(fresh s := e), fresh := Suc (fresh s), index := ipfs_children d\<rparr>"
  | (accepted) d where "ipfs_insert N e (store_of s) = (None, d)" "entry s (ID e) = None"
      "add_object N e s = s\<lparr>objs := (objs s)(fresh s := e), fresh := Suc (fresh s), index := ipfs_children d,
         entry := (entry s)(ID e \<mapsto> fresh s), added := insert (fresh s) (added s)\<rparr>"
proof -
  obtain r d where r: "ipfs_insert N e (store_of s) = (r, d)" by fastforce
  show thesis
  proof (cases r)
    case None
    with ipfs_insert_events [OF r] have "entry s (ID e) = None" by (simp add: store_of_def)
    with r None accepted show thesis by (simp add: add_object_def Let_def)
  next
    case (Some err)
    with r rejected show thesis by (simp add: add_object_def Let_def)
  qed
qed

lemma old_object: "ptrs_ok s \<Longrightarrow> map_option ((objs s)(fresh s := e)) (entry s i) = map_option (objs s) (entry s i)"
  by (cases "entry s i") (auto simp: ptrs_ok_def)

text \<open>The add step does to the store what \<open>AddEvent\<close> does.\<close>

lemma add_object_store:
  assumes "ptrs_ok s"
  shows "store_of (add_object N e s) = snd (ipfs_insert N e (store_of s))"
proof (cases rule: add_object_cases [where N = N and e = e and s = s])
  case (rejected err d)
  with ipfs_insert_events [OF rejected(1)] old_object [OF assms] show ?thesis
    by (cases d) (simp add: store_of_def)
next
  case (accepted d)
  with ipfs_insert_events [OF accepted(1)] old_object [OF assms] show ?thesis
    by (cases d) (auto simp: store_of_def fun_eq_iff)
qed

text \<open>A call of \<open>GetEvent\<close> that nothing comes in between is the sequential \<open>GetEvent\<close>.\<close>

lemma get_uninterrupted:
  assumes "ptrs_ok s" and "i \<noteq> []" and "calls s c = Idle" and "entry s i = None"
    and "fetchEvent N (conf s) i = Inr e"
  shows "\<exists>t. (ipfs_op L N)\<^sup>*\<^sup>* s t \<and> store_of t = snd (ipfs_GetEvent N i (store_of s))"
proof -
  define s1 where "s1 = s\<lparr>calls := (calls s)(c := Missed i)\<rparr>"
  let ?p = "fresh s1"
  define s2 where "s2 = s1\<lparr>calls := (calls s1)(c := Fetched i ?p), objs := (objs s1)(?p := e), fresh := Suc (fresh s1)\<rparr>"
  define s3 where "s3 = s2\<lparr>calls := (calls s2)(c := Cached i ?p), entry := (entry s2)(i \<mapsto> ?p)\<rparr>"
  define s4 where "s4 = s3\<lparr>calls := (calls s3)(c := Idle),
    objs := (objs s3)(?p := (objs s3 ?p)\<lparr>Children := kids_of (index s3) i\<rparr>)\<rparr>"
  have 1: "ipfs_op L N s s1" unfolding s1_def by (rule get_miss) fact+
  have 2: "ipfs_op L N s1 s2" unfolding s2_def 
    by (rule get_fetch) (use assms(5) in \<open>simp_all add: s1_def\<close>)
  have 3: "ipfs_op L N s2 s3" unfolding s3_def by (rule get_cache) (simp add: s2_def)
  have 4: "ipfs_op L N s3 s4" unfolding s4_def by (rule get_children) (simp add: s3_def)
  have "(ipfs_op L N)\<^sup>*\<^sup>* s s4"
    using 1 2 3 4 by (meson r_into_rtranclp rtranclp.rtrancl_into_rtrancl)
  moreover have "store_of s4 = snd (ipfs_GetEvent N i (store_of s))"
    using assms old_object [OF assms(1), of "e\<lparr>Children := kids_of (index s) i\<rparr>"]
    by (auto simp: s4_def s3_def s2_def s1_def store_of_def ipfs_GetEvent_def Let_def fun_eq_iff)
  ultimately show ?thesis by blast
qed

section \<open>What stays\<close>

text \<open>An object keeps its content: only its children and its anchor are ever written.\<close>

definition clients_inv :: "daemon \<Rightarrow> ipfs_clients \<Rightarrow> bool" where
  "clients_inv N s \<longleftrightarrow> ptrs_ok s \<and>
     (\<forall>c i p. calls s c = Fetched i p \<longrightarrow> (\<exists>e. fetchEvent N (conf s) i = Inr e \<and> same_refs e (objs s p)))"

lemma same_refs_upd: "same_refs e (e\<lparr>Children := cs\<rparr>)" "same_refs e (e\<lparr>Beacon := b\<rparr>)"
  by (simp_all add: same_refs_def)

lemma ipfs_op_object:
  assumes "ipfs_op L N s t" and "p < fresh s"
  shows "same_refs (objs s p) (objs t p) \<and> fresh s \<le> fresh t \<and> conf t = conf s"
  using assms(1)
proof (cases rule: ipfs_op.cases)
  case (add e e')
  then show ?thesis using assms(2) by (cases rule: add_object_cases [where N = N and e = e' and s = s]) auto
qed (use assms(2) in \<open>auto simp: same_refs_upd\<close>)

lemma ipfs_run_object:
  "(ipfs_op L N)\<^sup>*\<^sup>* s t \<Longrightarrow> p < fresh s \<Longrightarrow> same_refs (objs s p) (objs t p)"
proof -
  assume "(ipfs_op L N)\<^sup>*\<^sup>* s t" and "p < fresh s"
  then have "same_refs (objs s p) (objs t p) \<and> fresh s \<le> fresh t"
  proof (induction rule: rtranclp_induct)
    case (step u v)
    then have "p < fresh u" by simp
    from ipfs_op_object [OF step.hyps(2) this] step same_refs_trans show ?case by fastforce
  qed simp
  then show ?thesis by simp
qed

lemma ipfs_op_frame: "ipfs_op L N s t \<Longrightarrow> fresh s \<le> fresh t \<and> conf t = conf s"
proof (erule ipfs_op.cases)
  fix e' s' t' e assume "s = s'" "t = add_object N e' s'"
  then show ?thesis by (cases rule: add_object_cases [where N = N and e = e' and s = s]) auto
qed auto

lemma ipfs_op_ptrs:
  assumes "ipfs_op L N s t" and "ptrs_ok s" shows "ptrs_ok t"
  using assms(1)
proof (cases rule: ipfs_op.cases)
  case (add e e')
  show ?thesis
    by (cases rule: add_object_cases [where N = N and e = e' and s = s])
      (use add assms(2) in \<open>auto simp: ptrs_ok_def less_Suc_eq\<close>)
qed (use assms(2) in \<open>auto simp: ptrs_ok_def less_Suc_eq split: if_splits\<close>)

lemma ipfs_op_calls:
  assumes "ipfs_op L N s t" and "calls t c = Fetched i p"
  shows "calls s c = Fetched i p \<or> calls s c = Missed i \<and> p = fresh s \<and> (\<exists>e. fetchEvent N (conf s) i = Inr e \<and> objs t p = e)"
  using assms(1)
proof (cases rule: ipfs_op.cases)
  case (add e e')
  then show ?thesis using assms(2) by (cases rule: add_object_cases [where N = N and e = e' and s = s]) auto
qed (use assms(2) in \<open>auto split: if_splits\<close>)

lemma ipfs_op_inv:
  assumes op: "ipfs_op L N s t" and inv: "clients_inv N s" shows "clients_inv N t"
  unfolding clients_inv_def
proof (intro conjI allI impI)
  show "ptrs_ok t" using ipfs_op_ptrs [OF op] inv by (simp add: clients_inv_def)
  fix c i p assume c: "calls t c = Fetched i p"
  from ipfs_op_calls [OF op c]
  show "\<exists>e. fetchEvent N (conf t) i = Inr e \<and> same_refs e (objs t p)"
  proof (elim disjE conjE exE)
    assume "calls s c = Fetched i p"
    then have "p < fresh s" "\<exists>e. fetchEvent N (conf s) i = Inr e \<and> same_refs e (objs s p)"
      using inv by (auto simp: clients_inv_def ptrs_ok_def)
    with ipfs_op_object [OF op] show ?thesis using same_refs_trans by fastforce
  next
    fix e assume "fetchEvent N (conf s) i = Inr e" "objs t p = e"
    with ipfs_op_frame [OF op] show ?thesis by simp
  qed
qed

lemma clients_init_inv: "clients_init s \<Longrightarrow> clients_inv N s"
  by (simp add: clients_init_def clients_inv_def ptrs_ok_def)

interpretation clients_ts: transition_system clients_init "ipfs_op L N" "clients_inv N" for L N
  by unfold_locales (use clients_init_inv ipfs_op_inv in blast)+

text \<open>An entry is only ever replaced by the cache write of a pending call.\<close>

lemma ipfs_op_entry:
  assumes "ipfs_op L N s t" and "entry s i = Some p"
  shows "entry t i = Some p \<or> (\<exists>c q. calls s c = Fetched i q \<and> entry t i = Some q)"
  using assms(1)
proof (cases rule: ipfs_op.cases)
  case (add e e')
  then show ?thesis using assms(2) by (cases rule: add_object_cases [where N = N and e = e' and s = s]) auto
qed (use assms(2) in \<open>auto split: if_splits\<close>)

lemma ipfs_op_pending:
  assumes "ipfs_op L N s t" and "entry s i = Some p" and "\<forall>c. \<not> pending i (calls s c)"
  shows "\<not> pending i (calls t c)"
  using assms(1)
proof (cases rule: ipfs_op.cases)
  case (add e e')
  then show ?thesis using assms(3) by (cases rule: add_object_cases [where N = N and e = e' and s = s]) auto
next
  case (get_fetch c' j e)
  with assms(3) have "\<not> pending i (Missed j)" by metis
  with get_fetch assms(3) show ?thesis by simp
next
  case (get_cache c' j q)
  with assms(3) show ?thesis by simp
qed (use assms(2,3) in auto)

text \<open>C24: in every interleaving of \<open>GetEvent\<close> calls, whose lookup, fetch, cache write and write of the
  children are separate steps, with calls of \<open>AddEvent\<close> for whatever events, also several under one
  identifier, and with writes of anchors: once an event is stored and no call that has missed it before is
  still under way, its entry is never replaced, whatever the daemon serves. So its type, parent, parents
  and data stay, and an anchor its adder writes later is what \<open>GetEvent\<close> returns. While such a call is
  under way it may replace the entry; the content then stays if the daemon serves the same content for
  this identifier.\<close>

theorem ipfs_clients_stable:
  assumes "clients_init s0" and "(ipfs_op L N)\<^sup>*\<^sup>* s0 s" and "(ipfs_op L N)\<^sup>*\<^sup>* s t"
    and "entry s i = Some p"
  shows "\<exists>q. entry t i = Some q \<and>
    ((\<forall>c. \<not> pending i (calls s c)) \<longrightarrow> q = p) \<and>
    ((\<forall>c. \<not> pending i (calls s c)) \<or> (\<forall>e. fetchEvent N (conf s) i = Inr e \<longrightarrow> same_refs (objs s p) e) \<longrightarrow>
       same_refs (objs s p) (objs t q)) \<and>
    (i \<noteq> [] \<longrightarrow> fst (ipfs_GetEvent N i (store_of t)) = Inr ((objs t q)\<lparr>Children := kids_of (index t) i\<rparr>))"
proof -
  let ?quiet = "\<lambda>u. \<forall>c. \<not> pending i (calls u c)"
  let ?agree = "\<forall>e. fetchEvent N (conf s) i = Inr e \<longrightarrow> same_refs (objs s p) e"
  have s: "clients_inv N s" by (rule clients_ts.reachable_inv [OF assms(2,1)])
  from assms(3) have "clients_inv N t \<and> conf t = conf s \<and> (\<exists>q. entry t i = Some q \<and>
      (?quiet s \<longrightarrow> q = p \<and> ?quiet t) \<and> (q = p \<or> ?agree \<longrightarrow> same_refs (objs s p) (objs t q)))"
  proof (induction rule: rtranclp_induct)
    case base
    with s assms(4) show ?case by simp
  next
    case (step u v)
    then obtain q where u: "clients_inv N u" "conf u = conf s" "entry u i = Some q"
      "?quiet s \<Longrightarrow> q = p \<and> ?quiet u" "q = p \<or> ?agree \<Longrightarrow> same_refs (objs s p) (objs u q)" by blast
    have q: "q < fresh u" using u(1,3) by (auto simp: clients_inv_def ptrs_ok_def)
    note obj = ipfs_op_object [OF step.hyps(2)]
    have v: "clients_inv N v" "conf v = conf s"
      using ipfs_op_inv [OF step.hyps(2) u(1)] ipfs_op_frame [OF step.hyps(2)] u(2) by simp_all
    have quiet: "?quiet v" if "?quiet s"
      using ipfs_op_pending [OF step.hyps(2) u(3)] u(4) [OF that] by blast
    from ipfs_op_entry [OF step.hyps(2) u(3)] show ?case
    proof (elim disjE exE conjE)
      assume "entry v i = Some q"
      moreover have "same_refs (objs s p) (objs v q)" if "q = p \<or> ?agree"
        using u(5) [OF that] obj [OF q] same_refs_trans by blast
      ultimately show ?thesis using v u(4) quiet by blast
    next
      fix c r assume c: "calls u c = Fetched i r" and e: "entry v i = Some r"
      have nq: "\<not> ?quiet s" using u(4) c by (metis pending.simps(3))
      obtain x where x: "fetchEvent N (conf u) i = Inr x" "same_refs x (objs u r)" and r: "r < fresh u"
        using u(1) c unfolding clients_inv_def ptrs_ok_def by blast
      have "same_refs (objs s p) (objs v r)" if "r = p \<or> ?agree"
      proof (cases "?agree")
        case True
        with x u(2) have "same_refs (objs s p) x" by simp
        then have "same_refs (objs s p) (objs u r)" using x(2) by (rule same_refs_trans)
        with obj [OF r] same_refs_trans show ?thesis by blast
      next
        case False
        with that have "r = p" by simp
        have "p < fresh s" using s assms(4) by (auto simp: clients_inv_def ptrs_ok_def)
        from ipfs_run_object [OF step.hyps(1) this] have "same_refs (objs s p) (objs u p)" .
        with \<open>r = p\<close> obj [OF r] same_refs_trans show ?thesis by blast
      qed
      with v e nq show ?thesis by blast
    qed
  qed
  then show ?thesis by (fastforce simp: ipfs_GetEvent_def store_of_def)
qed

section \<open>What a late cache write loses\<close>

text \<open>
  A call of \<open>GetEvent\<close> that missed the event before it was added replaces the entry by the fetched copy.
  The anchor written in between is gone, and one written afterwards reaches only the object of the adder,
  which the store no longer points to. The daemon here is honest: it serves the document of the event.
\<close>

definition late_doc :: "string \<Rightarrow> event" where
  "late_doc i = main_ev i []"

definition late_daemon :: daemon where
  "late_daemon = serving (enc_event_data (event_content (late_doc [])))"

lemma late_daemon_fetch: "fetchEvent late_daemon cfg i = Inr (late_doc i)"
proof -
  have "fetchEvent late_daemon cfg i = Inr ((late_doc [])\<lparr>ID := i, Children := []\<rparr>)"
    by (rule fetch_posted) (simp_all add: late_daemon_def serving_def late_doc_def main_ev_def valid_utf8_ascii)
  then show ?thesis by (simp add: late_doc_def main_ev_def)
qed

lemma late_daemon_store: "storeEvent late_daemon cfg e = Inr []"
proof -
  let ?j = "enc_event_data (event_content (late_doc []))"
  have "reads_back maxNestingDepth ?j"
    by (rule reads_back_event_data)
      (simp_all add: event_content_def late_doc_def main_ev_def maxNestingDepth_def valid_utf8_ascii)
  moreover have "dec_add_response ?j \<lparr>Add_Hash = [], Add_Name = [], Add_Size = []\<rparr> =
      Some \<lparr>Add_Hash = [], Add_Name = [], Add_Size = []\<rparr>"
    by (simp add: enc_event_data_def event_content_def late_doc_def main_ev_def omit_empty_def dec_add_response_def
        dec_struct_def field_match_def ascii_lower_def between_def ord_def)
  ultimately show ?thesis
    by (simp add: storeEvent_def late_daemon_def serving_def decode_body_def json_decode_marshal)
qed

definition late_start :: ipfs_clients where
  "late_start = \<lparr>objs = late_doc \<circ> (\<lambda>_. []), fresh = 0, entry = (\<lambda>_. None), index = (\<lambda>_. None),
     conf = ipfs_cfg ipfs_empty, calls = (\<lambda>_. Idle), added = {}\<rparr>"

lemma late_start_init: "clients_init late_start"
  by (simp add: clients_init_def late_start_def)

lemma late_doc_fields: "ID (late_doc i) = i" "Type (late_doc i) = MainEvent" "Parents (late_doc i) = []"
  "Beacon (late_doc i) = None"
  by (simp_all add: late_doc_def main_ev_def)

lemma late_add:
  assumes "entry s ''1'' = None"
  shows "add_object late_daemon (late_doc ''1'') s = s\<lparr>objs := (objs s)(fresh s := late_doc ''1''),
    fresh := Suc (fresh s), entry := (entry s)(''1'' \<mapsto> fresh s), added := insert (fresh s) (added s)\<rparr>"
  using assms
  by (simp add: add_object_def ipfs_insert_def store_of_def late_doc_fields ipfs_link_sub_def late_daemon_store Let_def)

lemma late_assign: "ipfs_assign_id L (late_doc ''1'') = Inr (late_doc ''1'')"
  by (simp add: ipfs_assign_id_def late_doc_fields)

lemma late_cache_loses_anchor:
  shows "\<exists>s t u p. (ipfs_op L late_daemon)\<^sup>*\<^sup>* late_start s \<and> ipfs_op L late_daemon s t \<and> ipfs_op L late_daemon t u \<and>
    entry s ''1'' = Some p \<and> Beacon (objs s p) = Some a \<and>
    (\<exists>x. ipfs_events (store_of t) ''1'' = Some x \<and> Beacon x = None) \<and>
    Beacon (objs u p) = Some b \<and> (\<exists>x. ipfs_events (store_of u) ''1'' = Some x \<and> Beacon x = None)"
proof -
  let ?op = "ipfs_op L late_daemon" and ?e = "late_doc ''1''"
  define s1 where "s1 = late_start\<lparr>calls := (calls late_start)(0 := Missed ''1'')\<rparr>"
  define s2 where "s2 = s1\<lparr>calls := (calls s1)(0 := Fetched ''1'' (fresh s1)),
    objs := (objs s1)(fresh s1 := ?e), fresh := Suc (fresh s1)\<rparr>"
  define s3 where "s3 = add_object late_daemon ?e s2"
  define s4 where "s4 = s3\<lparr>objs := (objs s3)(1 := (objs s3 1)\<lparr>Beacon := Some a\<rparr>)\<rparr>"
  define s5 where "s5 = s4\<lparr>calls := (calls s4)(0 := Cached ''1'' 0), entry := (entry s4)(''1'' \<mapsto> 0)\<rparr>"
  define s6 where "s6 = s5\<lparr>objs := (objs s5)(1 := (objs s5 1)\<lparr>Beacon := Some b\<rparr>)\<rparr>"
  have s2: "fresh s2 = 1" "entry s2 ''1'' = None" "calls s2 0 = Fetched ''1'' 0" "objs s2 0 = ?e" "added s2 = {}"
    by (simp_all add: s2_def s1_def late_start_def)
  have s3: "entry s3 = (entry s2)(''1'' \<mapsto> 1)" "calls s3 = calls s2" "objs s3 0 = ?e" "added s3 = {1}"
    unfolding s3_def late_add [OF s2(2)] using s2 by simp_all
  have 1: "?op late_start s1" unfolding s1_def by (rule get_miss) (simp_all add: late_start_def)
  have 2: "?op s1 s2" unfolding s2_def
    by (rule get_fetch) (simp_all add: s1_def late_daemon_fetch)
  have 3: "?op s2 s3" unfolding s3_def by (rule add [OF late_assign])
  have 4: "?op s3 s4" unfolding s4_def by (rule anchor) (simp add: s3)
  have 5: "?op s4 s5" unfolding s5_def by (rule get_cache) (simp add: s4_def s3 s2)
  have 6: "?op s5 s6" unfolding s6_def by (rule anchor) (simp add: s5_def s4_def s3)
  have run: "?op\<^sup>*\<^sup>* late_start s4"
    using 1 2 3 4 by (meson r_into_rtranclp rtranclp.rtrancl_into_rtrancl)
  have "entry s4 ''1'' = Some 1" "Beacon (objs s4 1) = Some a" by (simp_all add: s4_def s3)
  moreover have "\<exists>x. ipfs_events (store_of s5) ''1'' = Some x \<and> Beacon x = None"
    by (simp add: store_of_def s5_def s4_def s3 late_doc_fields)
  moreover have "\<exists>x. ipfs_events (store_of s6) ''1'' = Some x \<and> Beacon x = None"
    by (simp add: store_of_def s6_def s5_def s4_def s3 late_doc_fields)
  moreover have "Beacon (objs s6 1) = Some b" by (simp add: s6_def)
  ultimately show ?thesis using run 5 6 by blast
qed

theorem ipfs_clients_stable_witness:
  "\<exists>s t p. (ipfs_op \<lparr>mh_sum = Inr, cid_string = map char_of_byte\<rparr> late_daemon)\<^sup>*\<^sup>* late_start s \<and>
     ipfs_op \<lparr>mh_sum = Inr, cid_string = map char_of_byte\<rparr> late_daemon s t \<and> entry s ''1'' = Some p \<and>
     entry t ''1'' = Some p \<and> Beacon (objs s p) = None \<and>
     fst (ipfs_GetEvent late_daemon ''1'' (store_of t)) = Inr ((late_doc ''1'')\<lparr>Beacon := Some \<lparr>Round = 1, Anchor_Randomness = [1]\<rparr>\<rparr>)"
proof -
  let ?op = "ipfs_op \<lparr>mh_sum = Inr, cid_string = map char_of_byte\<rparr> late_daemon" and ?a = "\<lparr>Round = 1, Anchor_Randomness = [1]\<rparr>"
  define s where "s = add_object late_daemon (late_doc ''1'') late_start"
  define t where "t = s\<lparr>objs := (objs s)(0 := (objs s 0)\<lparr>Beacon := Some ?a\<rparr>)\<rparr>"
  have "entry late_start ''1'' = None" by (simp add: late_start_def)
  from late_add [OF this] have s: "entry s ''1'' = Some 0" "objs s 0 = late_doc ''1''" "calls s = (\<lambda>_. Idle)"
    "added s = {0}" "index s = (\<lambda>_. None)"
    unfolding s_def by (simp_all add: late_start_def)
  have 1: "?op\<^sup>*\<^sup>* late_start s" unfolding s_def by (rule r_into_rtranclp) (rule add [OF late_assign])
  have 2: "?op s t" unfolding t_def by (rule anchor) (simp add: s)
  have t: "objs t 0 = (late_doc ''1'')\<lparr>Beacon := Some ?a\<rparr>" "index t = (\<lambda>_. None)"
    by (simp_all add: t_def s)
  have "entry t ''1'' = Some 0 \<and> fst (ipfs_GetEvent late_daemon ''1'' (store_of t)) =
      Inr ((objs t 0)\<lparr>Children := kids_of (index t) ''1''\<rparr>)"
    using ipfs_clients_stable [OF late_start_init 1 r_into_rtranclp [of ?op, OF 2] s(1)] by (auto simp: s(3))
  with 1 2 s show ?thesis
    by (intro exI [of _ s] exI [of _ t] exI [of _ "0 :: nat"]) (simp add: t kids_of_def late_doc_def main_ev_def)
qed

end
