(* ===== verification/Pool.thy ===== *)
theory Pool
  imports Complex_Main StoreOps Cid Beacon
begin

text \<open>
  The event pool (\<open>src/pool/pool.go\<close>): configuration checks, subscriptions, the client's
  \<open>AddEvent\<close>, and the run loop that stores events, derives sub-events and anchors events to
  beacon rounds. The store is a parameter (its \<open>AddEvent\<close>, the write of \<open>event.Beacon\<close> through
  the pointer the pool shares with it, and its \<open>Verify\<close>), as the pool only knows the interface
  \<open>dag.DAG\<close>; so are the content-addressing library, the clock and the beacon's answer to a
  direct fetch. Random draws come from a tape of numbers, one per call to the generator.
\<close>

section \<open>Configuration\<close>

text \<open>
  A Go \<open>float64\<close> as far as the pool uses it: comparisons. A finite value is a rational; a
  comparison with NaN is false.
\<close>

datatype float64 = NaN | NegInf | PosInf | Fin rat

fun f64_less :: "float64 \<Rightarrow> float64 \<Rightarrow> bool" where
  "f64_less NaN y = False"
| "f64_less x NaN = False"
| "f64_less NegInf y = (y \<noteq> NegInf)"
| "f64_less PosInf y = False"
| "f64_less (Fin a) PosInf = True"
| "f64_less (Fin a) NegInf = False"
| "f64_less (Fin a) (Fin b) = (a < b)"

record pool_config =
  EventRate :: int
  AnchorInterval :: int
  SubEventComplex :: float64
  VerifyInterval :: int
  RNGSeed :: int

text \<open>Errors of the validation of a beacon round, and of obtaining one.\<close>

datatype round_error =
    RoundNil
  | RoundZero
  | RandomnessEmpty
  | SignatureEmpty
  | RoundTooOld u64 int

datatype ensure_error =
    InvalidFromChannel round_error
  | InvalidFromAPI round_error
  | FetchFailed beacon_error

datatype pool_error =
    ErrPoolConfig string
  | ErrPoolClosed
  | ErrBeaconSubscribe string
  | ErrCtx string
  | ErrCID cid_error
  | AddFailed string dag_error
  | SubCIDFailed cid_error
  | SubAddFailed string dag_error
  | AnchorFailed ensure_error
  | StaleRound u64 u64
  | VerifyFailed dag_error

section \<open>State\<close>

record rng =
  tape :: "nat \<Rightarrow> nat"
  tape_pos :: nat

record 's pool =
  cfg :: pool_config
  dag :: 's
  running :: bool
  done_closed :: bool
  eventCh :: "event chan"
  errCh :: "pool_error chan"
  beaconCh :: "round chan"
  subscribers :: "nat list"
  sub_chans :: "nat \<Rightarrow> event chan"
  sub_fresh :: nat
  recentEvents :: "string list"
  lastBeaconRound :: u64
  rng :: rng
  droppedNotifications :: u64
  eventCount :: int   \<comment> \<open>64 bits: \<open>wrap64\<close> after each increment\<close>

definition maxRecentEvents :: nat where "maxRecentEvents = 100"
definition maxSubEventParents :: nat where "maxSubEventParents = 3"
definition subscriberBufferSize :: nat where "subscriberBufferSize = 100"

text \<open>
  \<open>NewPool\<close> for non-nil host, DAG and beacon, as flags; \<open>sub\<close> is the outcome of the beacon's
  \<open>Subscribe\<close>, \<open>now_ns\<close> the clock for a zero seed and \<open>source\<close> the generator for a seed. The goroutine it
  starts begins with \<open>run_tickers\<close>, which panics if an interval is not positive: \<open>node_goroutines\<close> runs
  it after \<open>NewPool\<close>.
\<close>

definition check_pool_config :: "pool_config \<Rightarrow> pool_error option" where
  "check_pool_config c =
     (if EventRate c \<le> 0 then Some (ErrPoolConfig ''EventRate must be positive'')
      else if AnchorInterval c \<le> 0 then Some (ErrPoolConfig ''AnchorInterval must be positive'')
      else if f64_less (SubEventComplex c) (Fin 0) \<or> f64_less (Fin 1) (SubEventComplex c)
      then Some (ErrPoolConfig ''SubEventComplex must be between 0 and 1'')
      else if VerifyInterval c \<le> 0 then Some (ErrPoolConfig ''VerifyInterval must be positive'')
      else None)"

definition NewPool ::
    "bool \<Rightarrow> bool \<Rightarrow> bool \<Rightarrow> (string + round chan) \<Rightarrow> int \<Rightarrow> (int \<Rightarrow> rng) \<Rightarrow> 's \<Rightarrow> pool_config \<Rightarrow>
       pool_error + 's pool" where
  "NewPool has_host has_dag has_beacon sub now_ns source d c =
     (if \<not> has_host then Inl (ErrPoolConfig ''host cannot be nil'')
      else if \<not> has_dag then Inl (ErrPoolConfig ''DAG cannot be nil'')
      else if \<not> has_beacon then Inl (ErrPoolConfig ''beacon cannot be nil'')
      else
        (case check_pool_config c of
           Some err \<Rightarrow> Inl err
         | None \<Rightarrow>
             (case sub of
                Inl msg \<Rightarrow> Inl (ErrBeaconSubscribe msg)
              | Inr ch \<Rightarrow>
                  Inr \<lparr>cfg = c, dag = d, running = True, done_closed = False,
                       eventCh = make_chan 100, errCh = make_chan 100, beaconCh = ch,
                       subscribers = [], sub_chans = (\<lambda>_. make_chan subscriberBufferSize),
                       sub_fresh = 0, recentEvents = [], lastBeaconRound = 0,
                       rng = source (if RNGSeed c = 0 then now_ns else RNGSeed c),
                       droppedNotifications = 0, eventCount = 0\<rparr>)))"

text \<open>The two tickers with which \<open>run\<close>, the goroutine \<open>NewPool\<close> starts, begins.\<close>

definition run_tickers :: "pool_config \<Rightarrow> (int \<times> int) exec" where
  "run_tickers c =
     exec_bind (NewTicker (dur_mult (EventRate c) Millisecond))
       (\<lambda>et. exec_bind (NewTicker (dur_mult (dur_mult (VerifyInterval c) (EventRate c)) Millisecond))
         (\<lambda>vt. Done (et, vt)))"

section \<open>Subscriptions and errors\<close>

definition pool_Subscribe :: "'s pool \<Rightarrow> (pool_error + nat) \<times> 's pool" where
  "pool_Subscribe p =
     (if \<not> running p then (Inl ErrPoolClosed, p)
      else (Inr (sub_fresh p),
            p\<lparr>sub_chans := (sub_chans p)(sub_fresh p := make_chan subscriberBufferSize),
              subscribers := subscribers p @ [sub_fresh p], sub_fresh := Suc (sub_fresh p)\<rparr>))"

definition removeSubscriber :: "nat \<Rightarrow> 's pool \<Rightarrow> 's pool exec" where
  "removeSubscriber s p =
     (if s \<in> set (subscribers p) then
        exec_bind (close_chan (sub_chans p s))
          (\<lambda>ch. Done (p\<lparr>subscribers := remove1 s (subscribers p),
                       sub_chans := (sub_chans p)(s := ch)\<rparr>))
      else Done p)"

fun notify_loop :: "event \<Rightarrow> nat list \<Rightarrow> 's pool \<Rightarrow> 's pool exec" where
  "notify_loop e [] p = Done p"
| "notify_loop e (s # ss) p =
     exec_bind (try_send e (sub_chans p s))
       (\<lambda>(sent, ch). notify_loop e ss
          (if sent then p\<lparr>sub_chans := (sub_chans p)(s := ch)\<rparr>
           else p\<lparr>droppedNotifications := droppedNotifications p + 1\<rparr>))"

definition notifySubscribers :: "event \<Rightarrow> 's pool \<Rightarrow> 's pool exec" where
  "notifySubscribers e p = notify_loop e (subscribers p) p"

text \<open>A full error channel drops the error (after logging it).\<close>

definition sendError :: "pool_error \<Rightarrow> 's pool \<Rightarrow> 's pool exec" where
  "sendError err p =
     exec_bind (try_send err (errCh p)) (\<lambda>(sent, ch). Done (p\<lparr>errCh := ch\<rparr>))"

section \<open>Random choices\<close>

text \<open>
  \<open>Float64\<close> is a 63-bit draw over \<open>2 ^ 63\<close> (the library rounds it and draws again if it rounds to
  one: a later entry of the tape); \<open>Intn(n)\<close> is a number below \<open>n\<close>.
\<close>

definition rngFloat64 :: "rng \<Rightarrow> rat \<times> rng" where
  "rngFloat64 g = (of_nat (tape g (tape_pos g) mod 2 ^ 63) / 2 ^ 63, g\<lparr>tape_pos := Suc (tape_pos g)\<rparr>)"

definition rngIntn :: "nat \<Rightarrow> rng \<Rightarrow> nat \<times> rng" where
  "rngIntn n g = (tape g (tape_pos g) mod n, g\<lparr>tape_pos := Suc (tape_pos g)\<rparr>)"

definition below_complexity :: "pool_config \<Rightarrow> rng \<Rightarrow> bool \<times> rng" where
  "below_complexity c g = (let (f, g') = rngFloat64 g in (f64_less (Fin f) (SubEventComplex c), g'))"

definition shouldCreateSubEvent :: "'s pool \<Rightarrow> bool \<times> 's pool" where
  "shouldCreateSubEvent p =
     (let (b, g) = below_complexity (cfg p) (rng p) in (b, p\<lparr>rng := g\<rparr>))"

text \<open>Up to \<open>j\<close> draws for an unused parent.\<close>

fun try_parent :: "nat \<Rightarrow> string list \<Rightarrow> string set \<Rightarrow> rng \<Rightarrow> string option \<times> rng" where
  "try_parent 0 snapshot seen g = (None, g)"
| "try_parent (Suc j) snapshot seen g =
     (let (idx, g') = rngIntn (length snapshot) g; i = snapshot ! idx
      in if i \<notin> seen then (Some i, g') else try_parent j snapshot seen g')"

fun select_loop :: "nat \<Rightarrow> string list \<Rightarrow> string list \<Rightarrow> rng \<Rightarrow> string list \<times> rng" where
  "select_loop 0 snapshot parents g = (parents, g)"
| "select_loop (Suc k) snapshot parents g =
     (case try_parent 5 snapshot (set parents) g of
        (None, g') \<Rightarrow> select_loop k snapshot parents g'
      | (Some i, g') \<Rightarrow> select_loop k snapshot (parents @ [i]) g')"

definition selectRandomParents :: "nat \<Rightarrow> 's pool \<Rightarrow> string list \<times> 's pool" where
  "selectRandomParents n p =
     (let recent = recentEvents p
      in if length recent = 0 then ([], p)
         else
           (let (ps, g) = select_loop (min n (length recent)) recent [] (rng p)
            in (ps, p\<lparr>rng := g\<rparr>)))"

definition addRecentEvent :: "string \<Rightarrow> 's pool \<Rightarrow> 's pool" where
  "addRecentEvent i p =
     (let r = recentEvents p @ [i]
      in p\<lparr>recentEvents := (if length r > maxRecentEvents then tl r else r)\<rparr>)"

section \<open>Beacon rounds\<close>

definition validateBeaconRound :: "go_time \<Rightarrow> round option \<Rightarrow> round_error option" where
  "validateBeaconRound now ro =
     (case ro of
        None \<Rightarrow> Some RoundNil
      | Some r \<Rightarrow>
          (if Number r = 0 then Some RoundZero
           else if length (Randomness r) = 0 then Some RandomnessEmpty
           else if length (Signature r) = 0 then Some SignatureEmpty
           else
             (let maxAge = Hour; age = time_Sub now (Timestamp r)
              in if age > maxAge then Some (RoundTooOld (Number r) age) else None)))"

text \<open>\<open>fetched\<close> is what \<open>GetLatestRound\<close> returns if it is called.\<close>

definition ensureBeaconRound ::
    "go_time \<Rightarrow> (beacon_error + round) \<Rightarrow> 's pool \<Rightarrow> (ensure_error + round) \<times> 's pool" where
  "ensureBeaconRound now fetched p =
     (case try_recv (beaconCh p) of
        (Some ro, ch) \<Rightarrow>
          (case validateBeaconRound now ro of
             Some err \<Rightarrow> (Inl (InvalidFromChannel err), p\<lparr>beaconCh := ch\<rparr>)
           | None \<Rightarrow> (Inr (the ro), p\<lparr>beaconCh := ch\<rparr>))
      | (None, ch) \<Rightarrow>
          (case fetched of
             Inl err \<Rightarrow> (Inl (FetchFailed err), p)
           | Inr r \<Rightarrow>
               (case validateBeaconRound now (Some r) of
                  Some err \<Rightarrow> (Inl (InvalidFromAPI err), p)
                | None \<Rightarrow> (Inr r, p))))"

section \<open>Adding events\<close>

definition main_event :: "bytes \<Rightarrow> string list \<Rightarrow> event" where
  "main_event data parents = \<lparr>ID = [], Type = MainEvent, ParentID = [], Parents = parents,
     Children = [], Data = data, Beacon = None\<rparr>"

definition computeEventCID :: "cid_lib \<Rightarrow> event \<Rightarrow> cid_error + event" where
  "computeEventCID L e =
     (case ComputeCID L (Some e) of Inl err \<Rightarrow> Inl err | Inr c \<Rightarrow> Inr (e\<lparr>ID := c\<rparr>))"

text \<open>
  \<open>AddEvent\<close> up to its second \<open>select\<close>, and that \<open>select\<close>. Which ready branch a \<open>select\<close>
  takes is not determined; \<open>None\<close> says that the branch is not ready. \<open>ctx\<close> is the error of a
  cancelled context.
\<close>

definition pool_AddEvent_begin :: "cid_lib \<Rightarrow> bytes \<Rightarrow> string list \<Rightarrow> 's pool \<Rightarrow> pool_error + event" where
  "pool_AddEvent_begin L data parents p =
     (if done_closed p then Inl ErrPoolClosed
      else (case computeEventCID L (main_event data parents) of
              Inl err \<Rightarrow> Inl (ErrCID err) | Inr e \<Rightarrow> Inr e))"

datatype select_case = CaseSend | CaseDone | CaseCtx

definition pool_AddEvent_select ::
    "select_case \<Rightarrow> string option \<Rightarrow> event \<Rightarrow> 's pool \<Rightarrow> ((pool_error + string) \<times> 's pool) option" where
  "pool_AddEvent_select br ctx e p =
     (case br of
        CaseSend \<Rightarrow>
          (case try_send e (eventCh p) of
             Done (True, ch) \<Rightarrow> Some (Inr (ID e), p\<lparr>eventCh := ch\<rparr>)
           | _ \<Rightarrow> None)
      | CaseDone \<Rightarrow> (if done_closed p then Some (Inl ErrPoolClosed, p) else None)
      | CaseCtx \<Rightarrow> (case ctx of Some msg \<Rightarrow> Some (Inl (ErrCtx msg), p) | None \<Rightarrow> None))"

section \<open>The run loop\<close>

definition sub_event :: "string \<Rightarrow> nat \<Rightarrow> string list \<Rightarrow> event" where
  "sub_event pid i parents = \<lparr>ID = [], Type = SubEvent, ParentID = pid, Parents = parents,
     Children = [], Data = str_bytes (''sub-event-'' @ decimal i), Beacon = None\<rparr>"

definition maybe_parents :: "'s pool \<Rightarrow> string list \<times> 's pool" where
  "maybe_parents p =
     (let (b, g) = below_complexity (cfg p) (rng p); p = p\<lparr>rng := g\<rparr>
      in if b then
           (let (n, g) = rngIntn maxSubEventParents (rng p)
            in selectRandomParents (n + 1) (p\<lparr>rng := g\<rparr>))
         else ([], p))"

definition create_sub_event ::
    "(event \<Rightarrow> 's \<Rightarrow> dag_error option \<times> 's) \<Rightarrow> cid_lib \<Rightarrow> string \<Rightarrow> nat \<Rightarrow> 's pool \<Rightarrow> 's pool exec" where
  "create_sub_event add L pid i p =
     (let (parents, p) = maybe_parents p
      in case computeEventCID L (sub_event pid i parents) of
           Inl err \<Rightarrow> sendError (SubCIDFailed err) p
         | Inr sub \<Rightarrow>
             (case add sub (dag p) of
                (Some err, d) \<Rightarrow> sendError (SubAddFailed (ID sub) err) (p\<lparr>dag := d\<rparr>)
              | (None, d) \<Rightarrow>
                  exec_bind (notifySubscribers sub (p\<lparr>dag := d\<rparr>))
                    (\<lambda>p. Done (addRecentEvent (ID sub) p))))"

fun create_sub_events ::
    "(event \<Rightarrow> 's \<Rightarrow> dag_error option \<times> 's) \<Rightarrow> cid_lib \<Rightarrow> string \<Rightarrow> nat list \<Rightarrow> 's pool \<Rightarrow> 's pool exec" where
  "create_sub_events add L pid [] p = Done p"
| "create_sub_events add L pid (i # is) p =
     exec_bind (create_sub_event add L pid i p) (create_sub_events add L pid is)"

definition spawn_sub_events ::
    "(event \<Rightarrow> 's \<Rightarrow> dag_error option \<times> 's) \<Rightarrow> cid_lib \<Rightarrow> string \<Rightarrow> 's pool \<Rightarrow> 's pool exec" where
  "spawn_sub_events add L pid p =
     (let (b, p) = shouldCreateSubEvent p
      in if b then
           (let (n, g) = rngIntn 3 (rng p)
            in create_sub_events add L pid [0..<n + 1] (p\<lparr>rng := g\<rparr>))
         else Done p)"

definition anchor_event ::
    "(string \<Rightarrow> beacon_anchor \<Rightarrow> 's \<Rightarrow> 's) \<Rightarrow> go_time \<Rightarrow> (beacon_error + round) \<Rightarrow> string \<Rightarrow> 's pool \<Rightarrow>
       's pool exec" where
  "anchor_event anchor now fetched i p =
     (let p = p\<lparr>eventCount := wrap64 (eventCount p + 1)\<rparr>
      in if eventCount p \<ge> AnchorInterval (cfg p) then
           (case ensureBeaconRound now fetched p of
              (Inl err, p) \<Rightarrow> sendError (AnchorFailed err) p
            | (Inr r, p) \<Rightarrow>
                (if Number r > lastBeaconRound p then
                   Done (p\<lparr>dag := anchor i \<lparr>Round = Number r, Anchor_Randomness = Randomness r\<rparr> (dag p),
                           lastBeaconRound := Number r, eventCount := 0\<rparr>)
                 else sendError (StaleRound (Number r) (lastBeaconRound p)) p))
         else Done p)"

text \<open>The event case of the loop's \<open>select\<close>, from the received event to the next iteration.\<close>

definition run_event ::
    "(event \<Rightarrow> 's \<Rightarrow> dag_error option \<times> 's) \<Rightarrow> (string \<Rightarrow> beacon_anchor \<Rightarrow> 's \<Rightarrow> 's) \<Rightarrow> cid_lib \<Rightarrow>
       go_time \<Rightarrow> (beacon_error + round) \<Rightarrow> event \<Rightarrow> 's pool \<Rightarrow> 's pool exec" where
  "run_event add anchor L now fetched e p =
     (case add e (dag p) of
        (Some err, d) \<Rightarrow> sendError (AddFailed (ID e) err) (p\<lparr>dag := d\<rparr>)
      | (None, d) \<Rightarrow>
          exec_bind (notifySubscribers e (p\<lparr>dag := d\<rparr>))
            (\<lambda>p. exec_bind (spawn_sub_events add L (ID e) (addRecentEvent (ID e) p))
              (anchor_event anchor now fetched (ID e))))"

text \<open>The verify case.\<close>

definition run_verify :: "('s \<Rightarrow> dag_error option exec) \<Rightarrow> 's pool \<Rightarrow> 's pool exec" where
  "run_verify verify p =
     exec_bind (verify (dag p))
       (\<lambda>r. case r of None \<Rightarrow> Done p | Some err \<Rightarrow> sendError (VerifyFailed err) p)"

section \<open>Closing\<close>

text \<open>
  \<open>Close\<close> in its three critical parts: signal shutdown; close the error channel once the run
  goroutine has exited; close the remaining subscriber channels.
\<close>

definition close_signal :: "'s pool \<Rightarrow> 's pool exec" where
  "close_signal p = (if done_closed p then Panic else Done (p\<lparr>running := False, done_closed := True\<rparr>))"

definition close_errors :: "'s pool \<Rightarrow> 's pool exec" where
  "close_errors p = exec_bind (close_chan (errCh p)) (\<lambda>ch. Done (p\<lparr>errCh := ch\<rparr>))"

definition close_subscribers :: "'s pool \<Rightarrow> 's pool exec" where
  "close_subscribers p =
     exec_bind (close_all (subscribers p) (sub_chans p))
       (\<lambda>h. Done (p\<lparr>sub_chans := h, subscribers := []\<rparr>))"

definition pool_Close :: "'s pool \<Rightarrow> 's pool exec" where
  "pool_Close p =
     exec_bind (close_signal p) (\<lambda>p. exec_bind (close_errors p) close_subscribers)"

end
