(* ===== verification/PoolInv.thy ===== *)
theory PoolInv
  imports Pool MemoryDag IpfsDag
begin

text \<open>
  The invariant of the event pool's run loop over any store that meets the contract
  \<open>dag_store\<close>, and the effect of each operation of the loop: what it leaves unchanged, that it
  cannot panic while the channels it sends on are open, and that it keeps the invariant.
\<close>

section \<open>The invariant\<close>

text \<open>The part of the state that notifications, errors and random draws do not touch.\<close>

definition frame_eq :: "'s pool \<Rightarrow> 's pool \<Rightarrow> bool" where
  "frame_eq p p' \<longleftrightarrow> cfg p' = cfg p \<and> dag p' = dag p \<and> running p' = running p \<and>
     done_closed p' = done_closed p \<and> eventCh p' = eventCh p \<and> subscribers p' = subscribers p \<and>
     sub_fresh p' = sub_fresh p \<and> beaconCh p' = beaconCh p \<and> recentEvents p' = recentEvents p \<and>
     lastBeaconRound p' = lastBeaconRound p \<and> eventCount p' = eventCount p"

text \<open>
  Channels: the error channel and the channels in the subscriber list are open; subscribers
  are distinct.
\<close>

definition chans_open :: "'s pool \<Rightarrow> bool" where
  "chans_open p \<longleftrightarrow> \<not> chan_closed (errCh p) \<and> distinct (subscribers p) \<and>
     (\<forall>s \<in> set (subscribers p). s < sub_fresh p \<and> \<not> chan_closed (sub_chans p s))"

text \<open>
  Anchors: no anchored round exceeds the last one the pool used, and a round anchors at most
  one event.
\<close>

definition anchors_ok :: "event_map \<Rightarrow> u64 \<Rightarrow> bool" where
  "anchors_ok m n \<longleftrightarrow>
     (\<forall>i e a. m i = Some e \<longrightarrow> Beacon e = Some a \<longrightarrow> 0 < Round a \<and> Round a \<le> n) \<and>
     (\<forall>i j e f a b. m i = Some e \<longrightarrow> m j = Some f \<longrightarrow> Beacon e = Some a \<longrightarrow> Beacon f = Some b \<longrightarrow>
        Round a = Round b \<longrightarrow> i = j)"

text \<open>
  The whole: a well-formed graph, recent events that are stored, distinct and at most a
  hundred, ordered anchors, open channels.
\<close>

definition recent_ok :: "event_map \<Rightarrow> string list \<Rightarrow> bool" where
  "recent_ok m r \<longleftrightarrow> set r \<subseteq> dom m \<and> distinct r \<and> length r \<le> maxRecentEvents"

definition pool_ok :: "('s \<Rightarrow> event_map) \<Rightarrow> 's pool \<Rightarrow> bool" where
  "pool_ok lookup p \<longleftrightarrow> dag_wf (lookup (dag p)) \<and> recent_ok (lookup (dag p)) (recentEvents p) \<and>
     anchors_ok (lookup (dag p)) (lastBeaconRound p) \<and> chans_open p"

text \<open>The text form of a CID is never empty.\<close>

definition cid_nonempty :: "cid_lib \<Rightarrow> bool" where
  "cid_nonempty L \<longleftrightarrow> (\<forall>b h. mh_sum L b = Inr h \<longrightarrow> cid_string L h \<noteq> [])"

text \<open>What \<open>AddEvent\<close> puts on the event channel, and what the loop creates itself.\<close>

definition fresh_event :: "event \<Rightarrow> bool" where
  "fresh_event e \<longleftrightarrow> ID e \<noteq> [] \<and> Children e = [] \<and> Beacon e = None"

section \<open>Frames\<close>

lemma frame_eq_refl [pool_simps, simp]: "frame_eq p p"
  by (simp add: frame_eq_def)

lemma frame_eq_trans: "frame_eq p q \<Longrightarrow> frame_eq q r \<Longrightarrow> frame_eq p r"
  by (simp add: frame_eq_def)

lemma sendError_Done:
  assumes "chans_open p"
  shows "\<exists>p'. sendError err p = Done p' \<and> frame_eq p p' \<and> chans_open p' \<and>
    sub_chans p' = sub_chans p \<and>
    buf (errCh p') = (if length (buf (errCh p)) < chan_cap (errCh p) then buf (errCh p) @ [err]
                      else buf (errCh p))"
proof -
  have "\<not> chan_closed (errCh p)" using assms by (simp add: chans_open_def)
  then obtain b ch where t: "try_send err (errCh p) = Done (b, ch)"
    using try_send_open [of "errCh p" err] by blast
  have d: "sendError err p = Done (p\<lparr>errCh := ch\<rparr>)" by (simp add: sendError_def t)
  have "frame_eq p (p\<lparr>errCh := ch\<rparr>)" by (simp add: frame_eq_def)
  moreover have "chans_open (p\<lparr>errCh := ch\<rparr>)"
    using assms try_send_Done [OF t] by (simp add: chans_open_def)
  moreover have "buf ch = (if length (buf (errCh p)) < chan_cap (errCh p) then buf (errCh p) @ [err]
      else buf (errCh p))"
    using try_send_Done [OF t] by presburger
  ultimately show ?thesis using d by (intro exI [of _ "p\<lparr>errCh := ch\<rparr>"]) simp
qed

lemma notify_loop_Done:
  "distinct ss \<Longrightarrow> \<forall>s \<in> set ss. \<not> chan_closed (sub_chans p s) \<Longrightarrow>
     \<exists>p'. notify_loop e ss p = Done p' \<and> frame_eq p p' \<and> errCh p' = errCh p \<and>
       (\<forall>s. chan_closed (sub_chans p' s) = chan_closed (sub_chans p s) \<and>
            buf (sub_chans p' s) = buf (sub_chans p s) @
              (if s \<in> set ss \<and> length (buf (sub_chans p s)) < chan_cap (sub_chans p s) then [e] else [])) \<and>
       droppedNotifications p' = droppedNotifications p +
         of_nat (length (filter (\<lambda>s. \<not> length (buf (sub_chans p s)) < chan_cap (sub_chans p s)) ss))"
proof (induction ss arbitrary: p)
  case Nil
  then show ?case by simp
next
  case (Cons s ss)
  from Cons.prems have "\<not> chan_closed (sub_chans p s)" by simp
  then obtain b ch where t: "try_send e (sub_chans p s) = Done (b, ch)"
    using try_send_open [of "sub_chans p s" e] by blast
  define q where "q = (if b then p\<lparr>sub_chans := (sub_chans p)(s := ch)\<rparr>
    else p\<lparr>droppedNotifications := droppedNotifications p + 1\<rparr>)"
  have sc: "x \<noteq> s \<Longrightarrow> sub_chans q x = sub_chans p x" for x by (simp add: q_def)
  have scs: "x \<in> set ss \<Longrightarrow> sub_chans q x = sub_chans p x" for x
    using sc [of x] Cons.prems(1) by (cases "x = s") simp_all
  have ss: "chan_closed (sub_chans q s) = chan_closed (sub_chans p s)"
      "buf (sub_chans q s) = buf (sub_chans p s) @
         (if length (buf (sub_chans p s)) < chan_cap (sub_chans p s) then [e] else [])"
    using try_send_Done [OF t] by (auto simp: q_def)
  have fq: "frame_eq p q" "errCh q = errCh p" by (simp_all add: q_def frame_eq_def)
  have dq: "droppedNotifications q = droppedNotifications p +
      (if length (buf (sub_chans p s)) < chan_cap (sub_chans p s) then 0 else 1)"
    using try_send_Done [OF t] by (auto simp: q_def)
  have flt: "filter (\<lambda>x. \<not> length (buf (sub_chans q x)) < chan_cap (sub_chans q x)) ss =
      filter (\<lambda>x. \<not> length (buf (sub_chans p x)) < chan_cap (sub_chans p x)) ss"
  proof (rule filter_cong [OF refl])
    fix x assume "x \<in> set ss"
    from scs [OF this] show "(\<not> length (buf (sub_chans q x)) < chan_cap (sub_chans q x)) =
        (\<not> length (buf (sub_chans p x)) < chan_cap (sub_chans p x))" by simp
  qed
  have oq: "\<forall>x \<in> set ss. \<not> chan_closed (sub_chans q x)"
    using Cons.prems(2) scs by simp
  have dss: "distinct ss" using Cons.prems(1) by simp
  obtain p' where p': "notify_loop e ss q = Done p'" "frame_eq q p'" "errCh p' = errCh q"
    and b': "\<And>x. chan_closed (sub_chans p' x) = chan_closed (sub_chans q x) \<and>
            buf (sub_chans p' x) = buf (sub_chans q x) @
              (if x \<in> set ss \<and> length (buf (sub_chans q x)) < chan_cap (sub_chans q x) then [e] else [])"
    and d': "droppedNotifications p' = droppedNotifications q +
         of_nat (length (filter (\<lambda>x. \<not> length (buf (sub_chans q x)) < chan_cap (sub_chans q x)) ss))"
    using Cons.IH [OF dss oq] by blast
  have "notify_loop e (s # ss) p = Done p'" using p'(1) by (simp add: t q_def)
  moreover have "frame_eq p p'" using fq(1) p'(2) by (rule frame_eq_trans)
  moreover have "chan_closed (sub_chans p' x) = chan_closed (sub_chans p x) \<and>
      buf (sub_chans p' x) = buf (sub_chans p x) @
        (if x \<in> set (s # ss) \<and> length (buf (sub_chans p x)) < chan_cap (sub_chans p x) then [e] else [])" for x
    using b' [of x] ss sc [of x] Cons.prems(1) by (cases "x = s") auto
  ultimately show ?case using p'(3) fq(2) d' dq flt by auto
qed

lemma notifySubscribers_Done:
  assumes "chans_open p"
  shows "\<exists>p'. notifySubscribers e p = Done p' \<and> frame_eq p p' \<and> chans_open p' \<and> errCh p' = errCh p"
proof -
  have d: "distinct (subscribers p)" and o: "\<forall>s \<in> set (subscribers p). \<not> chan_closed (sub_chans p s)"
    using assms by (simp_all add: chans_open_def)
  obtain p' where p': "notify_loop e (subscribers p) p = Done p'" "frame_eq p p'" "errCh p' = errCh p"
    and c: "\<And>s. chan_closed (sub_chans p' s) = chan_closed (sub_chans p s)"
    using notify_loop_Done [OF d o, of e] by blast
  have "chans_open p'" using assms p'(2,3) c by (simp add: chans_open_def frame_eq_def)
  with p' show ?thesis by (simp add: notifySubscribers_def)
qed

section \<open>Random parents\<close>

lemma try_parent_Some:
  assumes "try_parent j sn seen g = (Some i, g')" and "sn \<noteq> []"
  shows "i \<in> set sn - seen"
  using assms by (induction j sn seen g rule: try_parent.induct)
    (auto simp: rngIntn_def Let_def split: if_splits)

lemma try_parent_empty:
  "sn \<noteq> [] \<Longrightarrow> \<exists>i g'. try_parent (Suc j) sn {} g = (Some i, g')"
  by (simp add: rngIntn_def Let_def)

lemma try_parent_pos: "try_parent j sn seen g = (r, g') \<Longrightarrow>
    tape g' = tape g \<and> tape_pos g \<le> tape_pos g' \<and> tape_pos g' \<le> tape_pos g + j"
proof (induction j arbitrary: g)
  case 0
  then show ?case by simp
next
  case (Suc j)
  define h where "h = g\<lparr>tape_pos := Suc (tape_pos g)\<rparr>"
  have h: "tape h = tape g" "tape_pos h = Suc (tape_pos g)" by (simp_all add: h_def)
  show ?case
  proof (cases "sn ! (tape g (tape_pos g) mod length sn) \<in> seen")
    case True
    with Suc.prems have "try_parent j sn seen h = (r, g')" by (simp add: rngIntn_def h_def)
    from Suc.IH [OF this] h show ?thesis by simp
  next
    case False
    with Suc.prems have "g' = h" by (simp add: rngIntn_def h_def)
    with h show ?thesis by simp
  qed
qed

lemma select_loop_spec:
  "select_loop k sn ps g = (qs, g') \<Longrightarrow> sn \<noteq> [] \<Longrightarrow> distinct ps \<Longrightarrow> set ps \<subseteq> set sn \<Longrightarrow>
    distinct qs \<and> set qs \<subseteq> set sn \<and> length qs \<le> length ps + k \<and> length ps \<le> length qs \<and>
    tape g' = tape g \<and> tape_pos g \<le> tape_pos g' \<and> tape_pos g' \<le> tape_pos g + 5 * k"
proof (induction k arbitrary: ps g)
  case 0
  then show ?case by simp
next
  case (Suc k)
  obtain r h where t: "try_parent 5 sn (set ps) g = (r, h)" by fastforce
  note pos = try_parent_pos [OF t]
  show ?case
  proof (cases r)
    case None
    with Suc.prems(1) t have "select_loop k sn ps h = (qs, g')" by simp
    from Suc.IH [OF this Suc.prems(2-4)] pos show ?thesis by simp
  next
    case (Some i)
    have i: "i \<in> set sn" "i \<notin> set ps" using try_parent_Some [OF t [unfolded Some] Suc.prems(2)] by auto
    from Suc.prems(1) t Some have s: "select_loop k sn (ps @ [i]) h = (qs, g')" by simp
    have "distinct (ps @ [i])" "set (ps @ [i]) \<subseteq> set sn" using i Suc.prems(3,4) by simp_all
    from Suc.IH [OF s Suc.prems(2) this] pos show ?thesis by simp
  qed
qed

lemma select_loop_nonempty:
  assumes "select_loop (Suc k) sn [] g = (qs, g')" and "sn \<noteq> []" shows "qs \<noteq> []"
proof -
  obtain i h where t: "try_parent 5 sn {} g = (Some i, h)"
    using try_parent_empty [OF assms(2), of 4 g] by (auto simp: eval_nat_numeral)
  then have s: "select_loop k sn [i] h = (qs, g')" using assms(1) by simp
  have "i \<in> set sn" using try_parent_Some [OF t assms(2)] by simp
  with select_loop_spec [OF s assms(2)] show ?thesis by auto
qed

lemma selectRandomParents_frame:
  assumes "selectRandomParents n p = (ps, p')"
  shows "p' = p\<lparr>rng := rng p'\<rparr>" and "distinct ps" and "set ps \<subseteq> set (recentEvents p)"
    and "length ps \<le> min n (length (recentEvents p))"
    and "tape_pos (rng p') \<le> tape_pos (rng p) + 5 * min n (length (recentEvents p))"
proof -
  have "p' = p\<lparr>rng := rng p'\<rparr> \<and> distinct ps \<and> set ps \<subseteq> set (recentEvents p) \<and>
      length ps \<le> min n (length (recentEvents p)) \<and>
      tape_pos (rng p') \<le> tape_pos (rng p) + 5 * min n (length (recentEvents p))"
  proof (cases "recentEvents p = []")
    case True
    with assms show ?thesis by (simp add: selectRandomParents_def)
  next
    case False
    obtain qs g where s: "select_loop (min n (length (recentEvents p))) (recentEvents p) [] (rng p) = (qs, g)"
      by fastforce
    from s assms False have "ps = qs" "p' = p\<lparr>rng := g\<rparr>"
      by (simp_all add: selectRandomParents_def)
    with select_loop_spec [OF s False] show ?thesis by simp
  qed
  then show "p' = p\<lparr>rng := rng p'\<rparr>" and "distinct ps" and "set ps \<subseteq> set (recentEvents p)"
    and "length ps \<le> min n (length (recentEvents p))"
    and "tape_pos (rng p') \<le> tape_pos (rng p) + 5 * min n (length (recentEvents p))" by simp_all
qed

lemma maybe_parents_frame:
  assumes "maybe_parents p = (ps, p')"
  shows "p' = p\<lparr>rng := rng p'\<rparr> \<and> distinct ps \<and> set ps \<subseteq> set (recentEvents p) \<and> length ps \<le> 3"
proof -
  obtain b g where b: "below_complexity (cfg p) (rng p) = (b, g)" by fastforce
  obtain n g' where n: "rngIntn maxSubEventParents g = (n, g')" by fastforce
  have n3: "n + 1 \<le> 3" using n by (auto simp: rngIntn_def maxSubEventParents_def)
  show ?thesis
  proof (cases b)
    case True
    with assms b n have s: "selectRandomParents (n + 1) (p\<lparr>rng := g'\<rparr>) = (ps, p')"
      by (simp add: maybe_parents_def)
    show ?thesis using selectRandomParents_frame [OF s] n3 by simp
  next
    case False
    with assms b show ?thesis by (auto simp: maybe_parents_def)
  qed
qed

section \<open>Recent events\<close>

lemma addRecentEvent_simps [simp, pool_simps]:
  "cfg (addRecentEvent i p) = cfg p" "dag (addRecentEvent i p) = dag p"
  "lastBeaconRound (addRecentEvent i p) = lastBeaconRound p"
  "eventCount (addRecentEvent i p) = eventCount p" "errCh (addRecentEvent i p) = errCh p"
  "subscribers (addRecentEvent i p) = subscribers p" "sub_chans (addRecentEvent i p) = sub_chans p"
  "sub_fresh (addRecentEvent i p) = sub_fresh p" "rng (addRecentEvent i p) = rng p"
  "beaconCh (addRecentEvent i p) = beaconCh p"
  "chans_open (addRecentEvent i p) = chans_open p"
  by (simp_all add: addRecentEvent_def Let_def chans_open_def)

lemma addRecentEvent_drop:
  "length (recentEvents p) \<le> maxRecentEvents \<Longrightarrow>
     recentEvents (addRecentEvent i p) =
       drop (Suc (length (recentEvents p)) - maxRecentEvents) (recentEvents p @ [i])"
proof (cases "recentEvents p")
  case Nil
  then show ?thesis by (simp add: addRecentEvent_def maxRecentEvents_def)
next
  case (Cons a r)
  assume "length (recentEvents p) \<le> maxRecentEvents"
  with Cons have "length r < 99 \<or> length r = 99" by (auto simp: maxRecentEvents_def)
  then show ?thesis using Cons
    by (elim disjE) (simp_all add: addRecentEvent_def Let_def maxRecentEvents_def)
qed

lemma recent_ok_add:
  assumes "recent_ok m (recentEvents p)" and "i \<notin> set (recentEvents p)" and "dom m \<subseteq> dom m'"
    and "i \<in> dom m'"
  shows "recent_ok m' (recentEvents (addRecentEvent i p))"
proof -
  let ?r = "recentEvents p @ [i]" and ?n = "Suc (length (recentEvents p)) - maxRecentEvents"
  have l: "length (recentEvents p) \<le> maxRecentEvents" using assms(1) by (simp add: recent_ok_def)
  have s: "set ?r \<subseteq> dom m'" and d: "distinct ?r"
    using assms(1,2,4) subset_trans [OF _ assms(3), of "set (recentEvents p)"]
    unfolding recent_ok_def by simp_all
  have "set (drop ?n ?r) \<subseteq> dom m'" by (rule subset_trans [OF set_drop_subset s])
  moreover have "distinct (drop ?n ?r)" using d by (rule distinct_drop)
  moreover have "length (drop ?n ?r) \<le> maxRecentEvents" using l by simp
  ultimately show ?thesis unfolding recent_ok_def addRecentEvent_drop [OF l] by blast
qed

section \<open>Anchors\<close>

lemma anchors_ok_cong:
  assumes "anchors_ok m n" and "\<And>i y a. m' i = Some y \<Longrightarrow> Beacon y = Some a \<Longrightarrow>
      \<exists>x. m i = Some x \<and> Beacon x = Some a"
  shows "anchors_ok m' n"
  unfolding anchors_ok_def
proof (intro conjI allI impI)
  fix i e a assume "m' i = Some e" "Beacon e = Some a"
  with assms(2) obtain x where "m i = Some x" "Beacon x = Some a" by blast
  with assms(1) show "0 < Round a" "Round a \<le> n" unfolding anchors_ok_def by blast+
next
  fix i j e f a b
  assume "m' i = Some e" "m' j = Some f" "Beacon e = Some a" "Beacon f = Some b" "Round a = Round b"
  moreover from this assms(2) obtain x y where "m i = Some x" "Beacon x = Some a"
    "m j = Some y" "Beacon y = Some b" by meson
  ultimately show "i = j" using assms(1) unfolding anchors_ok_def by blast
qed

lemma anchors_ok_mono: "anchors_ok m n \<Longrightarrow> n \<le> k \<Longrightarrow> anchors_ok m k"
  unfolding anchors_ok_def by (meson order.trans)

lemma anchors_ok_set_beacon:
  assumes "anchors_ok m n" and "n < Round a"
  shows "anchors_ok (set_beacon i a m) (Round a)"
proof (cases "m i")
  case None
  then show ?thesis using anchors_ok_mono [OF assms(1) less_imp_le [OF assms(2)]]
    by (simp add: set_beacon_def)
next
  case (Some x)
  then have s: "set_beacon i a m = m(i \<mapsto> x\<lparr>Beacon := Some a\<rparr>)" by (simp add: set_beacon_def)
  have old: "0 < Round b \<and> Round b < Round a" if "m j = Some y" "Beacon y = Some b" for j y b
    using assms that unfolding anchors_ok_def by (meson order.strict_trans1)
  have new: "0 < Round b \<and> Round b \<le> Round a \<and> (j \<noteq> i \<longrightarrow> m j = Some y) \<and> (j = i \<longrightarrow> b = a)"
    if "set_beacon i a m j = Some y" "Beacon y = Some b" for j y b
    using that assms(2) old [of j y b] by (cases "j = i") (auto simp: s word_gt_0)
  show ?thesis
    unfolding anchors_ok_def
  proof (intro conjI allI impI)
    fix j e b assume "set_beacon i a m j = Some e" "Beacon e = Some b"
    with new show "0 < Round b" "Round b \<le> Round a" by blast+
  next
    fix j k e f b c
    assume j: "set_beacon i a m j = Some e" "Beacon e = Some b"
      and k: "set_beacon i a m k = Some f" "Beacon f = Some c" and eq: "Round b = Round c"
    show "j = k"
    proof (rule ccontr)
      assume ne: "j \<noteq> k"
      consider "j = i" "k \<noteq> i" | "k = i" "j \<noteq> i" | "j \<noteq> i" "k \<noteq> i" using ne by blast
      then show False
      proof cases
        case 1 then show False using new [OF j] new [OF k] old [of k f c] k(2) eq by simp
      next
        case 2 then show False using new [OF j] new [OF k] old [of j e b] j(2) eq by simp
      next
        case 3 with new [OF j] new [OF k] have "m j = Some e" "m k = Some f" by blast+
        with assms(1) j(2) k(2) eq ne show False unfolding anchors_ok_def by blast
      qed
    qed
  qed
qed

section \<open>Steps of the loop\<close>

text \<open>
  What every part of the loop before anchoring guarantees: the pool's own counters and channels
  other than those written to are unchanged, and stored events stay, with their content and
  anchor.
\<close>

definition pool_ext :: "('s \<Rightarrow> event_map) \<Rightarrow> 's pool \<Rightarrow> 's pool \<Rightarrow> bool" where
  "pool_ext lookup p p' \<longleftrightarrow> cfg p' = cfg p \<and> lastBeaconRound p' = lastBeaconRound p \<and>
     eventCount p' = eventCount p \<and> beaconCh p' = beaconCh p \<and> subscribers p' = subscribers p \<and>
     (\<forall>i x. lookup (dag p) i = Some x \<longrightarrow>
        (\<exists>y. lookup (dag p') i = Some y \<and> same_refs x y \<and> Beacon y = Beacon x))"

lemma pool_ext_refl: "pool_ext lookup p p"
  by (simp add: pool_ext_def)

lemma pool_ext_trans:
  assumes "pool_ext lookup p q" and "pool_ext lookup q r" shows "pool_ext lookup p r"
proof -
  have "\<exists>z. lookup (dag r) i = Some z \<and> same_refs x z \<and> Beacon z = Beacon x"
    if x: "lookup (dag p) i = Some x" for i x
  proof -
    obtain y where y: "lookup (dag q) i = Some y" "same_refs x y" "Beacon y = Beacon x"
      using assms(1) x unfolding pool_ext_def by blast
    obtain z where z: "lookup (dag r) i = Some z" "same_refs y z" "Beacon z = Beacon y"
      using assms(2) y(1) unfolding pool_ext_def by blast
    with y same_refs_trans show ?thesis by auto
  qed
  with assms show ?thesis by (simp add: pool_ext_def)
qed

lemma pool_ext_frame: "frame_eq p p' \<Longrightarrow> pool_ext lookup p p'"
  by (simp add: pool_ext_def frame_eq_def)

lemma frame_pool_ok: "frame_eq p p' \<Longrightarrow> chans_open p' \<Longrightarrow> pool_ok lookup p \<Longrightarrow> pool_ok lookup p'"
  by (simp add: pool_ok_def frame_eq_def)

lemma pool_ext_dom: "pool_ext lookup p p' \<Longrightarrow> i \<in> dom (lookup (dag p)) \<Longrightarrow> i \<in> dom (lookup (dag p'))"
  unfolding pool_ext_def by blast

lemma computeEventCID_fresh:
  assumes "computeEventCID L e = Inr e'" and "cid_nonempty L"
  shows "ID e' \<noteq> []" and "e' = e\<lparr>ID := ID e'\<rparr>"
  using assms by (auto simp: computeEventCID_def ComputeCID_def cid_nonempty_def split: sum.splits)

context dag_store begin

lemma add_step:
  assumes a: "add e (dag p) = (r, d)" and f: "fresh_event e" and ok: "pool_ok lookup p"
  shows "pool_ok lookup (p\<lparr>dag := d\<rparr>)" and "pool_ext lookup p (p\<lparr>dag := d\<rparr>)"
    and "r = None \<Longrightarrow> ID e \<notin> dom (lookup (dag p)) \<and> lookup d (ID e) = Some e"
proof -
  have ne: "ID e \<noteq> []" and b: "Beacon e = None" using f by (simp_all add: fresh_event_def)
  note dm = add_dom [OF a ne]
  have wf: "dag_wf (lookup d)" using add_wf [OF a ne] ok by (simp add: pool_ok_def)
  have same: "\<exists>y. lookup d i = Some y \<and> same_refs x y \<and> Beacon y = Beacon x"
    if x: "lookup (dag p) i = Some x" for i x
  proof (cases r)
    case None
    with a ne add_ok have ad: "addable (lookup (dag p)) e"
      and g: "same_graph ((lookup (dag p))(ID e \<mapsto> e)) (lookup d)"
      and bc: "lookup (dag p) i = Some x \<Longrightarrow> lookup d i = Some y \<Longrightarrow> Beacon y = Beacon x" for y
      by blast+
    have "i \<noteq> ID e" using ad x by (auto simp: addable_def)
    then have "((lookup (dag p))(ID e \<mapsto> e)) i = Some x" using x by simp
    from same_graphD [OF g this] bc x show ?thesis by blast
  next
    case (Some err)
    with a ne add_err have g: "same_graph (lookup (dag p)) (lookup d)"
      and bc: "lookup (dag p) i = Some x \<Longrightarrow> lookup d i = Some y \<Longrightarrow> Beacon y = Beacon x" for y
      by blast+
    from same_graphD [OF g x] bc x show ?thesis by blast
  qed
  have new: "ID e \<notin> dom (lookup (dag p)) \<and> lookup d (ID e) = Some e" if "r = None"
    using a ne add_ok that unfolding addable_def by blast
  have anch: "anchors_ok (lookup d) (lastBeaconRound p)"
  proof (rule anchors_ok_cong)
    show "anchors_ok (lookup (dag p)) (lastBeaconRound p)" using ok by (simp add: pool_ok_def)
    fix i y a assume y: "lookup d i = Some y" "Beacon y = Some a"
    have "i \<noteq> ID e \<or> r \<noteq> None" using new y b by (cases r) auto
    then have "i \<in> dom (lookup (dag p))" using y(1) dm by (auto split: if_splits)
    then obtain x where "lookup (dag p) i = Some x" by blast
    with same [OF this] y show "\<exists>x. lookup (dag p) i = Some x \<and> Beacon x = Some a" by auto
  qed
  have "recent_ok (lookup d) (recentEvents p)"
    using ok dm by (auto simp: pool_ok_def recent_ok_def split: if_splits)
  with wf anch ok show "pool_ok lookup (p\<lparr>dag := d\<rparr>)" by (simp add: pool_ok_def chans_open_def)
  show "pool_ext lookup p (p\<lparr>dag := d\<rparr>)" using same by (simp add: pool_ext_def)
  show "r = None \<Longrightarrow> ID e \<notin> dom (lookup (dag p)) \<and> lookup d (ID e) = Some e" by (rule new)
qed

text \<open>An accepted event is announced and remembered.\<close>

lemma announce_step:
  assumes a: "add e (dag p) = (None, d)" and f: "fresh_event e" and ok: "pool_ok lookup p"
  shows "\<exists>q. notifySubscribers e (p\<lparr>dag := d\<rparr>) = Done q \<and> pool_ok lookup (addRecentEvent (ID e) q) \<and>
    pool_ext lookup p (addRecentEvent (ID e) q) \<and> lookup (dag q) (ID e) = Some e \<and>
    errCh q = errCh p"
proof -
  note st = add_step [OF a f ok]
  have "chans_open (p\<lparr>dag := d\<rparr>)" using st(1) by (simp add: pool_ok_def)
  then obtain q where q: "notifySubscribers e (p\<lparr>dag := d\<rparr>) = Done q" "frame_eq (p\<lparr>dag := d\<rparr>) q"
    "chans_open q" "errCh q = errCh (p\<lparr>dag := d\<rparr>)"
    using notifySubscribers_Done by blast
  have okq: "pool_ok lookup q" by (rule frame_pool_ok [OF q(2,3) st(1)])
  have rq: "recentEvents q = recentEvents p" and dq: "dag q = d" using q(2) by (simp_all add: frame_eq_def)
  have new: "ID e \<notin> dom (lookup (dag p))" "lookup d (ID e) = Some e" using st(3) by simp_all
  have "ID e \<notin> set (recentEvents q)" using ok new(1) rq by (auto simp: pool_ok_def recent_ok_def)
  with okq new dq have "recent_ok (lookup d) (recentEvents (addRecentEvent (ID e) q))"
    by (intro recent_ok_add [where m = "lookup d"]) (auto simp: pool_ok_def)
  then have "pool_ok lookup (addRecentEvent (ID e) q)" using okq dq by (simp add: pool_ok_def)
  moreover have "pool_ext lookup p q"
    by (rule pool_ext_trans [OF st(2) pool_ext_frame [OF q(2)]])
  then have "pool_ext lookup p (addRecentEvent (ID e) q)" by (simp add: pool_ext_def)
  ultimately show ?thesis using q new dq by auto
qed

end

end
