(* ===== verification/PoolSteps.thy ===== *)
theory PoolSteps
  imports PoolInv
begin

text \<open>
  The run loop's event case over any store that meets \<open>dag_store\<close>: creation of sub-events,
  anchoring, and their composition; each part returns, keeps the invariant of \<open>PoolInv\<close> and
  says which errors it can report.
\<close>

section \<open>Sub-events\<close>

lemma rng_frame: "frame_eq p (p\<lparr>rng := g\<rparr>)" "chans_open (p\<lparr>rng := g\<rparr>) = chans_open p"
  by (simp_all add: frame_eq_def chans_open_def)

text \<open>The errors the creation of sub-events reports when the main event is stored.\<close>

definition sub_error :: "pool_error \<Rightarrow> bool" where
  "sub_error x \<longleftrightarrow> (case x of
       SubCIDFailed err \<Rightarrow> True
     | SubAddFailed i err \<Rightarrow> (case err of ErrMissingParent p \<Rightarrow> False | ErrInvalidEvent m \<Rightarrow> False | _ \<Rightarrow> True)
     | _ \<Rightarrow> False)"

definition errors_since :: "'s pool \<Rightarrow> 's pool \<Rightarrow> pool_error list \<Rightarrow> bool" where
  "errors_since p p' es \<longleftrightarrow> buf (errCh p') = buf (errCh p) @ es"

lemma errors_since_refl: "errCh p' = errCh p \<Longrightarrow> errors_since p p' []"
  by (simp add: errors_since_def)

lemma errors_since_trans: "errors_since p q es \<Longrightarrow> errors_since q r fs \<Longrightarrow> errors_since p r (es @ fs)"
  by (simp add: errors_since_def)

lemma sendError_errors:
  assumes "chans_open p"
  shows "\<exists>p' es. sendError err p = Done p' \<and> frame_eq p p' \<and> chans_open p' \<and>
    errors_since p p' es \<and> set es \<subseteq> {err}"
proof -
  obtain p' where p': "sendError err p = Done p'" "frame_eq p p'" "chans_open p'"
    and b: "buf (errCh p') = (if length (buf (errCh p)) < chan_cap (errCh p) then buf (errCh p) @ [err]
                      else buf (errCh p))"
    using sendError_Done [OF assms, of err] by blast
  have "errors_since p p' (if length (buf (errCh p)) < chan_cap (errCh p) then [err] else [])"
    using b by (simp add: errors_since_def)
  with p' show ?thesis
    by (intro exI [of _ p'] exI [of _ "if length (buf (errCh p)) < chan_cap (errCh p) then [err] else []"])
      auto
qed

text \<open>The outcome all parts of the loop share: the invariant, the frame, the errors.\<close>

definition good_step ::
    "('s \<Rightarrow> event_map) \<Rightarrow> (pool_error \<Rightarrow> bool) \<Rightarrow> 's pool \<Rightarrow> 's pool \<Rightarrow> bool" where
  "good_step lookup P p p' \<longleftrightarrow> pool_ok lookup p' \<and> pool_ext lookup p p' \<and>
     (\<exists>es. errors_since p p' es \<and> list_all P es)"

lemma good_step_trans:
  assumes "good_step lookup P p q" and "good_step lookup P q r" shows "good_step lookup P p r"
proof -
  obtain es fs where "errors_since p q es" "list_all P es" "errors_since q r fs" "list_all P fs"
    using assms unfolding good_step_def by blast
  then have "errors_since p r (es @ fs) \<and> list_all P (es @ fs)" using errors_since_trans by auto
  with assms pool_ext_trans show ?thesis unfolding good_step_def by blast
qed

lemma good_step_quiet:
  "pool_ok lookup p' \<Longrightarrow> pool_ext lookup p p' \<Longrightarrow> errCh p' = errCh p \<Longrightarrow> good_step lookup P p p'"
  unfolding good_step_def
  by (intro conjI exI [of _ "[]"]) (simp_all add: errors_since_refl)

lemma good_step_rng: "pool_ok lookup p \<Longrightarrow> good_step lookup P p (p\<lparr>rng := g\<rparr>)"
  using frame_pool_ok [OF rng_frame(1)] pool_ext_frame [OF rng_frame(1)]
  by (intro good_step_quiet) (auto simp: rng_frame(2) pool_ok_def)

lemma good_step_sendError:
  assumes "pool_ok lookup p" and "P err"
  shows "\<exists>p'. sendError err p = Done p' \<and> good_step lookup P p p' \<and> frame_eq p p'"
proof -
  have "chans_open p" using assms(1) by (simp add: pool_ok_def)
  then obtain p' es where p': "sendError err p = Done p'" "frame_eq p p'" "chans_open p'"
    and es: "errors_since p p' es" "set es \<subseteq> {err}"
    using sendError_errors by blast
  have "list_all P es" using es(2) assms(2) by (auto simp: list_all_iff)
  with p' es(1) frame_pool_ok [OF p'(2,3) assms(1)] pool_ext_frame [OF p'(2)]
  show ?thesis unfolding good_step_def by blast
qed

context dag_store begin

lemma create_sub_event_ok:
  assumes ok: "pool_ok lookup p" and L: "cid_nonempty L"
    and pid: "pid \<noteq> []" "pid \<in> dom (lookup (dag p))"
  shows "\<exists>p'. create_sub_event add L pid i p = Done p' \<and> good_step lookup sub_error p p'"
proof -
  obtain ps q where m: "maybe_parents p = (ps, q)" by fastforce
  have qp: "q = p\<lparr>rng := rng q\<rparr>" and ps: "set ps \<subseteq> set (recentEvents p)"
    using maybe_parents_frame [OF m] by blast+
  have dq: "dag q = dag p" using arg_cong [OF qp, of dag] by simp
  have g: "good_step lookup sub_error p q" by (subst qp) (rule good_step_rng [OF ok])
  then have okq: "pool_ok lookup q" by (simp add: good_step_def)
  show ?thesis
  proof (cases "computeEventCID L (sub_event pid i ps)")
    case (Inl err)
    obtain p' where "sendError (SubCIDFailed err) q = Done p'" "good_step lookup sub_error q p'"
      using good_step_sendError [OF okq, of sub_error "SubCIDFailed err"] by (auto simp: sub_error_def)
    with g Inl m good_step_trans show ?thesis by (fastforce simp: create_sub_event_def)
  next
    case (Inr s)
    note cf = computeEventCID_fresh [OF Inr L]
    have s: "fresh_event s" "Type s = SubEvent" "ParentID s = pid" "Parents s = ps"
      using cf(1) arg_cong [OF cf(2), of Children] arg_cong [OF cf(2), of Beacon]
        arg_cong [OF cf(2), of Type] arg_cong [OF cf(2), of ParentID] arg_cong [OF cf(2), of Parents]
      by (simp_all add: fresh_event_def sub_event_def)
    have refs: "set (refs s) \<subseteq> dom (lookup (dag q))"
      using s pid(2) ps ok dq by (auto simp: refs_def pool_ok_def recent_ok_def)
    obtain r d where a: "add s (dag q) = (r, d)" by fastforce
    note st = add_step [OF a s(1) okq]
    show ?thesis
    proof (cases r)
      case (Some err)
      have ne: "ID s \<noteq> []" using cf(1) .
      have "\<And>x. err \<noteq> ErrMissingParent x" "\<And>x. err \<noteq> ErrInvalidEvent x"
        using add_missing [OF _ ne] add_invalid [OF _ ne] a Some refs s(3) pid(1) by blast+
      then have "sub_error (SubAddFailed (ID s) err)" by (cases err) (auto simp: sub_error_def)
      then obtain p' where p': "sendError (SubAddFailed (ID s) err) (q\<lparr>dag := d\<rparr>) = Done p'"
        "good_step lookup sub_error (q\<lparr>dag := d\<rparr>) p'"
        using good_step_sendError [OF st(1)] by blast
      have "good_step lookup sub_error q (q\<lparr>dag := d\<rparr>)"
        using st(1,2) by (intro good_step_quiet) simp_all
      then have "good_step lookup sub_error p p'"
        using g p'(2) good_step_trans by blast
      then show ?thesis using m Inr a Some p'(1) by (simp add: create_sub_event_def)
    next
      case None
      obtain q' where q': "notifySubscribers s (q\<lparr>dag := d\<rparr>) = Done q'"
        "pool_ok lookup (addRecentEvent (ID s) q')" "pool_ext lookup q (addRecentEvent (ID s) q')"
        "errCh q' = errCh q"
        using announce_step [OF a [unfolded None] s(1) okq] by blast
      have "good_step lookup sub_error q (addRecentEvent (ID s) q')"
        using q' by (intro good_step_quiet) simp_all
      then have "good_step lookup sub_error p (addRecentEvent (ID s) q')"
        using g good_step_trans by blast
      then show ?thesis using m Inr a None q'(1) by (simp add: create_sub_event_def)
    qed
  qed
qed

lemma create_sub_events_ok:
  assumes "pool_ok lookup p" and "cid_nonempty L" and "pid \<noteq> []" and "pid \<in> dom (lookup (dag p))"
  shows "\<exists>p'. create_sub_events add L pid is p = Done p' \<and> good_step lookup sub_error p p'"
  using assms(1,4)
proof (induction "is" arbitrary: p)
  case Nil
  then show ?case by (simp add: good_step_quiet pool_ext_refl)
next
  case (Cons i "is")
  obtain q where q: "create_sub_event add L pid i p = Done q" "good_step lookup sub_error p q"
    using create_sub_event_ok [OF Cons.prems(1) assms(2,3) Cons.prems(2)] by blast
  have "pool_ok lookup q" and "pid \<in> dom (lookup (dag q))"
    using q(2) Cons.prems(2) pool_ext_dom unfolding good_step_def by blast+
  from Cons.IH [OF this] obtain p' where
    p': "create_sub_events add L pid is q = Done p'" "good_step lookup sub_error q p'" by blast
  have "good_step lookup sub_error p p'" by (rule good_step_trans [OF q(2) p'(2)])
  with p'(1) q(1) show ?case by simp
qed

lemma spawn_sub_events_ok:
  assumes "pool_ok lookup p" and "cid_nonempty L" and "pid \<noteq> []" and "pid \<in> dom (lookup (dag p))"
  shows "\<exists>p'. spawn_sub_events add L pid p = Done p' \<and> good_step lookup sub_error p p'"
proof -
  obtain b g where b: "below_complexity (cfg p) (rng p) = (b, g)" by fastforce
  obtain n h where n: "rngIntn 3 g = (n, h)" by fastforce
  let ?q = "p\<lparr>rng := g\<rparr>" and ?r = "p\<lparr>rng := h\<rparr>"
  have q: "good_step lookup sub_error p ?q" and r: "good_step lookup sub_error p ?r"
    using assms(1) by (rule good_step_rng)+
  show ?thesis
  proof (cases b)
    case False
    with b q show ?thesis by (simp add: spawn_sub_events_def shouldCreateSubEvent_def)
  next
    case True
    have "pool_ok lookup ?r" using r by (simp add: good_step_def)
    then obtain p' where "create_sub_events add L pid [0..<n + 1] ?r = Done p'"
      "good_step lookup sub_error ?r p'"
      using create_sub_events_ok [of ?r L pid "[0..<n + 1]"] assms(2-4) by auto
    with good_step_trans [OF r] b n True show ?thesis
      by (simp add: spawn_sub_events_def shouldCreateSubEvent_def del: upt_Suc)
  qed
qed

end

section \<open>Anchoring\<close>

lemma ensureBeaconRound_spec:
  assumes "ensureBeaconRound now fetched p = (res, q)"
  shows "q = p\<lparr>beaconCh := beaconCh q\<rparr>" and "res = Inr r \<Longrightarrow> validateBeaconRound now (Some r) = None"
proof -
  obtain o' ch where t: "try_recv (beaconCh p) = (o', ch)" by fastforce
  consider ro where "o' = Some ro" | "o' = None" by (cases o') auto
  then have "q = p\<lparr>beaconCh := beaconCh q\<rparr> \<and> (res = Inr r \<longrightarrow> validateBeaconRound now (Some r) = None)"
  proof cases
    case 1
    show ?thesis
    proof (cases "validateBeaconRound now ro")
      case None
      then obtain x where "ro = Some x" by (cases ro) (auto simp: validateBeaconRound_def)
      with assms t 1 None show ?thesis by (auto simp: ensureBeaconRound_def)
    next
      case (Some err)
      with assms t 1 show ?thesis by (auto simp: ensureBeaconRound_def)
    qed
  next
    case 2
    with assms t show ?thesis
      by (auto simp: ensureBeaconRound_def split: sum.splits option.splits)
  qed
  then show "q = p\<lparr>beaconCh := beaconCh q\<rparr>"
    and "res = Inr r \<Longrightarrow> validateBeaconRound now (Some r) = None" by blast+
qed

text \<open>
  The two outcomes of the anchoring part, for the state \<open>p\<close> before and \<open>p'\<close> after it: the
  event is left alone and counted, or it is anchored to a valid round newer than any before.
\<close>

definition not_anchored :: "('s \<Rightarrow> event_map) \<Rightarrow> 's pool \<Rightarrow> 's pool \<Rightarrow> bool" where
  "not_anchored lookup p p' \<longleftrightarrow> lookup (dag p') = lookup (dag p) \<and>
     lastBeaconRound p' = lastBeaconRound p \<and> eventCount p' = wrap64 (eventCount p + 1)"

definition anchored ::
    "('s \<Rightarrow> event_map) \<Rightarrow> go_time \<Rightarrow> string \<Rightarrow> round \<Rightarrow> 's pool \<Rightarrow> 's pool \<Rightarrow> bool" where
  "anchored lookup now i r p p' \<longleftrightarrow> validateBeaconRound now (Some r) = None \<and>
     lastBeaconRound p < Number r \<and> lastBeaconRound p' = Number r \<and> eventCount p' = 0 \<and>
     AnchorInterval (cfg p) \<le> wrap64 (eventCount p + 1) \<and>
     lookup (dag p') = set_beacon i \<lparr>Round = Number r, Anchor_Randomness = Randomness r\<rparr> (lookup (dag p))"

context dag_store begin

lemma anchor_event_ok:
  assumes ok: "pool_ok lookup p"
  shows "\<exists>p'. anchor_event write_beacon now fetched i p = Done p' \<and> pool_ok lookup p' \<and>
    cfg p' = cfg p \<and> (not_anchored lookup p p' \<or> (\<exists>r. anchored lookup now i r p p'))"
proof -
  define c where "c = p\<lparr>eventCount := wrap64 (eventCount p + 1)\<rparr>"
  have okc: "pool_ok lookup c" using ok by (simp add: c_def pool_ok_def chans_open_def)
  have c: "dag c = dag p" "lastBeaconRound c = lastBeaconRound p" "cfg c = cfg p"
    "eventCount c = wrap64 (eventCount p + 1)" by (simp_all add: c_def)
  show ?thesis
  proof (cases "wrap64 (eventCount p + 1) < AnchorInterval (cfg p)")
    case True
    then have "anchor_event write_beacon now fetched i p = Done c"
      by (simp add: anchor_event_def c_def)
    moreover have "not_anchored lookup p c" using c by (simp add: not_anchored_def)
    ultimately show ?thesis using okc c(3) by blast
  next
    case False
    obtain res q where e: "ensureBeaconRound now fetched c = (res, q)" by fastforce
    note q = ensureBeaconRound_spec(1) [OF e]
    have fq: "dag q = dag p" "lastBeaconRound q = lastBeaconRound p" "cfg q = cfg p"
      "eventCount q = wrap64 (eventCount p + 1)"
      using arg_cong [OF q, of dag] arg_cong [OF q, of lastBeaconRound] arg_cong [OF q, of cfg]
        arg_cong [OF q, of eventCount] c by simp_all
    have okq: "pool_ok lookup q" by (subst q) (use okc in \<open>simp add: pool_ok_def chans_open_def\<close>)
    have un: "\<exists>p'. sendError err q = Done p' \<and> pool_ok lookup p' \<and> cfg p' = cfg p \<and>
      not_anchored lookup p p'" for err
    proof -
      obtain p' where "sendError err q = Done p'" "good_step lookup (\<lambda>_. True) q p'" "frame_eq q p'"
        using good_step_sendError [OF okq, of "\<lambda>_. True" err] by blast
      with fq show ?thesis by (simp add: good_step_def not_anchored_def frame_eq_def)
    qed
    have ae: "anchor_event write_beacon now fetched i p = (case res of
        Inl err \<Rightarrow> sendError (AnchorFailed err) q
      | Inr r \<Rightarrow> if Number r > lastBeaconRound q then
           Done (q\<lparr>dag := write_beacon i \<lparr>Round = Number r, Anchor_Randomness = Randomness r\<rparr> (dag q),
                   lastBeaconRound := Number r, eventCount := 0\<rparr>)
         else sendError (StaleRound (Number r) (lastBeaconRound q)) q)"
      using False e by (simp add: anchor_event_def c_def)
    consider err where "res = Inl err" | r where "res = Inr r" "\<not> lastBeaconRound q < Number r"
      | r where "res = Inr r" "lastBeaconRound q < Number r" by (cases res) auto
    then show ?thesis
    proof cases
      case 1 with ae un show ?thesis by fastforce
    next
      case 2 with ae un show ?thesis by fastforce
    next
      case (3 r)
      let ?a = "\<lparr>Round = Number r, Anchor_Randomness = Randomness r\<rparr>"
      let ?p = "q\<lparr>dag := write_beacon i ?a (dag q), lastBeaconRound := Number r, eventCount := 0\<rparr>"
      have lk: "lookup (write_beacon i ?a (dag p)) = set_beacon i ?a (lookup (dag p))"
        by (rule lookup_write)
      have v: "validateBeaconRound now (Some r) = None"
        using ensureBeaconRound_spec(2) [OF e] 3 by simp
      have "anchors_ok (set_beacon i ?a (lookup (dag p))) (Round ?a)"
        using ok 3(2) fq(2) by (intro anchors_ok_set_beacon) (auto simp: pool_ok_def)
      then have "pool_ok lookup ?p"
        using okq write_wf [of "dag p" i ?a, unfolded lk] write_dom [of i ?a "dag p"] lk
        by (simp add: pool_ok_def recent_ok_def chans_open_def fq)
      moreover have "anchored lookup now i r p ?p"
        using False 3(2) v by (simp add: anchored_def lk fq)
      ultimately show ?thesis using 3 ae fq(3) by auto
    qed
  qed
qed

text \<open>
  The whole event case for an event the store accepts: it reaches the anchoring part with the event
  stored, and whatever that part does keeps the invariant.
\<close>

lemma run_event_reaches_anchor:
  assumes ok: "pool_ok lookup p" and L: "cid_nonempty L" and f: "fresh_event e"
    and a: "add e (dag p) = (None, d)"
  shows "\<exists>q. run_event add write_beacon L now fetched e p = anchor_event write_beacon now fetched (ID e) q \<and>
    good_step lookup sub_error p q \<and> (\<exists>x. lookup (dag q) (ID e) = Some x \<and> same_refs e x \<and> Beacon x = None)"
proof -
  obtain n where n: "notifySubscribers e (p\<lparr>dag := d\<rparr>) = Done n"
    "pool_ok lookup (addRecentEvent (ID e) n)" "pool_ext lookup p (addRecentEvent (ID e) n)"
    "lookup (dag n) (ID e) = Some e" "errCh n = errCh p"
    using announce_step [OF a f ok] by blast
  define m where "m = addRecentEvent (ID e) n"
  have pm: "good_step lookup sub_error p m"
    using n unfolding m_def by (intro good_step_quiet) simp_all
  have lm: "lookup (dag m) (ID e) = Some e" using n(4) by (simp add: m_def)
  then have em: "ID e \<in> dom (lookup (dag m))" by blast
  have okm: "pool_ok lookup m" and ne: "ID e \<noteq> []"
    using n(2) f by (simp_all add: m_def fresh_event_def)
  obtain q where q: "spawn_sub_events add L (ID e) m = Done q" "good_step lookup sub_error m q"
    using spawn_sub_events_ok [OF okm L ne em] by blast
  have eq: "\<exists>x. lookup (dag q) (ID e) = Some x \<and> same_refs e x \<and> Beacon x = None"
    using q(2) lm f unfolding good_step_def pool_ext_def fresh_event_def by fastforce
  have "run_event add write_beacon L now fetched e p = anchor_event write_beacon now fetched (ID e) q"
    using a n(1) q(1) by (simp add: run_event_def m_def)
  with good_step_trans [OF pm q(2)] eq show ?thesis by blast
qed

lemma run_event_accepted:
  assumes ok: "pool_ok lookup p" and L: "cid_nonempty L" and f: "fresh_event e"
    and a: "add e (dag p) = (None, d)"
  shows "\<exists>q p'. run_event add write_beacon L now fetched e p = Done p' \<and> pool_ok lookup p' \<and>
    good_step lookup sub_error p q \<and> (\<exists>x. lookup (dag q) (ID e) = Some x \<and> same_refs e x \<and> Beacon x = None) \<and>
    cfg p' = cfg p \<and> (not_anchored lookup q p' \<or> (\<exists>r. anchored lookup now (ID e) r q p'))"
proof -
  obtain q where q: "run_event add write_beacon L now fetched e p = anchor_event write_beacon now fetched (ID e) q"
    "good_step lookup sub_error p q" "\<exists>x. lookup (dag q) (ID e) = Some x \<and> same_refs e x \<and> Beacon x = None"
    using run_event_reaches_anchor [OF assms] by blast
  then have okq: "pool_ok lookup q" and cq: "cfg q = cfg p" by (simp_all add: good_step_def pool_ext_def)
  obtain p' where p': "anchor_event write_beacon now fetched (ID e) q = Done p'" "pool_ok lookup p'"
    "cfg p' = cfg q" "not_anchored lookup q p' \<or> (\<exists>r. anchored lookup now (ID e) r q p')"
    using anchor_event_ok [OF okq] by blast
  with q cq show ?thesis by auto
qed

lemma run_event_rejected:
  assumes ok: "pool_ok lookup p" and f: "fresh_event e" and a: "add e (dag p) = (Some err, d)"
  shows "\<exists>p'. run_event add write_beacon L now fetched e p = Done p' \<and>
    good_step lookup (\<lambda>x. x = AddFailed (ID e) err) p p' \<and> dag p' = d \<and> frame_eq (p\<lparr>dag := d\<rparr>) p'"
proof -
  note st = add_step [OF a f ok]
  let ?P = "\<lambda>x. x = AddFailed (ID e) err"
  obtain p' where p': "sendError (AddFailed (ID e) err) (p\<lparr>dag := d\<rparr>) = Done p'"
    "good_step lookup ?P (p\<lparr>dag := d\<rparr>) p'" "frame_eq (p\<lparr>dag := d\<rparr>) p'"
    using good_step_sendError [OF st(1), of ?P] by blast
  have "good_step lookup ?P p (p\<lparr>dag := d\<rparr>)" using st(1,2) by (intro good_step_quiet) simp_all
  with p' good_step_trans have "good_step lookup ?P p p'" by blast
  with p' a show ?thesis by (simp add: run_event_def frame_eq_def)
qed

lemma run_event_ok:
  assumes "pool_ok lookup p" and "cid_nonempty L" and "fresh_event e"
  shows "\<exists>p'. run_event add write_beacon L now fetched e p = Done p' \<and> pool_ok lookup p'"
proof -
  obtain r d where a: "add e (dag p) = (r, d)" by fastforce
  show ?thesis
  proof (cases r)
    case None
    with run_event_accepted [OF assms a [unfolded None]] show ?thesis by blast
  next
    case (Some err)
    with run_event_rejected [OF assms(1,3) a [unfolded Some]] show ?thesis
      unfolding good_step_def by blast
  qed
qed

end

end
