(* ===== verification/PoolProps.thy ===== *)
theory PoolProps
  imports PoolSteps MemoryDag CidProps BeaconProps
begin

text \<open>
  Properties of the event pool: configuration and tickers, subscriptions and notifications,
  the identifiers \<open>AddEvent\<close> returns, the random choice of parents, the window of recent
  events, the validation of beacon rounds and the spine of anchored events, and the run loop
  over the in-memory store.
\<close>

section \<open>Samples\<close>

definition sample_pool_cfg :: pool_config where
  "sample_pool_cfg = \<lparr>EventRate = 1000, AnchorInterval = 2, SubEventComplex = Fin (1 / 2),
     VerifyInterval = 5, RNGSeed = 7\<rparr>"

definition sample_rng :: rng where
  "sample_rng = \<lparr>tape = (\<lambda>n. 2 ^ 62 + n), tape_pos = 0\<rparr>"

definition sample_pool :: "'s \<Rightarrow> 's pool" where
  "sample_pool d = projr (NewPool True True True (Inr (make_chan 1)) 0 (\<lambda>_. sample_rng) d sample_pool_cfg)"

lemma sample_pool_eq: "sample_pool d =
  \<lparr>cfg = sample_pool_cfg, dag = d, running = True, done_closed = False,
   eventCh = make_chan 100, errCh = make_chan 100, beaconCh = make_chan 1,
   subscribers = [], sub_chans = (\<lambda>_. make_chan subscriberBufferSize),
   sub_fresh = 0, recentEvents = [], lastBeaconRound = 0, rng = sample_rng,
   droppedNotifications = 0, eventCount = 0\<rparr>"
  by (simp add: sample_pool_def NewPool_def check_pool_config_def sample_pool_cfg_def)

definition sample_round :: "u64 \<Rightarrow> round" where
  "sample_round n = \<lparr>Number = n, Randomness = [1], Signature = [2], Timestamp = time_Unix 1000\<rparr>"

section \<open>Configuration\<close>

text \<open>\<open>NewPool\<close> succeeds exactly when host, DAG and beacon are given, the rate and both
  intervals are positive, the complexity is a number from 0 to 1 or not a number at all (NaN passes
  both comparisons), and the beacon accepts the subscription; the pool then starts running and
  open, with no subscribers and no recent events.\<close>

lemma NewPool_accepts:
  "(\<exists>p. NewPool h g b sub now_ns source d c = Inr p) \<longleftrightarrow>
     h \<and> g \<and> b \<and> EventRate c > 0 \<and> AnchorInterval c > 0 \<and> VerifyInterval c > 0 \<and>
     (SubEventComplex c = NaN \<or> (\<exists>q. SubEventComplex c = Fin q \<and> 0 \<le> q \<and> q \<le> 1)) \<and>
     (\<exists>ch. sub = Inr ch)"
proof -
  have f: "f64_less x (Fin 0) \<or> f64_less (Fin 1) x \<longleftrightarrow>
      \<not> (x = NaN \<or> (\<exists>q. x = Fin q \<and> 0 \<le> q \<and> q \<le> 1))" for x
    by (cases x) auto
  show ?thesis
    unfolding NewPool_def check_pool_config_def f
    by (cases h; cases g; cases b; cases sub) (auto simp: not_le)
qed

text \<open>When the products of rate and verify interval in nanoseconds fit 64 bits, both tickers
  of the run loop start, with exactly those periods.\<close>

lemma run_tickers_exact:
  assumes "check_pool_config c = None" and "VerifyInterval c * EventRate c * Millisecond < 2 ^ 63"
  shows "run_tickers c = Done (EventRate c * Millisecond, VerifyInterval c * EventRate c * Millisecond)"
proof -
  have r: "EventRate c \<ge> 1" and v: "VerifyInterval c \<ge> 1"
    using assms(1) by (auto simp: check_pool_config_def split: if_splits)
  define x where "x = VerifyInterval c * EventRate c"
  have le: "EventRate c \<le> x"
    using mult_right_mono [OF v, of "EventRate c"] r by (simp add: x_def)
  have x: "x * Millisecond < 2 ^ 63" using assms(2) by (simp add: x_def)
  then have b: "x < 2 ^ 63" "EventRate c * Millisecond < 2 ^ 63"
    using le r by (simp_all add: Millisecond_def)
  have w: "wrap64 (EventRate c * Millisecond) = EventRate c * Millisecond"
      "wrap64 x = x" "wrap64 (x * Millisecond) = x * Millisecond"
    using b x le r by (intro wrap64_id; simp add: int64_def Millisecond_def)+
  show ?thesis
    unfolding run_tickers_def dur_mult_def x_def [symmetric] w NewTicker_def
    using le r by (simp add: Millisecond_def)
qed

text \<open>The validation of \<open>NewPool\<close> does not exclude an overflow of that product: there are
  64-bit configurations it accepts for which the run loop panics when it starts its tickers.\<close>

lemma run_tickers_overflow:
  "\<exists>c. check_pool_config c = None \<and> int64 (EventRate c) \<and> int64 (VerifyInterval c) \<and>
     run_tickers c = Panic"
proof -
  let ?c = "sample_pool_cfg\<lparr>VerifyInterval := 10000000000\<rparr>"
  have "check_pool_config ?c = None \<and> int64 (EventRate ?c) \<and> int64 (VerifyInterval ?c) \<and>
     run_tickers ?c = Panic"
    by (simp add: check_pool_config_def sample_pool_cfg_def int64_def run_tickers_def NewTicker_def
        dur_mult_def wrap64_def Millisecond_def)
  then show ?thesis by blast
qed

section \<open>Adding events\<close>

text \<open>On an open pool, \<open>AddEvent\<close> builds a main event with the given data and parents whose ID
  is its content identifier (so it passes \<open>VerifyCID\<close>), and its ID does not depend on the order
  of the parents; on a closed pool it returns \<open>ErrPoolClosed\<close>.\<close>

lemma pool_AddEvent_event:
  assumes "pool_AddEvent_begin L data ps p = Inr e"
  shows "\<not> done_closed p \<and> Type e = MainEvent \<and> Data e = data \<and> Parents e = ps \<and>
    Children e = [] \<and> Beacon e = None \<and> VerifyCID L (Some e) = None \<and>
    (mset qs = mset ps \<longrightarrow> (\<exists>f. pool_AddEvent_begin L data qs p = Inr f \<and> ID f = ID e))"
proof -
  have nd: "\<not> done_closed p" using assms by (simp add: pool_AddEvent_begin_def split: if_splits)
  with assms have ce: "computeEventCID L (main_event data ps) = Inr e"
    by (auto simp: pool_AddEvent_begin_def split: sum.splits)
  then have c: "ComputeCID L (Some (main_event data ps)) = Inr (ID e)"
    and e: "e = (main_event data ps)\<lparr>ID := ID e\<rparr>"
    by (auto simp: computeEventCID_def split: sum.splits)
  have fields: "Type e = MainEvent" "Data e = data" "Parents e = ps" "Children e = []" "Beacon e = None" "ParentID e = []"
    by (subst e, simp add: main_event_def)+
  have s: "serializeEventContent e = serializeEventContent (main_event data ps)"
    by (rule serialize_cong) (simp add: same_content_def fields main_event_def)
  have v: "VerifyCID L (Some e) = None"
    using c unfolding VerifyCID_None s by (auto simp: ComputeCID_def split: sum.splits)
  have "\<exists>f. pool_AddEvent_begin L data qs p = Inr f \<and> ID f = ID e" if q: "mset qs = mset ps"
  proof -
    have "serializeEventContent (main_event data qs) = serializeEventContent (main_event data ps)"
      by (rule serialize_cong) (simp add: same_content_def main_event_def q)
    then have "ComputeCID L (Some (main_event data qs)) = Inr (ID e)" using c by (simp add: ComputeCID_def)
    then show ?thesis using nd by (simp add: pool_AddEvent_begin_def computeEventCID_def)
  qed
  with nd fields v show ?thesis by blast
qed

section \<open>Recent events and random parents\<close>

text \<open>C28: \<open>selectRandomParents\<close> returns distinct recent events, at most as many as asked for, at
  least one if there is any recent event and one is asked for, and draws at most five numbers per
  parent; it changes nothing but the generator.\<close>

theorem selectRandomParents_distinct_recent:
  assumes "selectRandomParents n p = (ps, p')"
  shows "distinct ps \<and> set ps \<subseteq> set (recentEvents p) \<and> length ps \<le> n \<and>
    (ps = [] \<longleftrightarrow> n = 0 \<or> recentEvents p = []) \<and>
    tape_pos (rng p') \<le> tape_pos (rng p) + 5 * n \<and> p' = p\<lparr>rng := rng p'\<rparr>"
proof -
  note fr = selectRandomParents_frame [OF assms]
  have "ps \<noteq> []" if ne: "n \<noteq> 0" "recentEvents p \<noteq> []"
  proof -
    obtain k where k: "min n (length (recentEvents p)) = Suc k"
      using ne by (cases n; cases "recentEvents p") auto
    obtain qs g where s: "select_loop (Suc k) (recentEvents p) [] (rng p) = (qs, g)" by fastforce
    with assms ne k have "ps = qs" by (simp add: selectRandomParents_def)
    with select_loop_nonempty [OF s ne(2)] show ?thesis by simp
  qed
  moreover have "ps = []" if "n = 0 \<or> recentEvents p = []" using that fr(3,4) by auto
  ultimately show ?thesis using fr by auto
qed

theorem selectRandomParents_distinct_recent_witness:
  "fst (selectRandomParents 2 ((sample_pool NewMemoryDAG)\<lparr>recentEvents := [''a'', ''b'', ''c'']\<rparr>)) \<noteq> []"
  using selectRandomParents_distinct_recent [OF prod.collapse [symmetric],
      of 2 "(sample_pool NewMemoryDAG)\<lparr>recentEvents := [''a'', ''b'', ''c'']\<rparr>"]
  by simp

text \<open>The recent events are a sliding window: after remembering any list of IDs, they are the
  last hundred of the old recent events followed by that list.\<close>

lemma recentEvents_last_hundred:
  assumes "length (recentEvents p) \<le> maxRecentEvents"
  shows "recentEvents (fold addRecentEvent is p) =
    drop (length (recentEvents p @ is) - maxRecentEvents) (recentEvents p @ is)"
  using assms
proof (induction "is" arbitrary: p)
  case Nil
  then show ?case by simp
next
  case (Cons i "is")
  let ?q = "addRecentEvent i p"
  have r: "recentEvents ?q = drop (Suc (length (recentEvents p)) - maxRecentEvents) (recentEvents p @ [i])"
    by (rule addRecentEvent_drop [OF Cons.prems])
  then have l: "length (recentEvents ?q) \<le> maxRecentEvents" using Cons.prems by simp
  have app: "recentEvents ?q @ is =
      drop (Suc (length (recentEvents p)) - maxRecentEvents) (recentEvents p @ i # is)"
    using r by (simp add: maxRecentEvents_def)
  define k where "k = Suc (length (recentEvents p)) - maxRecentEvents"
  define l where "l = recentEvents p @ i # is"
  have k: "length l - k - maxRecentEvents + k = length l - maxRecentEvents"
    by (simp add: l_def k_def)
  have "recentEvents (fold addRecentEvent is ?q) = drop (length (drop k l) - maxRecentEvents) (drop k l)"
    using Cons.IH [OF l] unfolding app k_def l_def .
  then show ?case unfolding drop_drop length_drop k by (simp add: l_def)
qed

section \<open>Notification\<close>

text \<open>Announcing an event while the subscribers' channels are open never panics: every
  subscriber with room in its buffer gets the event at the end of it, the others lose it and are
  counted in \<open>DroppedNotifications\<close>; no other channel changes.\<close>

lemma notifySubscribers_delivers:
  assumes "distinct (subscribers p)" and "\<forall>s \<in> set (subscribers p). \<not> chan_closed (sub_chans p s)"
  shows "\<exists>p'. notifySubscribers e p = Done p' \<and>
    (\<forall>s. buf (sub_chans p' s) = buf (sub_chans p s) @
       (if s \<in> set (subscribers p) \<and> length (buf (sub_chans p s)) < chan_cap (sub_chans p s)
        then [e] else [])) \<and>
    droppedNotifications p' = droppedNotifications p +
      of_nat (length (filter (\<lambda>s. length (buf (sub_chans p s)) \<ge> chan_cap (sub_chans p s)) (subscribers p)))"
  using notify_loop_Done [OF assms, of e] unfolding notifySubscribers_def not_less by blast

section \<open>Beacon rounds\<close>

text \<open>On times whose distance fits a \<open>Duration\<close>, a beacon round is accepted exactly when its
  number is not zero, it has randomness and a signature, and it is at most one hour old; a round
  from the future is accepted.\<close>

lemma validateBeaconRound_accepts:
  assumes "time_ok now" and "time_ok (Timestamp r)" and "int64 (time_ns now - time_ns (Timestamp r))"
  shows "validateBeaconRound now (Some r) = None \<longleftrightarrow>
    Number r \<noteq> 0 \<and> Randomness r \<noteq> [] \<and> Signature r \<noteq> [] \<and>
    time_ns now \<le> time_ns (Timestamp r) + 3600 * Second"
  by (auto simp: validateBeaconRound_def Let_def time_Sub_exact [OF assms] Hour_def)

lemma sample_round_fields: "Number (sample_round n) = n" "Randomness (sample_round n) = [1]"
  "Signature (sample_round n) = [2]" "Timestamp (sample_round n) = time_Unix 1000"
  by (simp_all add: sample_round_def)

lemma sample_round_valid_iff:
  assumes "n \<noteq> 0" and "1000 \<le> s" and "s < 2 ^ 32"
  shows "time_ok (time_Unix s) \<and> time_ok (Timestamp (sample_round n)) \<and>
    int64 (time_ns (time_Unix s) - time_ns (Timestamp (sample_round n)))"
proof -
  have "time_ok (time_Unix s) \<and> time_ns (time_Unix s) = (s + unixToInternal) * Second"
    using assms by (intro time_Unix_exact) simp_all
  moreover have "time_ok (time_Unix 1000) \<and> time_ns (time_Unix 1000) = (1000 + unixToInternal) * Second"
    by (rule time_Unix_exact) simp_all
  ultimately show ?thesis using assms
    by (simp add: sample_round_fields int64_def Second_def unixToInternal_def)
qed

text \<open>A round waiting in the beacon channel is always tried first; if it is invalid, or if the
  beacon has closed the channel, no round is obtained, although a direct fetch would have given a
  valid one. A closed channel stays so: from then on the pool never anchors again.\<close>

lemma ensureBeaconRound_channel_first:
  "(buf (beaconCh p) = r # rs \<longrightarrow> validateBeaconRound now (Some r) = Some err \<longrightarrow>
     fst (ensureBeaconRound now fetched p) = Inl (InvalidFromChannel err)) \<and>
   (buf (beaconCh p) = [] \<longrightarrow> chan_closed (beaconCh p) \<longrightarrow>
     ensureBeaconRound now fetched p = (Inl (InvalidFromChannel RoundNil), p)) \<and>
   (buf (beaconCh p) = [] \<longrightarrow> \<not> chan_closed (beaconCh p) \<longrightarrow> validateBeaconRound now (Some r) = None \<longrightarrow>
     ensureBeaconRound now (Inr r) p = (Inr r, p))"
  by (simp add: ensureBeaconRound_def try_recv_def) (simp add: validateBeaconRound_def)

section \<open>The anchored spine\<close>

text \<open>
  A run of the anchoring part over accepted events, where each event comes with the time and the
  round a direct fetch returns; and the anchors that a spine with one anchor every \<open>ai\<close> events
  consists of, for events numbered from \<open>c + 1\<close>.
\<close>

fun anchor_all ::
    "(string \<Rightarrow> beacon_anchor \<Rightarrow> 's \<Rightarrow> 's) \<Rightarrow> (string \<times> go_time \<times> round) list \<Rightarrow> 's pool \<Rightarrow> 's pool exec" where
  "anchor_all anchor [] p = Done p"
| "anchor_all anchor ((i, now, r) # xs) p =
     exec_bind (anchor_event anchor now (Inr r) i p) (anchor_all anchor xs)"

definition anchor_of :: "round \<Rightarrow> beacon_anchor" where
  "anchor_of r = \<lparr>Round = Number r, Anchor_Randomness = Randomness r\<rparr>"

fun spine :: "int \<Rightarrow> int \<Rightarrow> (string \<times> go_time \<times> round) list \<Rightarrow> (string \<times> beacon_anchor) list" where
  "spine ai c [] = []"
| "spine ai c ((i, now, r) # xs) =
     (if ai dvd c + 1 then [(i, anchor_of r)] else []) @ spine ai (c + 1) xs"

lemma anchor_event_fetched:
  assumes "buf (beaconCh p) = []" and "\<not> chan_closed (beaconCh p)"
    and "validateBeaconRound now (Some r) = None" and "lastBeaconRound p < Number r"
  shows "anchor_event anchor now (Inr r) i p =
    Done (if AnchorInterval (cfg p) \<le> wrap64 (eventCount p + 1)
      then p\<lparr>dag := anchor i (anchor_of r) (dag p), lastBeaconRound := Number r, eventCount := 0\<rparr>
      else p\<lparr>eventCount := wrap64 (eventCount p + 1)\<rparr>)"
  using assms by (simp add: anchor_event_def ensureBeaconRound_def try_recv_def anchor_of_def Let_def)

lemma mod_succ_dvd:
  fixes c ai :: int
  assumes "0 < ai"
  shows "ai dvd c + 1 \<longleftrightarrow> ai \<le> c mod ai + 1"
    and "\<not> ai dvd c + 1 \<Longrightarrow> (c + 1) mod ai = c mod ai + 1"
proof -
  have r: "0 \<le> c mod ai" "c mod ai < ai" using assms by simp_all
  have e: "(c + 1) mod ai = (c mod ai + 1) mod ai" by (simp add: mod_simps)
  show d: "ai dvd c + 1 \<longleftrightarrow> ai \<le> c mod ai + 1"
  proof (cases "c mod ai + 1 = ai")
    case True
    then have "(c + 1) mod ai = 0" using e by simp
    with True show ?thesis by (simp add: dvd_eq_mod_eq_0)
  next
    case False
    with r have "(c + 1) mod ai = c mod ai + 1" using e by simp
    with False r show ?thesis by (simp add: dvd_eq_mod_eq_0)
  qed
  show "(c + 1) mod ai = c mod ai + 1" if "\<not> ai dvd c + 1"
    using that r e unfolding d by simp
qed

lemma anchor_all_spine:
  assumes "0 < AnchorInterval (cfg p)" and "eventCount p = c mod AnchorInterval (cfg p)"
    and "int64 (AnchorInterval (cfg p))" and "buf (beaconCh p) = []" and "\<not> chan_closed (beaconCh p)"
    and "\<forall>(i, now, r) \<in> set xs. validateBeaconRound now (Some r) = None \<and> lastBeaconRound p < Number r"
    and "sorted_wrt (\<lambda>(_, _, r) (_, _, s). Number r < Number s) xs"
  shows "\<exists>p'. anchor_all anchor xs p = Done p' \<and>
    dag p' = fold (\<lambda>(i, a). anchor i a) (spine (AnchorInterval (cfg p)) c xs) (dag p) \<and>
    eventCount p' = (c + int (length xs)) mod AnchorInterval (cfg p)"
  using assms
proof (induction xs arbitrary: p c)
  case Nil
  then show ?case by simp
next
  case (Cons x xs)
  obtain i now r where x: "x = (i, now, r)" by (cases x) auto
  let ?ai = "AnchorInterval (cfg p)"
  have v: "validateBeaconRound now (Some r) = None" "lastBeaconRound p < Number r"
    using Cons.prems(6) x by simp_all
  note md = mod_succ_dvd [OF Cons.prems(1), of c]
  have "0 \<le> c mod ?ai" "c mod ?ai < ?ai" using Cons.prems(1) by simp_all
  then have w: "wrap64 (eventCount p + 1) = c mod ?ai + 1"
    using Cons.prems(2,3) by (simp add: int64_def)
  define q where "q = (if ?ai \<le> wrap64 (eventCount p + 1)
      then p\<lparr>dag := anchor i (anchor_of r) (dag p), lastBeaconRound := Number r, eventCount := 0\<rparr>
      else p\<lparr>eventCount := wrap64 (eventCount p + 1)\<rparr>)"
  have step: "anchor_event anchor now (Inr r) i p = Done q"
    unfolding q_def by (rule anchor_event_fetched [OF Cons.prems(4,5) v])
  have q: "cfg q = cfg p" "beaconCh q = beaconCh p" "lastBeaconRound q \<le> Number r"
    using v(2) by (simp_all add: q_def less_imp_le)
  have cq: "eventCount q = (c + 1) mod ?ai"
  proof (cases "?ai dvd c + 1")
    case True
    then have "eventCount q = 0" using md(1) w by (simp add: q_def)
    with True show ?thesis by simp
  next
    case False
    then have "eventCount q = wrap64 (eventCount p + 1)" using md(1) w by (simp add: q_def)
    with md(2) [OF False] w show ?thesis by simp
  qed
  have dq: "dag q = fold (\<lambda>(i, a). anchor i a) (if ?ai dvd c + 1 then [(i, anchor_of r)] else []) (dag p)"
    using md(1) w by (cases "?ai dvd c + 1") (simp_all add: q_def)
  have "\<forall>(j, t, s) \<in> set xs. validateBeaconRound t (Some s) = None \<and> lastBeaconRound q < Number s"
    using Cons.prems(6,7) x q(3) by (auto intro: order.strict_trans1)
  then obtain p' where p': "anchor_all anchor xs q = Done p'"
    "dag p' = fold (\<lambda>(i, a). anchor i a) (spine ?ai (c + 1) xs) (dag q)"
    "eventCount p' = (c + 1 + int (length xs)) mod ?ai"
    using Cons.IH [of q "c + 1"] Cons.prems q cq by auto
  have "anchor_all anchor (x # xs) p = Done p'" using step p'(1) x by simp
  moreover have "dag p' = fold (\<lambda>(i, a). anchor i a) (spine ?ai c (x # xs)) (dag p)"
    using p'(2) dq x by simp
  ultimately show ?case using p'(3) by (auto simp: algebra_simps)
qed

text \<open>C18: the spine has deterministic intervals: starting from a fresh count, if every event finds
  a valid round newer than the one before it, exactly the events whose number is a multiple of
  \<open>AnchorInterval\<close> are anchored, each to the round fetched for it, in order, and nothing else is
  written to the store.\<close>

theorem pool_spine_deterministic:
  assumes "0 < AnchorInterval (cfg p)" and "int64 (AnchorInterval (cfg p))" and "eventCount p = 0"
    and "buf (beaconCh p) = []" and "\<not> chan_closed (beaconCh p)"
    and "\<forall>(i, now, r) \<in> set xs. validateBeaconRound now (Some r) = None \<and> lastBeaconRound p < Number r"
    and "sorted_wrt (\<lambda>(_, _, r) (_, _, s). Number r < Number s) xs"
  shows "\<exists>p'. anchor_all anchor xs p = Done p' \<and>
    dag p' = fold (\<lambda>(i, a). anchor i a) (spine (AnchorInterval (cfg p)) 0 xs) (dag p) \<and>
    eventCount p' = int (length xs) mod AnchorInterval (cfg p)"
  using anchor_all_spine [OF assms(1) _ assms(2,4-7), of 0] assms(3) by simp

lemma sample_round_accepted: "n \<noteq> 0 \<Longrightarrow> validateBeaconRound (time_Unix 1000) (Some (sample_round n)) = None"
  by (simp add: validateBeaconRound_def sample_round_fields Let_def Hour_def
      time_Sub_exact [of "time_Unix 1000" "time_Unix 1000"] time_Unix_exact int64_def Second_def)

theorem pool_spine_deterministic_witness:
  "\<exists>p'. anchor_all (\<lambda>i a l. l @ [(i, Round a)])
      [(''a'', time_Unix 1000, sample_round 3), (''b'', time_Unix 1000, sample_round 5),
       (''c'', time_Unix 1000, sample_round 6), (''d'', time_Unix 1000, sample_round 9)]
      (sample_pool []) = Done p' \<and> dag p' = [(''b'', 5), (''d'', 9)]"
proof -
  let ?xs = "[(''a'', time_Unix 1000, sample_round 3), (''b'', time_Unix 1000, sample_round 5),
       (''c'', time_Unix 1000, sample_round 6), (''d'', time_Unix 1000, sample_round 9)]"
  let ?p = "sample_pool [] :: (string \<times> u64) list pool"
  have "\<forall>(i, now, r) \<in> set ?xs. validateBeaconRound now (Some r) = None \<and> lastBeaconRound ?p < Number r"
    and "sorted_wrt (\<lambda>(_, _, r) (_, _, s). Number r < Number s) ?xs"
    by (simp_all add: sample_pool_eq sample_round_accepted sample_round_fields)
  with pool_spine_deterministic [where p = ?p and xs = ?xs and anchor = "\<lambda>i a l. l @ [(i, Round a)]"]
  show ?thesis
    by (simp add: sample_pool_eq sample_pool_cfg_def anchor_of_def sample_round_fields int64_def
        del: anchor_all.simps) blast
qed

end
