(* ===== verification/PoolRun.thy ===== *)
theory PoolRun
  imports PoolProps
begin

text \<open>
  Properties of the pool's run loop over the in-memory store: whole histories of loop
  iterations, subscriptions and unsubscriptions, the effect of one accepted or rejected event,
  the errors sub-events can cause, and what the periodic verification reports.
\<close>

abbreviation mem_add :: "event \<Rightarrow> memoryDAG \<Rightarrow> dag_error option \<times> memoryDAG" where
  "mem_add \<equiv> (\<lambda>e. memory_AddEvent (Some e))"

abbreviation mem_run ::
    "cid_lib \<Rightarrow> go_time \<Rightarrow> (beacon_error + round) \<Rightarrow> event \<Rightarrow> memoryDAG pool \<Rightarrow> memoryDAG pool exec" where
  "mem_run \<equiv> run_event mem_add memory_SetBeacon"

lemma mem_add_None: "mem_add e d = (None, d') \<Longrightarrow> addable (mem_events d) e"
  by (elim memory_AddEvent_cases) simp_all

lemma mem_add_addable: "addable (mem_events d) e \<Longrightarrow> \<exists>d'. mem_add e d = (None, d')"
  using addEvent_spec_None [of e "mem_events d" "(linked (ID e) (refs e) (mem_events d))(ID e \<mapsto> e)"]
  by (simp add: memory_AddEvent_spec)

lemma sample_pool_ok: "pool_ok mem_events (sample_pool NewMemoryDAG)"
  by (simp add: sample_pool_eq pool_ok_def recent_ok_def anchors_ok_def chans_open_def NewMemoryDAG_def
      dag_wf_def keys_ok_def refs_ok_def causal_edges_def acyclic_def)

lemma NewPool_ok:
  assumes "NewPool h g b sub ns source NewMemoryDAG c = Inr p" shows "pool_ok mem_events p"
  using assms by (auto simp: NewPool_def pool_ok_def recent_ok_def anchors_ok_def chans_open_def
      NewMemoryDAG_def dag_wf_def keys_ok_def refs_ok_def causal_edges_def acyclic_def
      split: if_splits option.splits sum.splits)

text \<open>The text form of every hash is a \<open>b\<close> and the bytes.\<close>

definition b_lib :: cid_lib where
  "b_lib = \<lparr>mh_sum = Inr, cid_string = (\<lambda>b. CHR ''b'' # map char_of_byte b)\<rparr>"

lemma b_lib_nonempty: "cid_nonempty b_lib"
  by (simp add: cid_nonempty_def b_lib_def)

section \<open>Histories\<close>

text \<open>What can happen to a running pool, one operation after the other.\<close>

datatype pool_action =
    Received event go_time "beacon_error + round"
  | Subscribes
  | Unsubscribes nat

fun do_action :: "cid_lib \<Rightarrow> pool_action \<Rightarrow> memoryDAG pool \<Rightarrow> memoryDAG pool exec" where
  "do_action L (Received e now fetched) p = mem_run L now fetched e p"
| "do_action L Subscribes p = Done (snd (pool_Subscribe p))"
| "do_action L (Unsubscribes s) p = removeSubscriber s p"

fun do_actions :: "cid_lib \<Rightarrow> pool_action list \<Rightarrow> memoryDAG pool \<Rightarrow> memoryDAG pool exec" where
  "do_actions L [] p = Done p"
| "do_actions L (a # as) p = exec_bind (do_action L a p) (do_actions L as)"

fun action_ok :: "pool_action \<Rightarrow> bool" where
  "action_ok (Received e now fetched) = fresh_event e"
| "action_ok _ = True"

lemma pool_Subscribe_ok: "pool_ok lookup p \<Longrightarrow> pool_ok lookup (snd (pool_Subscribe p))"
  by (auto simp: pool_Subscribe_def pool_ok_def chans_open_def less_Suc_eq)

lemma removeSubscriber_ok:
  assumes "pool_ok lookup p"
  shows "\<exists>p'. removeSubscriber s p = Done p' \<and> pool_ok lookup p'"
proof (cases "s \<in> set (subscribers p)")
  case True
  let ?p = "p\<lparr>subscribers := remove1 s (subscribers p),
    sub_chans := (sub_chans p)(s := (sub_chans p s)\<lparr>chan_closed := True\<rparr>)\<rparr>"
  have "chans_open p" using assms by (simp add: pool_ok_def)
  then have "removeSubscriber s p = Done ?p" and "chans_open ?p"
    using True by (simp_all add: removeSubscriber_def close_chan_def chans_open_def)
  with assms show ?thesis by (simp add: pool_ok_def)
next
  case False
  with assms show ?thesis by (simp add: removeSubscriber_def)
qed

lemma do_action_ok:
  assumes "pool_ok mem_events p" and "cid_nonempty L" and "action_ok a"
  shows "\<exists>p'. do_action L a p = Done p' \<and> pool_ok mem_events p'"
proof (cases a)
  case (Received e now fetched)
  with mem.run_event_ok [OF assms(1,2), of e now fetched] assms(3) show ?thesis by simp
next
  case Subscribes
  with pool_Subscribe_ok [OF assms(1)] show ?thesis by simp
next
  case (Unsubscribes s)
  with removeSubscriber_ok [OF assms(1)] show ?thesis by simp
qed

lemma do_actions_ok:
  "pool_ok mem_events p \<Longrightarrow> cid_nonempty L \<Longrightarrow> list_all action_ok as \<Longrightarrow>
     \<exists>p'. do_actions L as p = Done p' \<and> pool_ok mem_events p'"
proof (induction as arbitrary: p)
  case Nil
  then show ?case by simp
next
  case (Cons a as)
  obtain q where q: "do_action L a p = Done q" "pool_ok mem_events q"
    using do_action_ok [OF Cons.prems(1,2), of a] Cons.prems(3) by auto
  with Cons.IH [OF q(2) Cons.prems(2)] Cons.prems(3) show ?case by simp
qed

text \<open>C15: whatever events a new pool over an empty in-memory store receives, at whatever times and
  with whatever answers of the beacon, and whoever subscribes and unsubscribes in between: none
  of these operations panics, the stored graph is well formed and acyclic, the recent events are distinct
  stored events, at most a hundred, and every anchored round is at most the last one used and
  anchors a single event.\<close>

theorem pool_history_safe:
  assumes "NewPool h g b sub ns source NewMemoryDAG c = Inr p" and "cid_nonempty L"
    and "list_all action_ok as"
  shows "\<exists>p'. do_actions L as p = Done p' \<and> dag_wf (mem_events (dag p')) \<and>
    set (recentEvents p') \<subseteq> dom (mem_events (dag p')) \<and> distinct (recentEvents p') \<and>
    length (recentEvents p') \<le> 100 \<and> anchors_ok (mem_events (dag p')) (lastBeaconRound p')"
proof -
  obtain p' where "do_actions L as p = Done p'" "pool_ok mem_events p'"
    using do_actions_ok [OF NewPool_ok [OF assms(1)] assms(2,3)] by blast
  then show ?thesis by (auto simp: pool_ok_def recent_ok_def maxRecentEvents_def)
qed

theorem pool_history_safe_witness:
  "\<exists>p'. do_actions b_lib [Subscribes, Received (main_ev ''1'' []) (time_Unix 1000) (Inr (sample_round 3)),
      Unsubscribes 0, Received (main_ev ''2'' [''1'']) (time_Unix 1000) (Inr (sample_round 4))]
     (sample_pool NewMemoryDAG) = Done p' \<and> dag_wf (mem_events (dag p'))"
proof -
  have n: "NewPool True True True (Inr (make_chan 1)) 0 (\<lambda>_. sample_rng) NewMemoryDAG sample_pool_cfg =
      Inr (sample_pool NewMemoryDAG)"
    by (simp add: sample_pool_def NewPool_def check_pool_config_def sample_pool_cfg_def)
  have "list_all action_ok [Subscribes, Received (main_ev ''1'' []) (time_Unix 1000) (Inr (sample_round 3)),
      Unsubscribes 0, Received (main_ev ''2'' [''1'']) (time_Unix 1000) (Inr (sample_round 4))]"
    by (simp add: fresh_event_def main_ev_def)
  with pool_history_safe [OF n b_lib_nonempty] show ?thesis by blast
qed

section \<open>One event\<close>

text \<open>C17: an event the store can take is stored with its content, the sub-events derived from it do
  not touch the anchors of what was stored, and the event is either counted without an anchor, or
  anchored to a valid round strictly newer than every round used before, which resets the count;
  the latter only when the count has reached \<open>AnchorInterval\<close>.\<close>

theorem pool_run_accepted:
  assumes "pool_ok mem_events p" and "cid_nonempty L" and "fresh_event e"
    and "addable (mem_events (dag p)) e"
  shows "\<exists>p' x. mem_run L now fetched e p = Done p' \<and> mem_events (dag p') (ID e) = Some x \<and> same_refs e x \<and>
    (Beacon x = None \<and> lastBeaconRound p' = lastBeaconRound p \<and> eventCount p' = wrap64 (eventCount p + 1) \<or>
     (\<exists>r. Beacon x = Some (anchor_of r) \<and> validateBeaconRound now (Some r) = None \<and>
        lastBeaconRound p < Number r \<and> lastBeaconRound p' = Number r \<and> eventCount p' = 0 \<and>
        AnchorInterval (cfg p) \<le> wrap64 (eventCount p + 1))) \<and>
    (\<forall>i y. mem_events (dag p) i = Some y \<longrightarrow>
       (\<exists>z. mem_events (dag p') i = Some z \<and> same_refs y z \<and> Beacon z = Beacon y))"
proof -
  obtain d where a: "mem_add e (dag p) = (None, d)" using mem_add_addable [OF assms(4)] by blast
  obtain q p' where r: "mem_run L now fetched e p = Done p'" and g: "good_step mem_events sub_error p q"
    and x: "\<exists>x. mem_events (dag q) (ID e) = Some x \<and> same_refs e x \<and> Beacon x = None"
    and an: "not_anchored mem_events q p' \<or> (\<exists>r. anchored mem_events now (ID e) r q p')"
    using mem.run_event_accepted [OF assms(1-3) a] by blast
  obtain x where x: "mem_events (dag q) (ID e) = Some x" "same_refs e x" "Beacon x = None"
    using x by blast
  have e: "pool_ext mem_events p q" using g by (simp add: good_step_def)
  have old: "\<exists>z. mem_events (dag q) i = Some z \<and> same_refs y z \<and> Beacon z = Beacon y \<and> i \<noteq> ID e"
    if y: "mem_events (dag p) i = Some y" for i y
  proof -
    have "ID e \<notin> dom (mem_events (dag p))" using assms(4) by (simp add: addable_def)
    with y have "i \<noteq> ID e" by auto
    with e y show ?thesis unfolding pool_ext_def by blast
  qed
  have f: "lastBeaconRound q = lastBeaconRound p" "eventCount q = eventCount p" "cfg q = cfg p"
    using e by (simp_all add: pool_ext_def)
  from an show ?thesis
  proof
    assume "not_anchored mem_events q p'"
    with r x old f show ?thesis unfolding not_anchored_def by auto
  next
    assume "\<exists>r. anchored mem_events now (ID e) r q p'"
    then obtain rd where "anchored mem_events now (ID e) rd q p'" by blast
    then have a: "validateBeaconRound now (Some rd) = None" "lastBeaconRound p < Number rd"
      "lastBeaconRound p' = Number rd" "eventCount p' = 0" "AnchorInterval (cfg p) \<le> wrap64 (eventCount p + 1)"
      and m: "mem_events (dag p') = (mem_events (dag q))(ID e \<mapsto> x\<lparr>Beacon := Some (anchor_of rd)\<rparr>)"
      using x(1) f by (simp_all add: anchored_def anchor_of_def set_beacon_def)
    have "same_refs e (x\<lparr>Beacon := Some (anchor_of rd)\<rparr>)" using x(2) by (simp add: same_refs_def)
    moreover have "\<exists>z. mem_events (dag p') i = Some z \<and> same_refs y z \<and> Beacon z = Beacon y"
      if "mem_events (dag p) i = Some y" for i y
      using old [OF that] m by auto
    ultimately show ?thesis using r a m
      by (intro exI [of _ p'] exI [of _ "x\<lparr>Beacon := Some (anchor_of rd)\<rparr>"]) auto
  qed
qed

theorem pool_run_accepted_witness:
  "\<exists>p' x. mem_run b_lib (time_Unix 1000) (Inr (sample_round 3)) (main_ev ''1'' []) (sample_pool NewMemoryDAG)
       = Done p' \<and> mem_events (dag p') ''1'' = Some x \<and> same_refs (main_ev ''1'' []) x"
proof -
  have "fresh_event (main_ev ''1'' [])" "addable (mem_events (dag (sample_pool NewMemoryDAG))) (main_ev ''1'' [])"
    and "ID (main_ev ''1'' []) = ''1''"
    by (simp_all add: fresh_event_def main_ev_def addable_def sample_pool_eq NewMemoryDAG_def refs_def)
  with pool_run_accepted [OF sample_pool_ok b_lib_nonempty] show ?thesis by (metis (no_types, lifting))
qed

text \<open>An event the store rejects is reported as an asynchronous error (if the error channel has
  room) and changes neither the set of stored events nor their content, nor the recent events, the
  count, the last round and the beacon channel; nothing is derived from it. An event with the
  content of a stored one has its ID: it is rejected as a duplicate and the store is unchanged.\<close>

lemma pool_run_rejected:
  assumes "pool_ok mem_events p" and "fresh_event e" and "\<not> addable (mem_events (dag p)) e"
  shows "\<exists>err p'. mem_run L now fetched e p = Done p' \<and>
    same_graph (mem_events (dag p)) (mem_events (dag p')) \<and>
    recentEvents p' = recentEvents p \<and> lastBeaconRound p' = lastBeaconRound p \<and>
    eventCount p' = eventCount p \<and> beaconCh p' = beaconCh p \<and>
    buf (errCh p') = buf (errCh p) @
      (if length (buf (errCh p)) < chan_cap (errCh p) then [AddFailed (ID e) err] else []) \<and>
    (ID e \<in> dom (mem_events (dag p)) \<longrightarrow> err = ErrDuplicateEvent (ID e) \<and> dag p' = dag p)"
proof -
  obtain err d where a: "mem_add e (dag p) = (Some err, d)"
    using mem_add_None [of e "dag p"] assms(3)
    by (cases "mem_add e (dag p)") (metis option.exhaust)
  have ne: "ID e \<noteq> []" using assms(2) by (simp add: fresh_event_def)
  have co: "chans_open (p\<lparr>dag := d\<rparr>)" using assms(1) by (simp add: pool_ok_def chans_open_def)
  obtain p' where s: "sendError (AddFailed (ID e) err) (p\<lparr>dag := d\<rparr>) = Done p'"
    and f: "frame_eq (p\<lparr>dag := d\<rparr>) p'"
    and b: "buf (errCh p') = (if length (buf (errCh p)) < chan_cap (errCh p)
      then buf (errCh p) @ [AddFailed (ID e) err] else buf (errCh p))"
    using sendError_Done [OF co, of "AddFailed (ID e) err"] by auto
  have r: "mem_run L now fetched e p = Done p'" using a s by (simp add: run_event_def)
  have g: "same_graph (mem_events (dag p)) (mem_events d)"
    using mem.add_err [OF a ne] by blast
  have dup: "err = ErrDuplicateEvent (ID e) \<and> d = dag p" if "ID e \<in> dom (mem_events (dag p))"
    using a ne that by (auto simp: memory_AddEvent_spec addEvent_spec_def)
  have "dag p' = d" "recentEvents p' = recentEvents p" "lastBeaconRound p' = lastBeaconRound p"
    "eventCount p' = eventCount p" "beaconCh p' = beaconCh p"
    using f by (simp_all add: frame_eq_def)
  with r g b dup show ?thesis by (intro exI [of _ err] exI [of _ p']) simp
qed

text \<open>C25: sub-events are well-formed by construction: for a stored main event, however many are
  derived from it and whatever parents are drawn, none is ever rejected for a missing or empty
  parent; the only errors reported are failed hashes and duplicates. The recent events the parents
  are drawn from are all stored.\<close>

theorem sub_events_well_parented:
  assumes "pool_ok mem_events p" and "cid_nonempty L" and "pid \<noteq> []"
    and "pid \<in> dom (mem_events (dag p))"
  shows "\<exists>p' es. create_sub_events mem_add L pid is p = Done p' \<and>
    buf (errCh p') = buf (errCh p) @ es \<and>
    (\<forall>x \<in> set es. (\<exists>err. x = SubCIDFailed err) \<or>
       (\<exists>i err. x = SubAddFailed i err \<and> (\<forall>p. err \<noteq> ErrMissingParent p) \<and> (\<forall>m. err \<noteq> ErrInvalidEvent m))) \<and>
    set (recentEvents p') \<subseteq> dom (mem_events (dag p'))"
proof -
  obtain p' where r: "create_sub_events mem_add L pid is p = Done p'"
    and g: "good_step mem_events sub_error p p'"
    using mem.create_sub_events_ok [OF assms, of "is"] by blast
  then obtain es where "buf (errCh p') = buf (errCh p) @ es" "list_all sub_error es" "pool_ok mem_events p'"
    by (auto simp: good_step_def errors_since_def)
  moreover have "(\<exists>err. x = SubCIDFailed err) \<or>
       (\<exists>i err. x = SubAddFailed i err \<and> (\<forall>p. err \<noteq> ErrMissingParent p) \<and> (\<forall>m. err \<noteq> ErrInvalidEvent m))"
    if "sub_error x" for x
    using that by (auto simp: sub_error_def split: pool_error.splits dag_error.splits)
  ultimately show ?thesis using r by (auto simp: list_all_iff pool_ok_def recent_ok_def)
qed

theorem sub_events_well_parented_witness:
  "\<exists>p'. create_sub_events mem_add b_lib ''a'' [0, 1, 2]
     ((sample_pool \<lparr>mem_events = map_ab\<rparr>)\<lparr>recentEvents := [''a'', ''b'']\<rparr>) = Done p' \<and>
     set (recentEvents p') \<subseteq> dom (mem_events (dag p'))"
proof -
  let ?p = "(sample_pool \<lparr>mem_events = map_ab\<rparr>)\<lparr>recentEvents := [''a'', ''b'']\<rparr>"
  have "anchors_ok map_ab 0"
    by (auto simp: anchors_ok_def sample_defs split: if_splits)
  then have ok: "pool_ok mem_events ?p"
    by (simp add: pool_ok_def sample_pool_eq map_ab_wf recent_ok_def chans_open_def maxRecentEvents_def)
  have "''a'' \<noteq> []" "''a'' \<in> dom (mem_events (dag ?p))" by (simp_all add: sample_pool_eq)
  from sub_events_well_parented [OF ok b_lib_nonempty this, of "[0, 1, 2]"] show ?thesis by blast
qed

section \<open>Closing\<close>

text \<open>Once \<open>Close\<close> has signalled shutdown, \<open>AddEvent\<close> and \<open>Subscribe\<close> return
  \<open>ErrPoolClosed\<close>; a complete \<open>Close\<close> of a pool in a reachable state does not panic, closes the
  error channel and every subscriber's channel, and leaves no subscriber, so that a later
  \<open>Unsubscribe\<close> does nothing.\<close>

lemma pool_Close_effect:
  assumes "pool_ok lookup p" and "\<not> done_closed p"
  shows "\<exists>p'. pool_Close p = Done p' \<and> chan_closed (errCh p') \<and> subscribers p' = [] \<and>
    (\<forall>s \<in> set (subscribers p). chan_closed (sub_chans p' s)) \<and>
    (\<forall>s. removeSubscriber s p' = Done p') \<and>
    pool_AddEvent_begin L data ps p' = Inl ErrPoolClosed \<and> pool_Subscribe p' = (Inl ErrPoolClosed, p') \<and>
    dag p' = dag p"
proof -
  have c: "chans_open p" using assms(1) by (simp add: pool_ok_def)
  let ?p1 = "p\<lparr>running := False, done_closed := True\<rparr>"
  let ?p2 = "?p1\<lparr>errCh := (errCh p)\<lparr>chan_closed := True\<rparr>\<rparr>"
  let ?h = "\<lambda>s. if s \<in> set (subscribers p) then (sub_chans p s)\<lparr>chan_closed := True\<rparr> else sub_chans p s"
  have "close_signal p = Done ?p1" using assms(2) by (simp add: close_signal_def)
  moreover have "close_errors ?p1 = Done ?p2"
    using c by (simp add: close_errors_def close_chan_def chans_open_def)
  moreover have "close_all (subscribers p) (sub_chans p) = Done ?h"
    using c by (intro close_all_Done) (simp_all add: chans_open_def)
  then have "close_subscribers ?p2 = Done (?p2\<lparr>sub_chans := ?h, subscribers := []\<rparr>)"
    by (simp add: close_subscribers_def)
  ultimately have "pool_Close p = Done (?p2\<lparr>sub_chans := ?h, subscribers := []\<rparr>)"
    by (simp add: pool_Close_def)
  then show ?thesis
    by (simp add: removeSubscriber_def pool_AddEvent_begin_def pool_Subscribe_def)
qed

end
