(* ===== verification/PoolLife.thy ===== *)
theory PoolLife
  imports PoolRun
begin

text \<open>
  The pool's goroutines: the run loop, the one caller of \<open>Close\<close> that gets past \<open>closeOnce\<close>, and
  any number of clients, interleaved at the grain of the pool's critical sections. The lock \<open>p.mu\<close>, the
  cancellation of the run loop's context and the place the run loop has reached are part of the state. It
  shows that the shutdown order of \<open>Close\<close> is sound (no send on a closed channel, none closed twice) and
  that shutdown cannot get stuck.
\<close>

section \<open>The interleaving\<close>

text \<open>
  What the run loop does to the shared parts of the pool while it handles an event: the calls of
  \<open>notifySubscribers\<close>, \<open>addRecentEvent\<close>, \<open>selectRandomParents\<close> and \<open>sendError\<close>, in the order of the
  loop's body. All but the last take \<open>p.mu\<close>.
\<close>

datatype run_act = Notify event | Remember string | PickParents nat | Report pool_error

fun needs_lock :: "run_act \<Rightarrow> bool" where
  "needs_lock (Report err) = False"
| "needs_lock a = True"

fun do_act :: "run_act \<Rightarrow> 's pool \<Rightarrow> 's pool exec" where
  "do_act (Notify e) p = notifySubscribers e p"
| "do_act (Remember i) p = Done (addRecentEvent i p)"
| "do_act (PickParents n) p = Done (snd (selectRandomParents n p))"
| "do_act (Report err) p = sendError err p"

text \<open>
  The bodies an iteration can have: the event is rejected; or it is announced and remembered, up to three
  sub-events follow, each rejected or announced and remembered, and anchoring may report an error.
\<close>

definition sub_acts :: "run_act list \<Rightarrow> bool" where
  "sub_acts as \<longleftrightarrow> (\<exists>pick. (pick = [] \<or> (\<exists>n. pick = [PickParents n])) \<and>
     ((\<exists>err. as = pick @ [Report err]) \<or> (\<exists>e. as = pick @ [Notify e, Remember (ID e)])))"

definition event_acts :: "event \<Rightarrow> run_act list \<Rightarrow> bool" where
  "event_acts e as \<longleftrightarrow> (\<exists>err. as = [Report err]) \<or>
     (\<exists>subs tail. length subs \<le> 3 \<and> (\<forall>a \<in> set subs. sub_acts a) \<and> (tail = [] \<or> (\<exists>err. tail = [Report err])) \<and>
        as = [Notify e, Remember (ID e)] @ concat subs @ tail)"

text \<open>The run loop waits in its \<open>select\<close>, is in the body with some calls still to make, or has returned.\<close>

datatype run_state = Selecting | Handling "run_act list" | Exited

text \<open>
  \<open>Close\<close>: not called, in its first critical section, waiting for the run loop, past the closing of the
  error channel, in its second critical section, finished.
\<close>

datatype close_stage = NotClosing | Signalling | Signalled | ErrorsClosed | ClosingSubs | Closed

datatype thread = RunLoop | Closer | Client nat | Outside

text \<open>
  \<open>mu\<close> is the holder of \<open>p.mu\<close>: only the run loop takes it for reading, so a reader is alone too.
  \<open>cancelled\<close> says that the context of the run loop is cancelled.
\<close>

record 's life =
  pl :: "'s pool"
  run :: run_state
  stage :: close_stage
  cancelled :: bool
  mu :: "thread option"

text \<open>\<open>with_pool\<close> runs an operation of the pool inside the state.\<close>

definition with_pool :: "'s life \<Rightarrow> 's pool exec \<Rightarrow> 's life exec" where
  "with_pool s r = exec_bind r (\<lambda>p. Done (s\<lparr>pl := p\<rparr>))"

text \<open>
  \<open>life_op w s r\<close>: the goroutine \<open>w\<close> can perform a step in state \<open>s\<close>, with outcome \<open>r\<close>. A critical
  section is two steps: taking the lock, which has to be free, and the section up to the unlocking. The
  run loop is modelled from the point where it has its tickers; it returns only from its \<open>select\<close>, once
  its context is cancelled, by \<open>Close\<close> or from outside.
\<close>

inductive life_op :: "thread \<Rightarrow> 's life \<Rightarrow> 's life exec \<Rightarrow> bool" where
  op_take: "run s = Selecting \<Longrightarrow> try_recv (eventCh (pl s)) = (Some (Some e), ch) \<Longrightarrow> event_acts e as \<Longrightarrow>
     life_op RunLoop s (Done (s\<lparr>pl := (pl s)\<lparr>eventCh := ch\<rparr>, run := Handling as\<rparr>))"
| op_verify: "run s = Selecting \<Longrightarrow> as = [] \<or> (\<exists>err. as = [Report err]) \<Longrightarrow>
     life_op RunLoop s (Done (s\<lparr>run := Handling as\<rparr>))"
| op_lock: "run s = Handling (a # as) \<Longrightarrow> needs_lock a \<Longrightarrow> mu s = None \<Longrightarrow>
     life_op RunLoop s (Done (s\<lparr>mu := Some RunLoop\<rparr>))"
| op_locked: "run s = Handling (a # as) \<Longrightarrow> needs_lock a \<Longrightarrow> mu s = Some RunLoop \<Longrightarrow>
     life_op RunLoop s (with_pool (s\<lparr>run := Handling as, mu := None\<rparr>) (do_act a (pl s)))"
| op_unlocked: "run s = Handling (a # as) \<Longrightarrow> \<not> needs_lock a \<Longrightarrow>
     life_op RunLoop s (with_pool (s\<lparr>run := Handling as\<rparr>) (do_act a (pl s)))"
| op_next: "run s = Handling [] \<Longrightarrow> life_op RunLoop s (Done (s\<lparr>run := Selecting\<rparr>))"
| op_exit: "run s = Selecting \<Longrightarrow> cancelled s \<Longrightarrow> life_op RunLoop s (Done (s\<lparr>run := Exited\<rparr>))"
| op_cancel: "life_op Outside s (Done (s\<lparr>cancelled := True\<rparr>))"
| op_add: "try_send e (eventCh (pl s)) = r \<Longrightarrow> \<forall>ch. r \<noteq> Done (False, ch) \<Longrightarrow>
     life_op (Client c) s (with_pool s (exec_bind r (\<lambda>(b, ch). Done ((pl s)\<lparr>eventCh := ch\<rparr>))))"
| op_read: "try_recv (sub_chans (pl s) n) = (r, ch) \<Longrightarrow>
     life_op (Client c) s (Done (s\<lparr>pl := (pl s)\<lparr>sub_chans := (sub_chans (pl s))(n := ch)\<rparr>\<rparr>))"
| op_read_error: "try_recv (errCh (pl s)) = (r, ch) \<Longrightarrow>
     life_op (Client c) s (Done (s\<lparr>pl := (pl s)\<lparr>errCh := ch\<rparr>\<rparr>))"
| op_client_lock: "mu s = None \<Longrightarrow> life_op (Client c) s (Done (s\<lparr>mu := Some (Client c)\<rparr>))"
| op_subscribe: "mu s = Some (Client c) \<Longrightarrow>
     life_op (Client c) s (Done (s\<lparr>pl := snd (pool_Subscribe (pl s)), mu := None\<rparr>))"
| op_unsubscribe: "mu s = Some (Client c) \<Longrightarrow>
     life_op (Client c) s (with_pool (s\<lparr>mu := None\<rparr>) (removeSubscriber n (pl s)))"
| op_close_lock: "stage s = NotClosing \<Longrightarrow> mu s = None \<Longrightarrow>
     life_op Closer s (Done (s\<lparr>stage := Signalling, mu := Some Closer\<rparr>))"
| op_signal: "stage s = Signalling \<Longrightarrow> mu s = Some Closer \<Longrightarrow>
     life_op Closer s (with_pool (s\<lparr>stage := Signalled, cancelled := True, mu := None\<rparr>) (close_signal (pl s)))"
| op_close_errors: "stage s = Signalled \<Longrightarrow> run s = Exited \<Longrightarrow>
     life_op Closer s (with_pool (s\<lparr>stage := ErrorsClosed\<rparr>) (close_errors (pl s)))"
| op_subs_lock: "stage s = ErrorsClosed \<Longrightarrow> mu s = None \<Longrightarrow>
     life_op Closer s (Done (s\<lparr>stage := ClosingSubs, mu := Some Closer\<rparr>))"
| op_close_subscribers: "stage s = ClosingSubs \<Longrightarrow> mu s = Some Closer \<Longrightarrow>
     life_op Closer s (with_pool (s\<lparr>stage := Closed, mu := None\<rparr>) (close_subscribers (pl s)))"

definition life_step :: "'s life \<Rightarrow> 's life \<Rightarrow> bool" where
  "life_step s t \<longleftrightarrow> (\<exists>w. life_op w s (Done t))"

definition life_init :: "'s life \<Rightarrow> bool" where
  "life_init s \<longleftrightarrow> stage s = NotClosing \<and> run s = Selecting \<and> mu s = None \<and>
     (\<exists>h g b sub ns source d c. NewPool h g b sub ns source d c = Inr (pl s))"

section \<open>The invariant\<close>

text \<open>
  Subscribed channels are open and were handed out, those handed out and no longer subscribed are
  closed; the error channel is closed exactly after the run loop has ended and \<open>Close\<close> has got
  there; the event channel is never closed; the lock is held only by who is in a critical section.
\<close>

definition subs_ok :: "'s pool \<Rightarrow> bool" where
  "subs_ok p \<longleftrightarrow> distinct (subscribers p) \<and> set (subscribers p) \<subseteq> {..<sub_fresh p} \<and>
     (\<forall>c < sub_fresh p. chan_closed (sub_chans p c) \<longleftrightarrow> c \<notin> set (subscribers p))"

definition lock_ok :: "'s life \<Rightarrow> bool" where
  "lock_ok s \<longleftrightarrow> (mu s = Some Closer \<longleftrightarrow> stage s \<in> {Signalling, ClosingSubs}) \<and> mu s \<noteq> Some Outside \<and>
     (mu s = Some RunLoop \<longrightarrow> (\<exists>a as. run s = Handling (a # as) \<and> needs_lock a)) \<and>
     (stage s \<notin> {NotClosing, Signalling} \<longrightarrow> cancelled s) \<and> (run s = Exited \<longrightarrow> cancelled s)"

definition life_inv :: "'s life \<Rightarrow> bool" where
  "life_inv s \<longleftrightarrow> lock_ok s \<and> subs_ok (pl s) \<and> \<not> chan_closed (eventCh (pl s)) \<and>
     (chan_closed (errCh (pl s)) \<longleftrightarrow> stage s \<in> {ErrorsClosed, ClosingSubs, Closed}) \<and>
     (stage s \<in> {ErrorsClosed, ClosingSubs, Closed} \<longrightarrow> run s = Exited) \<and>
     (done_closed (pl s) \<longleftrightarrow> stage s \<notin> {NotClosing, Signalling}) \<and>
     (running (pl s) \<longleftrightarrow> stage s \<in> {NotClosing, Signalling}) \<and>
     (stage s = Closed \<longrightarrow> subscribers (pl s) = [])"

lemma with_pool_Done: "with_pool s r = Done t \<longleftrightarrow> (\<exists>p. r = Done p \<and> t = s\<lparr>pl := p\<rparr>)"
  by (auto simp: with_pool_def exec_bind_eq_Done)

lemma with_pool_Panic: "with_pool s (Done p) \<noteq> Panic"
  by (simp add: with_pool_def)

lemma subs_open: "subs_ok p \<Longrightarrow> c \<in> set (subscribers p) \<Longrightarrow> \<not> chan_closed (sub_chans p c)"
  unfolding subs_ok_def by blast

text \<open>The pool operations on the invariant's parts.\<close>

lemma notify_life:
  assumes "subs_ok p"
  shows "\<exists>p'. notifySubscribers e p = Done p' \<and> subs_ok p' \<and> frame_eq p p' \<and> errCh p' = errCh p"
proof -
  have d: "distinct (subscribers p)" and o: "\<forall>s \<in> set (subscribers p). \<not> chan_closed (sub_chans p s)"
    using assms subs_open unfolding subs_ok_def by blast+
  obtain p' where p': "notify_loop e (subscribers p) p = Done p'" "frame_eq p p'" "errCh p' = errCh p"
    and c: "\<And>s. chan_closed (sub_chans p' s) = chan_closed (sub_chans p s)"
    using notify_loop_Done [OF d o, of e] by blast
  have "subs_ok p'" using assms p'(2) c by (simp add: subs_ok_def frame_eq_def)
  with p' show ?thesis by (simp add: notifySubscribers_def)
qed

lemma report_life:
  assumes "\<not> chan_closed (errCh p)"
  shows "\<exists>ch. sendError err p = Done (p\<lparr>errCh := ch\<rparr>) \<and> \<not> chan_closed ch"
proof -
  obtain b ch where t: "try_send err (errCh p) = Done (b, ch)"
    using try_send_open [OF assms, of err] by blast
  with try_send_Done [OF t] show ?thesis
    by (intro exI [of _ ch]) (simp add: sendError_def)
qed

lemma remove_life:
  assumes "subs_ok p"
  shows "\<exists>p'. removeSubscriber c p = Done p' \<and> subs_ok p' \<and> errCh p' = errCh p \<and> eventCh p' = eventCh p \<and>
    running p' = running p \<and> done_closed p' = done_closed p \<and> set (subscribers p') \<subseteq> set (subscribers p)"
proof (cases "c \<in> set (subscribers p)")
  case True
  let ?p = "p\<lparr>subscribers := remove1 c (subscribers p),
    sub_chans := (sub_chans p)(c := (sub_chans p c)\<lparr>chan_closed := True\<rparr>)\<rparr>"
  have "removeSubscriber c p = Done ?p"
    using True subs_open [OF assms True] by (simp add: removeSubscriber_def close_chan_def)
  moreover have "subs_ok ?p" using assms True by (auto simp: subs_ok_def)
  ultimately show ?thesis using set_remove1_subset [of c "subscribers p"] by simp
next
  case False
  with assms show ?thesis by (simp add: removeSubscriber_def)
qed

lemma subscribe_life: "subs_ok p \<Longrightarrow> subs_ok (snd (pool_Subscribe p))"
  by (auto simp: pool_Subscribe_def subs_ok_def less_Suc_eq)

lemma subscribe_life_frame:
  "errCh (snd (pool_Subscribe p)) = errCh p" "eventCh (snd (pool_Subscribe p)) = eventCh p"
  "running (snd (pool_Subscribe p)) = running p" "done_closed (snd (pool_Subscribe p)) = done_closed p"
  "\<not> running p \<Longrightarrow> subscribers (snd (pool_Subscribe p)) = subscribers p"
  by (simp_all add: pool_Subscribe_def)

lemma close_subscribers_life:
  assumes "subs_ok p"
  shows "\<exists>p'. close_subscribers p = Done p' \<and> subs_ok p' \<and> errCh p' = errCh p \<and> eventCh p' = eventCh p \<and>
    running p' = running p \<and> done_closed p' = done_closed p \<and> subscribers p' = []"
proof -
  let ?h = "\<lambda>s. if s \<in> set (subscribers p) then (sub_chans p s)\<lparr>chan_closed := True\<rparr> else sub_chans p s"
  have "close_all (subscribers p) (sub_chans p) = Done ?h"
    using assms subs_open [OF assms] by (intro close_all_Done) (auto simp: subs_ok_def)
  then have "close_subscribers p = Done (p\<lparr>sub_chans := ?h, subscribers := []\<rparr>)"
    by (simp add: close_subscribers_def)
  moreover have "subs_ok (p\<lparr>sub_chans := ?h, subscribers := []\<rparr>)" using assms by (simp add: subs_ok_def)
  ultimately show ?thesis by simp
qed

text \<open>Every call of the run loop keeps the channels in order, while the error channel is open.\<close>

lemma do_act_life:
  assumes "subs_ok p" and "\<not> chan_closed (errCh p)"
  shows "\<exists>p'. do_act a p = Done p' \<and> subs_ok p' \<and> \<not> chan_closed (errCh p') \<and> eventCh p' = eventCh p \<and>
    running p' = running p \<and> done_closed p' = done_closed p \<and> subscribers p' = subscribers p"
proof (cases a)
  case (Notify e)
  with notify_life [OF assms(1), of e] assms(2) show ?thesis by (auto simp: frame_eq_def)
next
  case (Remember i)
  with assms show ?thesis by (simp add: addRecentEvent_def Let_def subs_ok_def)
next
  case (PickParents n)
  with assms show ?thesis by (simp add: selectRandomParents_def Let_def subs_ok_def split: prod.split)
next
  case (Report err)
  with report_life [OF assms(2), of err] assms(1) show ?thesis by (auto simp: subs_ok_def)
qed

section \<open>Every operation keeps it and none panics\<close>

lemma life_op_inv:
  assumes inv: "life_inv s" and op: "life_op w s r"
  shows "\<exists>t. r = Done t \<and> life_inv t"
  using op
proof (cases rule: life_op.cases)
  case (op_take e ch as)
  with inv try_recv_frame [OF op_take(4)] show ?thesis by (auto simp: life_inv_def lock_ok_def subs_ok_def)
next
  case (op_locked a as)
  have "subs_ok (pl s)" "\<not> chan_closed (errCh (pl s))" using inv op_locked by (auto simp: life_inv_def)
  from do_act_life [OF this, of a] op_locked inv show ?thesis
    by (auto simp: with_pool_def life_inv_def lock_ok_def)
next
  case (op_unlocked a as)
  have "subs_ok (pl s)" "\<not> chan_closed (errCh (pl s))" using inv op_unlocked by (auto simp: life_inv_def)
  from do_act_life [OF this, of a] op_unlocked inv show ?thesis
    by (auto simp: with_pool_def life_inv_def lock_ok_def)
next
  case (op_add e r' c)
  have "\<not> chan_closed (eventCh (pl s))" using inv by (simp add: life_inv_def)
  then obtain b ch where t: "try_send e (eventCh (pl s)) = Done (b, ch)"
    using try_send_open [of "eventCh (pl s)" e] by blast
  then have "r' = Done (b, ch)" using op_add by simp
  then have "r = Done (s\<lparr>pl := (pl s)\<lparr>eventCh := ch\<rparr>\<rparr>)" using op_add by (simp add: with_pool_def)
  with inv try_send_Done [OF t] show ?thesis by (simp add: life_inv_def lock_ok_def subs_ok_def)
next
  case (op_read n r' ch c)
  with inv try_recv_frame [OF op_read(3)] show ?thesis by (simp add: life_inv_def lock_ok_def subs_ok_def)
next
  case (op_read_error r' ch c)
  with inv try_recv_frame [OF op_read_error(3)] show ?thesis by (simp add: life_inv_def lock_ok_def subs_ok_def)
next
  case (op_subscribe c)
  have "subs_ok (snd (pool_Subscribe (pl s)))"
    using subscribe_life inv unfolding life_inv_def by blast
  moreover have "stage s = Closed \<Longrightarrow> subscribers (snd (pool_Subscribe (pl s))) = []"
    using inv subscribe_life_frame(5) [of "pl s"] by (simp add: life_inv_def)
  ultimately show ?thesis using op_subscribe inv
    by (auto simp: life_inv_def lock_ok_def subscribe_life_frame(1-4))
next
  case (op_unsubscribe c n)
  obtain p' where "removeSubscriber n (pl s) = Done p'" "subs_ok p'" "errCh p' = errCh (pl s)"
    "eventCh p' = eventCh (pl s)" "running p' = running (pl s)" "done_closed p' = done_closed (pl s)"
    "set (subscribers p') \<subseteq> set (subscribers (pl s))"
    using remove_life [of "pl s" n] inv unfolding life_inv_def by blast
  with op_unsubscribe inv show ?thesis by (auto simp: with_pool_def life_inv_def lock_ok_def)
next
  case op_signal
  with inv show ?thesis by (auto simp: with_pool_def life_inv_def lock_ok_def subs_ok_def close_signal_def)
next
  case op_close_errors
  with inv show ?thesis
    by (auto simp: with_pool_def life_inv_def lock_ok_def subs_ok_def close_errors_def close_chan_def)
next
  case op_close_subscribers
  obtain p' where "close_subscribers (pl s) = Done p'" "subs_ok p'" "errCh p' = errCh (pl s)"
    "eventCh p' = eventCh (pl s)" "running p' = running (pl s)" "done_closed p' = done_closed (pl s)"
    "subscribers p' = []"
    using close_subscribers_life inv unfolding life_inv_def by blast
  with op_close_subscribers inv show ?thesis by (auto simp: with_pool_def life_inv_def lock_ok_def)
qed (use inv in \<open>auto simp: life_inv_def lock_ok_def\<close>)

lemma NewPool_life:
  assumes "NewPool h g b sub ns source d c = Inr p"
  shows "subs_ok p \<and> \<not> chan_closed (eventCh p) \<and> \<not> chan_closed (errCh p) \<and> running p \<and> \<not> done_closed p"
  using assms by (auto simp: NewPool_def subs_ok_def split: if_splits option.splits sum.splits)

lemma life_init_inv: "life_init s \<Longrightarrow> life_inv s"
  using NewPool_life by (fastforce simp: life_init_def life_inv_def lock_ok_def)

interpretation life_ts: transition_system life_init life_step life_inv
proof
  fix s :: "'a life" assume "life_init s" then show "life_inv s" by (rule life_init_inv)
next
  fix s t :: "'a life" assume "life_inv s" and "life_step s t"
  with life_op_inv show "life_inv t" unfolding life_step_def by fastforce
qed

text \<open>C16: in every interleaving of the run loop (from the point where it has its tickers), \<open>Close\<close>, and
  clients that add events, read, subscribe and unsubscribe at any time, no operation panics: no goroutine
  sends on a closed channel or closes one twice. Once \<open>Close\<close> has finished, the run loop has ended, the
  error channel and every subscriber channel ever handed out are closed, and the event channel is not.\<close>

theorem pool_shutdown_safe:
  assumes "life_init s0" and "life_step\<^sup>*\<^sup>* s0 s"
  shows "\<not> life_op w s Panic \<and> \<not> chan_closed (eventCh (pl s)) \<and>
    (stage s = Closed \<longrightarrow> run s = Exited \<and> chan_closed (errCh (pl s)) \<and>
       (\<forall>c < sub_fresh (pl s). chan_closed (sub_chans (pl s) c)))"
proof -
  have inv: "life_inv s" by (rule life_ts.reachable_inv [OF assms(2,1)])
  then have "\<not> life_op w s Panic" using life_op_inv by fastforce
  with inv show ?thesis by (auto simp: life_inv_def subs_ok_def)
qed

definition sample_life :: "memoryDAG life" where
  "sample_life = \<lparr>pl = sample_pool NewMemoryDAG, run = Selecting, stage = NotClosing, cancelled = False, mu = None\<rparr>"

lemma sample_life_init: "life_init sample_life"
proof -
  have "NewPool True True True (Inr (make_chan 1)) 0 (\<lambda>_. sample_rng) NewMemoryDAG sample_pool_cfg =
      Inr (pl sample_life)"
    by (simp add: sample_life_def sample_pool_def NewPool_def check_pool_config_def sample_pool_cfg_def)
  moreover have "stage sample_life = NotClosing \<and> run sample_life = Selecting \<and> mu sample_life = None"
    by (simp add: sample_life_def)
  ultimately show ?thesis unfolding life_init_def by blast
qed

theorem pool_shutdown_safe_witness:
  "\<exists>s. life_step\<^sup>*\<^sup>* sample_life s \<and> stage s = Signalled \<and> run s = Exited \<and> \<not> life_op Closer s Panic"
proof -
  let ?s1 = "sample_life\<lparr>stage := Signalling, mu := Some Closer\<rparr>"
  let ?s2 = "?s1\<lparr>stage := Signalled, cancelled := True, mu := None,
    pl := (pl sample_life)\<lparr>running := False, done_closed := True\<rparr>\<rparr>"
  let ?s3 = "?s2\<lparr>run := Exited\<rparr>"
  have 1: "life_step sample_life ?s1"
    unfolding life_step_def by (rule exI [of _ Closer], rule op_close_lock) (simp_all add: sample_life_def)
  have "with_pool (?s1\<lparr>stage := Signalled, cancelled := True, mu := None\<rparr>) (close_signal (pl ?s1)) = Done ?s2"
    by (simp add: with_pool_def close_signal_def sample_life_def sample_pool_eq)
  with op_signal [of ?s1] have 2: "life_step ?s1 ?s2" unfolding life_step_def by (intro exI [of _ Closer]) simp
  have 3: "life_step ?s2 ?s3"
    unfolding life_step_def by (rule exI [of _ RunLoop], rule op_exit) (simp_all add: sample_life_def)
  have r: "life_step\<^sup>*\<^sup>* sample_life ?s3"
    using 1 2 3 by (meson r_into_rtranclp rtranclp.rtrancl_into_rtrancl)
  from r pool_shutdown_safe [OF sample_life_init r] show ?thesis by (intro exI [of _ ?s3]) simp
qed

section \<open>The body of the loop makes these calls\<close>

text \<open>
  \<open>run_event\<close>, the sequential definition of the body, does to the shared parts of the pool what a list of
  calls allowed by \<open>event_acts\<close> does.
\<close>

fun do_acts :: "run_act list \<Rightarrow> 's pool \<Rightarrow> 's pool exec" where
  "do_acts [] p = Done p"
| "do_acts (a # as) p = exec_bind (do_act a p) (do_acts as)"

definition shared_eq :: "'s pool \<Rightarrow> 's pool \<Rightarrow> bool" where
  "shared_eq p q \<longleftrightarrow> subscribers p = subscribers q \<and> sub_chans p = sub_chans q \<and> sub_fresh p = sub_fresh q \<and>
     errCh p = errCh q \<and> eventCh p = eventCh q \<and> recentEvents p = recentEvents q \<and>
     droppedNotifications p = droppedNotifications q \<and> running p = running q \<and> done_closed p = done_closed q"

lemma shared_eq_refl [simp]: "shared_eq p p"
  by (simp add: shared_eq_def)

lemma shared_eq_trans: "shared_eq p q \<Longrightarrow> shared_eq q r \<Longrightarrow> shared_eq p r"
  by (simp add: shared_eq_def)

lemma shared_eq_sym: "shared_eq p q \<Longrightarrow> shared_eq q p"
  by (simp add: shared_eq_def)

lemma notify_loop_shared:
  "shared_eq p q \<Longrightarrow> notify_loop e ss p = Done p' \<Longrightarrow> \<exists>q'. notify_loop e ss q = Done q' \<and> shared_eq p' q'"
proof (induction ss arbitrary: p q)
  case Nil
  then show ?case by simp
next
  case (Cons c ss)
  from Cons.prems(2) obtain b ch where t: "try_send e (sub_chans p c) = Done (b, ch)"
    and n: "notify_loop e ss (if b then p\<lparr>sub_chans := (sub_chans p)(c := ch)\<rparr>
      else p\<lparr>droppedNotifications := droppedNotifications p + 1\<rparr>) = Done p'"
    by (auto simp: exec_bind_eq_Done)
  let ?f = "\<lambda>p. if b then p\<lparr>sub_chans := (sub_chans p)(c := ch)\<rparr>
      else p\<lparr>droppedNotifications := droppedNotifications p + 1\<rparr>"
  have "shared_eq (?f p) (?f q)" using Cons.prems(1) by (simp add: shared_eq_def)
  from Cons.IH [OF this n] obtain q' where "notify_loop e ss (?f q) = Done q'" "shared_eq p' q'" by blast
  moreover have "try_send e (sub_chans q c) = Done (b, ch)" using t Cons.prems(1) by (simp add: shared_eq_def)
  ultimately show ?case by simp
qed

lemma selectRandomParents_shared: "shared_eq (snd (selectRandomParents n p)) p"
  by (simp add: selectRandomParents_def Let_def shared_eq_def split: prod.split)

lemma do_act_shared:
  assumes "shared_eq p q" and "do_act a p = Done p'"
  shows "\<exists>q'. do_act a q = Done q' \<and> shared_eq p' q'"
proof (cases a)
  case (Notify e)
  with assms notify_loop_shared [OF assms(1), of e "subscribers q" p'] show ?thesis
    by (simp add: notifySubscribers_def shared_eq_def)
next
  case (Remember i)
  with assms show ?thesis by (auto simp: addRecentEvent_def Let_def shared_eq_def)
next
  case (PickParents n)
  with assms(2) have "p' = snd (selectRandomParents n p)" by simp
  with PickParents assms(1) selectRandomParents_shared [of n p] selectRandomParents_shared [of n q]
  show ?thesis by (simp add: shared_eq_def)
next
  case (Report err)
  with assms show ?thesis by (auto simp: sendError_def exec_bind_eq_Done shared_eq_def)
qed

lemma do_acts_shared:
  "shared_eq p q \<Longrightarrow> do_acts as p = Done p' \<Longrightarrow> \<exists>q'. do_acts as q = Done q' \<and> shared_eq p' q'"
proof (induction as arbitrary: p q)
  case Nil
  then show ?case by simp
next
  case (Cons a as)
  from Cons.prems(2) obtain p1 where p1: "do_act a p = Done p1" "do_acts as p1 = Done p'"
    by (auto simp: exec_bind_eq_Done)
  from do_act_shared [OF Cons.prems(1) p1(1)] obtain q1 where q1: "do_act a q = Done q1" "shared_eq p1 q1" by blast
  from Cons.IH [OF q1(2) p1(2)] q1(1) show ?case by simp
qed

text \<open>\<open>acts_of as p p'\<close>: the calls \<open>as\<close> take the shared parts from \<open>p\<close> to \<open>p'\<close>.\<close>

definition acts_of :: "run_act list \<Rightarrow> 's pool \<Rightarrow> 's pool \<Rightarrow> bool" where
  "acts_of as p p' \<longleftrightarrow> (\<exists>q. do_acts as p = Done q \<and> shared_eq q p')"

lemma do_acts_append: "do_acts (as @ bs) p = exec_bind (do_acts as p) (do_acts bs)"
proof (induction as arbitrary: p)
  case (Cons a as)
  then show ?case by (cases "do_act a p") simp_all
qed simp

lemma acts_of_Nil: "shared_eq p p' \<Longrightarrow> acts_of [] p p'"
  by (simp add: acts_of_def)

lemma acts_of_append:
  assumes "acts_of as p q" and "acts_of bs q r" shows "acts_of (as @ bs) p r"
proof -
  from assms obtain q' r' where a: "do_acts as p = Done q'" "shared_eq q' q"
    and b: "do_acts bs q = Done r'" "shared_eq r' r" by (auto simp: acts_of_def)
  from do_acts_shared [OF shared_eq_sym [OF a(2)] b(1)] obtain r2 where
    "do_acts bs q' = Done r2" "shared_eq r' r2" by blast
  with a(1) b(2) show ?thesis
    by (auto simp: acts_of_def do_acts_append intro: shared_eq_trans dest: shared_eq_sym)
qed

lemma acts_of_act: "do_act a p = Done p' \<Longrightarrow> acts_of [a] p p'"
  by (simp add: acts_of_def)

lemma acts_of_shared: "shared_eq p p1 \<Longrightarrow> acts_of as p1 q \<Longrightarrow> acts_of as p q"
  using acts_of_append [OF acts_of_Nil, of p p1 as q] by simp

lemma acts_of_shared_end: "acts_of as p q \<Longrightarrow> shared_eq q r \<Longrightarrow> acts_of as p r"
  using acts_of_append [OF _ acts_of_Nil, of as p q r] by simp

lemma maybe_parents_acts:
  assumes "maybe_parents p = (ps, p')"
  shows "\<exists>pick. (pick = [] \<or> (\<exists>n. pick = [PickParents n])) \<and> acts_of pick p p'"
proof -
  obtain b g where b: "below_complexity (cfg p) (rng p) = (b, g)" by fastforce
  show ?thesis
  proof (cases b)
    case False
    with assms b have "p' = p\<lparr>rng := g\<rparr>" by (simp add: maybe_parents_def Let_def)
    then have "shared_eq p p'" by (simp add: shared_eq_def)
    then show ?thesis by (blast intro: acts_of_Nil)
  next
    case True
    obtain n g' where n: "rngIntn maxSubEventParents g = (n, g')" by fastforce
    let ?p = "p\<lparr>rng := g'\<rparr>"
    from True assms b n have "p' = snd (selectRandomParents (n + 1) ?p)" by (simp add: maybe_parents_def Let_def)
    then have "acts_of [PickParents (n + 1)] ?p p'" by (intro acts_of_act) simp
    moreover have "shared_eq p ?p" by (simp add: shared_eq_def)
    ultimately show ?thesis by (blast intro: acts_of_shared)
  qed
qed

lemma create_sub_event_acts:
  assumes "create_sub_event add L pid i p = Done p'"
  shows "\<exists>as. sub_acts as \<and> acts_of as p p'"
proof -
  obtain ps p1 where m: "maybe_parents p = (ps, p1)" by fastforce
  from maybe_parents_acts [OF m] obtain pick where
    pick: "pick = [] \<or> (\<exists>n. pick = [PickParents n])" and a: "acts_of pick p p1" by blast
  have rep: ?thesis if "sendError err p2 = Done p'" and "shared_eq p1 p2" for err p2
  proof -
    have "acts_of [Report err] p2 p'" using that(1) by (intro acts_of_act) simp
    from acts_of_append [OF a acts_of_shared [OF that(2) this]] pick show ?thesis
      by (intro exI [of _ "pick @ [Report err]"]) (auto simp: sub_acts_def)
  qed
  show ?thesis
  proof (cases "computeEventCID L (sub_event pid i ps)")
    case (Inl err)
    with assms m have "sendError (SubCIDFailed err) p1 = Done p'" by (simp add: create_sub_event_def)
    then show ?thesis by (rule rep) simp
  next
    case (Inr e)
    obtain r d where r: "add e (dag p1) = (r, d)" by fastforce
    have sh: "shared_eq p1 (p1\<lparr>dag := d\<rparr>)" by (simp add: shared_eq_def)
    show ?thesis
    proof (cases r)
      case (Some err)
      with assms m Inr r have "sendError (SubAddFailed (ID e) err) (p1\<lparr>dag := d\<rparr>) = Done p'"
        by (simp add: create_sub_event_def)
      then show ?thesis using sh by (rule rep)
    next
      case None
      with assms m Inr r obtain p2 where n: "notifySubscribers e (p1\<lparr>dag := d\<rparr>) = Done p2"
        and p': "p' = addRecentEvent (ID e) p2"
        by (auto simp: create_sub_event_def exec_bind_eq_Done)
      have "acts_of [Notify e] (p1\<lparr>dag := d\<rparr>) p2" using n by (intro acts_of_act) simp
      moreover have "acts_of [Remember (ID e)] p2 p'" using p' by (intro acts_of_act) simp
      ultimately have "acts_of ([Notify e] @ [Remember (ID e)]) (p1\<lparr>dag := d\<rparr>) p'" by (rule acts_of_append)
      from acts_of_append [OF a acts_of_shared [OF sh this]] pick show ?thesis
        by (intro exI [of _ "pick @ [Notify e, Remember (ID e)]"]) (auto simp: sub_acts_def)
    qed
  qed
qed

lemma create_sub_events_acts:
  "create_sub_events add L pid is p = Done p' \<Longrightarrow>
     \<exists>subs. length subs = length is \<and> (\<forall>a \<in> set subs. sub_acts a) \<and> acts_of (concat subs) p p'"
proof (induction "is" arbitrary: p)
  case Nil
  then show ?case by (simp add: acts_of_Nil)
next
  case (Cons i "is")
  from Cons.prems obtain q where q: "create_sub_event add L pid i p = Done q"
    "create_sub_events add L pid is q = Done p'" by (auto simp: exec_bind_eq_Done)
  from create_sub_event_acts [OF q(1)] obtain as where as: "sub_acts as" "acts_of as p q" by blast
  from Cons.IH [OF q(2)] obtain subs where subs: "length subs = length is" "\<forall>a \<in> set subs. sub_acts a"
    "acts_of (concat subs) q p'" by blast
  from as subs acts_of_append [OF as(2) subs(3)] show ?case by (intro exI [of _ "as # subs"]) simp
qed

lemma spawn_sub_events_acts:
  assumes "spawn_sub_events add L pid p = Done p'"
  shows "\<exists>subs. length subs \<le> 3 \<and> (\<forall>a \<in> set subs. sub_acts a) \<and> acts_of (concat subs) p p'"
proof -
  obtain b p1 where b: "shouldCreateSubEvent p = (b, p1)" by fastforce
  then have sh: "shared_eq p p1"
    by (auto simp: shouldCreateSubEvent_def shared_eq_def Let_def split: prod.splits)
  show ?thesis
  proof (cases b)
    case False
    with assms b have "p' = p1" by (simp add: spawn_sub_events_def)
    with sh show ?thesis by (intro exI [of _ "[]"]) (simp add: acts_of_Nil)
  next
    case True
    obtain n g where n: "rngIntn 3 (rng p1) = (n, g)" by fastforce
    then have "n < 3" by (auto simp: rngIntn_def)
    from True assms b n have "create_sub_events add L pid [0..<n + 1] (p1\<lparr>rng := g\<rparr>) = Done p'"
      by (simp add: spawn_sub_events_def)
    from create_sub_events_acts [OF this] obtain subs where subs: "length subs = n + 1"
      "\<forall>a \<in> set subs. sub_acts a" "acts_of (concat subs) (p1\<lparr>rng := g\<rparr>) p'" by auto
    have "shared_eq p (p1\<lparr>rng := g\<rparr>)" using sh by (simp add: shared_eq_def)
    with subs \<open>n < 3\<close> acts_of_shared show ?thesis by (intro exI [of _ subs]) simp
  qed
qed

lemma anchor_event_acts:
  assumes "anchor_event anchor now fetched i p = Done p'"
  shows "\<exists>tail. (tail = [] \<or> (\<exists>err. tail = [Report err])) \<and> acts_of tail p p'"
proof (cases "AnchorInterval (cfg p) \<le> wrap64 (eventCount p + 1)")
  case False
  with assms have "shared_eq p p'" by (auto simp: anchor_event_def Let_def shared_eq_def)
  then show ?thesis by (blast intro: acts_of_Nil)
next
  case True
  let ?p = "p\<lparr>eventCount := wrap64 (eventCount p + 1)\<rparr>"
  obtain r q where e: "ensureBeaconRound now fetched ?p = (r, q)" by fastforce
  then have sh: "shared_eq p q"
    by (auto simp: ensureBeaconRound_def shared_eq_def split: prod.splits option.splits sum.splits)
  have rep: ?thesis if "sendError err q = Done p'" for err
    using that acts_of_shared [OF sh acts_of_act [of "Report err" q p']] by auto
  show ?thesis
  proof (cases r)
    case (Inl err)
    with assms True e have "sendError (AnchorFailed err) q = Done p'" by (simp add: anchor_event_def Let_def)
    then show ?thesis by (rule rep)
  next
    case (Inr rd)
    show ?thesis
    proof (cases "lastBeaconRound q < Number rd")
      case newer: True
      with assms True e Inr have "shared_eq q p'" by (auto simp: anchor_event_def Let_def shared_eq_def)
      with sh show ?thesis by (blast intro: acts_of_Nil shared_eq_trans)
    next
      case False
      with assms True e Inr have "sendError (StaleRound (Number rd) (lastBeaconRound q)) q = Done p'"
        by (simp add: anchor_event_def Let_def)
      then show ?thesis by (rule rep)
    qed
  qed
qed

lemma run_event_acts:
  assumes "run_event add anchor L now fetched e p = Done p'"
  shows "\<exists>as. event_acts e as \<and> acts_of as p p'"
proof -
  obtain r d where r: "add e (dag p) = (r, d)" by fastforce
  have sh: "shared_eq p (p\<lparr>dag := d\<rparr>)" by (simp add: shared_eq_def)
  show ?thesis
  proof (cases r)
    case (Some err)
    with assms r have "do_act (Report (AddFailed (ID e) err)) (p\<lparr>dag := d\<rparr>) = Done p'" by (simp add: run_event_def)
    from acts_of_shared [OF sh acts_of_act [OF this]] show ?thesis
      by (intro exI [of _ "[Report (AddFailed (ID e) err)]"]) (simp add: event_acts_def)
  next
    case None
    with assms r obtain p1 p2 where p1: "notifySubscribers e (p\<lparr>dag := d\<rparr>) = Done p1"
      and p2: "spawn_sub_events add L (ID e) (addRecentEvent (ID e) p1) = Done p2"
      and p': "anchor_event anchor now fetched (ID e) p2 = Done p'"
      by (auto simp: run_event_def exec_bind_eq_Done)
    have 1: "acts_of [Notify e] p p1" using p1 by (intro acts_of_shared [OF sh] acts_of_act) simp
    have 2: "acts_of [Remember (ID e)] p1 (addRecentEvent (ID e) p1)" by (rule acts_of_act) simp
    from spawn_sub_events_acts [OF p2] obtain subs where subs: "length subs \<le> 3" "\<forall>a \<in> set subs. sub_acts a"
      "acts_of (concat subs) (addRecentEvent (ID e) p1) p2" by blast
    from anchor_event_acts [OF p'] obtain tail where tail: "tail = [] \<or> (\<exists>err. tail = [Report err])"
      "acts_of tail p2 p'" by blast
    from acts_of_append [OF acts_of_append [OF acts_of_append [OF 1 2] subs(3)] tail(2)]
    have "acts_of ([Notify e, Remember (ID e)] @ concat subs @ tail) p p'" by simp
    moreover have "event_acts e ([Notify e, Remember (ID e)] @ concat subs @ tail)"
      using subs tail unfolding event_acts_def by blast
    ultimately show ?thesis by blast
  qed
qed

section \<open>Shutdown completes\<close>

text \<open>
  The steps shutdown may count on: those of the run loop and of \<open>Close\<close>, and a client leaving the
  critical section it is in.
\<close>

definition own_step :: "'s life \<Rightarrow> 's life \<Rightarrow> bool" where
  "own_step s t \<longleftrightarrow> (\<exists>w. life_op w s (Done t) \<and> (w = RunLoop \<or> w = Closer \<or> mu s = Some w))"

definition leads_to :: "'s life \<Rightarrow> ('s life \<Rightarrow> bool) \<Rightarrow> bool" where
  "leads_to s P \<longleftrightarrow> (\<exists>t. own_step\<^sup>*\<^sup>* s t \<and> life_inv t \<and> P t)"

lemma leads_to_refl: "life_inv s \<Longrightarrow> P s \<Longrightarrow> leads_to s P"
  unfolding leads_to_def by blast

lemma leads_to_trans: "leads_to s P \<Longrightarrow> (\<And>t. life_inv t \<Longrightarrow> P t \<Longrightarrow> leads_to t Q) \<Longrightarrow> leads_to s Q"
  unfolding leads_to_def by (meson rtranclp_trans)

text \<open>One step; it does not panic, by the invariant.\<close>

lemma leads_to_step:
  assumes "life_inv s" and "life_op w s r" and "w = RunLoop \<or> w = Closer \<or> mu s = Some w"
    and "\<And>t. r = Done t \<Longrightarrow> P t"
  shows "leads_to s P"
proof -
  from life_op_inv [OF assms(1,2)] obtain t where t: "r = Done t" "life_inv t" by blast
  with assms have "own_step s t" unfolding own_step_def by blast
  with t assms(4) show ?thesis unfolding leads_to_def by blast
qed

text \<open>Whoever holds the lock can leave its critical section.\<close>

lemma lock_gets_free:
  assumes "life_inv s" shows "leads_to s (\<lambda>t. mu t = None)"
proof (cases "mu s")
  case None
  with assms show ?thesis by (rule leads_to_refl)
next
  case (Some w)
  have l: "lock_ok s" using assms by (simp add: life_inv_def)
  show ?thesis
  proof (cases w)
    case RunLoop
    with Some l obtain a as where "run s = Handling (a # as)" "needs_lock a" by (auto simp: lock_ok_def)
    from op_locked [OF this] Some RunLoop show ?thesis
      by (intro leads_to_step [OF assms]) (auto simp: with_pool_Done)
  next
    case Closer
    with Some l have "stage s = Signalling \<or> stage s = ClosingSubs" by (auto simp: lock_ok_def)
    with Some Closer op_signal [of s] op_close_subscribers [of s] show ?thesis
      by (auto intro!: leads_to_step [OF assms] simp: with_pool_Done)
  next
    case (Client c)
    with Some show ?thesis by (intro leads_to_step [OF assms op_subscribe [of s c]]) auto
  next
    case Outside
    with Some l show ?thesis by (simp add: lock_ok_def)
  qed
qed

text \<open>With the lock free, the run loop gets through its body, and back to its \<open>select\<close>.\<close>

lemma run_finishes_body:
  fixes s :: "'a life"
  assumes "life_inv s" and "mu s = None" and "run s = Handling as"
  shows "leads_to s (\<lambda>t. mu t = None \<and> run t = Selecting \<and> stage t = stage s)"
  using assms
proof (induction as arbitrary: s)
  case Nil
  from op_next [OF Nil.prems(3)] Nil.prems show ?case
    by (intro leads_to_step [OF Nil.prems(1)]) auto
next
  case (Cons a as)
  have "leads_to s (\<lambda>t. mu t = None \<and> run t = Handling as \<and> stage t = stage s)"
  proof (cases "needs_lock a")
    case True
    have "leads_to s (\<lambda>t. mu t = Some RunLoop \<and> run t = Handling (a # as) \<and> stage t = stage s)"
      by (rule leads_to_step [OF Cons.prems(1) op_lock [OF Cons.prems(3) True Cons.prems(2)]])
        (use Cons.prems in auto)
    then show ?thesis
    proof (rule leads_to_trans)
      fix t :: "'a life" assume t: "life_inv t" "mu t = Some RunLoop \<and> run t = Handling (a # as) \<and> stage t = stage s"
      with op_locked [of t a as] True
      show "leads_to t (\<lambda>t. mu t = None \<and> run t = Handling as \<and> stage t = stage s)"
        by (intro leads_to_step [OF t(1)]) (auto simp: with_pool_Done)
    qed
  next
    case False
    from op_unlocked [OF Cons.prems(3) False] Cons.prems show ?thesis
      by (intro leads_to_step [OF Cons.prems(1)]) (auto simp: with_pool_Done)
  qed
  then show ?case
  proof (rule leads_to_trans)
    fix t :: "'a life" assume "life_inv t" "mu t = None \<and> run t = Handling as \<and> stage t = stage s"
    with Cons.IH [of t] show "leads_to t (\<lambda>t. mu t = None \<and> run t = Selecting \<and> stage t = stage s)" by simp
  qed
qed

text \<open>The stages of \<open>Close\<close>, one after the other.\<close>

lemma close_signals:
  fixes s :: "'a life"
  assumes "life_inv s" and "mu s = None" and "stage s = NotClosing"
  shows "leads_to s (\<lambda>t. mu t = None \<and> stage t = Signalled)"
proof -
  have "leads_to s (\<lambda>t. stage t = Signalling \<and> mu t = Some Closer)"
    by (rule leads_to_step [OF assms(1) op_close_lock [OF assms(3,2)]]) auto
  then show ?thesis
  proof (rule leads_to_trans)
    fix t :: "'a life" assume "life_inv t" "stage t = Signalling \<and> mu t = Some Closer"
    with op_signal [of t] show "leads_to t (\<lambda>t. mu t = None \<and> stage t = Signalled)"
      by (intro leads_to_step [of t Closer]) (auto simp: with_pool_Done)
  qed
qed

lemma run_exits:
  fixes s :: "'a life"
  assumes "life_inv s" and "mu s = None" and "stage s = Signalled"
  shows "leads_to s (\<lambda>t. mu t = None \<and> stage t = Signalled \<and> run t = Exited)"
proof -
  have "leads_to s (\<lambda>t. mu t = None \<and> stage t = Signalled \<and> run t \<in> {Selecting, Exited})"
  proof (cases "run s")
    case (Handling as)
    with run_finishes_body [OF assms(1,2) Handling] assms(3) show ?thesis
      by (elim leads_to_trans) (auto intro: leads_to_refl)
  qed (use assms in \<open>auto intro: leads_to_refl\<close>)
  then show ?thesis
  proof (rule leads_to_trans)
    fix t :: "'a life" assume t: "life_inv t" "mu t = None \<and> stage t = Signalled \<and> run t \<in> {Selecting, Exited}"
    then have c: "cancelled t" by (auto simp: life_inv_def lock_ok_def)
    show "leads_to t (\<lambda>t. mu t = None \<and> stage t = Signalled \<and> run t = Exited)"
    proof (cases "run t = Exited")
      case True
      with t show ?thesis by (simp add: leads_to_refl)
    next
      case False
      with t have "run t = Selecting" by simp
      from leads_to_step [OF t(1) op_exit [OF this c]] t(2) show ?thesis by auto
    qed
  qed
qed

lemma errors_close:
  assumes "life_inv s" and "mu s = None" and "stage s = Signalled" and "run s = Exited"
  shows "leads_to s (\<lambda>t. mu t = None \<and> stage t = ErrorsClosed)"
  by (rule leads_to_step [OF assms(1) op_close_errors [OF assms(3,4)]])
    (use assms(2) in \<open>auto simp: with_pool_Done\<close>)

lemma subscribers_close:
  fixes s :: "'a life"
  assumes "life_inv s" and "mu s = None" and "stage s = ErrorsClosed"
  shows "leads_to s (\<lambda>t. stage t = Closed)"
proof -
  have "leads_to s (\<lambda>t. stage t = ClosingSubs \<and> mu t = Some Closer)"
    by (rule leads_to_step [OF assms(1) op_subs_lock [OF assms(3,2)]]) auto
  then show ?thesis
  proof (rule leads_to_trans)
    fix t :: "'a life" assume "life_inv t" "stage t = ClosingSubs \<and> mu t = Some Closer"
    with op_close_subscribers [of t] show "leads_to t (\<lambda>t. stage t = Closed)"
      by (intro leads_to_step [of t Closer]) (auto simp: with_pool_Done)
  qed
qed

lemma signalled_closes:
  assumes "life_inv s" and "mu s = None" and "stage s = Signalled"
  shows "leads_to s (\<lambda>t. stage t = Closed)"
proof (rule leads_to_trans [OF run_exits [OF assms]])
  fix t assume "life_inv t" "mu t = None \<and> stage t = Signalled \<and> run t = Exited"
  then have "leads_to t (\<lambda>t. mu t = None \<and> stage t = ErrorsClosed)" by (simp add: errors_close)
  then show "leads_to t (\<lambda>t. stage t = Closed)"
    by (rule leads_to_trans) (simp add: subscribers_close)
qed

lemma close_completes:
  assumes "life_inv s" shows "leads_to s (\<lambda>t. stage t = Closed)"
proof (rule leads_to_trans [OF lock_gets_free [OF assms]])
  fix t assume t: "life_inv t" "mu t = None"
  then have "stage t \<noteq> Signalling" "stage t \<noteq> ClosingSubs" by (auto simp: life_inv_def lock_ok_def)
  then consider "stage t = NotClosing" | "stage t = Signalled" | "stage t = ErrorsClosed" | "stage t = Closed"
    by (cases "stage t") auto
  then show "leads_to t (\<lambda>t. stage t = Closed)"
  proof cases
    case 1
    show ?thesis
      by (rule leads_to_trans [OF close_signals [OF t 1]]) (simp add: signalled_closes)
  next
    case 2
    with t show ?thesis by (rule signalled_closes)
  next
    case 3
    with t show ?thesis by (rule subscribers_close)
  next
    case 4
    with t show ?thesis by (simp add: leads_to_refl)
  qed
qed

text \<open>C30: shutdown cannot get stuck: from every state the pool can get into, wherever the run loop is in
  its body, whoever holds the lock and whatever clients have done, \<open>Close\<close> can go through to its end by
  steps of the run loop and of \<open>Close\<close> alone, besides a client leaving the critical section it is in; no
  one has to cancel the context from outside. The run loop then has returned, the error channel and all
  subscriber channels are closed and no subscriber is left. Conversely the run loop never returns before
  its context is cancelled.\<close>

theorem pool_shutdown_completes:
  assumes "life_init s0" and "life_step\<^sup>*\<^sup>* s0 s"
  shows "(\<exists>t. own_step\<^sup>*\<^sup>* s t \<and> stage t = Closed \<and> run t = Exited \<and> chan_closed (errCh (pl t)) \<and>
      subscribers (pl t) = [] \<and> (\<forall>c < sub_fresh (pl t). chan_closed (sub_chans (pl t) c))) \<and>
    (run s = Exited \<longrightarrow> cancelled s)"
proof -
  have inv: "life_inv s" by (rule life_ts.reachable_inv [OF assms(2,1)])
  from close_completes [OF inv] obtain t where r: "own_step\<^sup>*\<^sup>* s t" and t: "life_inv t" "stage t = Closed"
    unfolding leads_to_def by blast
  have "subs_ok (pl t)" "subscribers (pl t) = []" using t by (simp_all add: life_inv_def)
  then have "\<forall>c < sub_fresh (pl t). chan_closed (sub_chans (pl t) c)" by (simp add: subs_ok_def)
  moreover have "run t = Exited" "chan_closed (errCh (pl t))" using t by (simp_all add: life_inv_def)
  moreover have "run s = Exited \<longrightarrow> cancelled s" using inv by (simp add: life_inv_def lock_ok_def)
  ultimately show ?thesis using r t(2) \<open>subscribers (pl t) = []\<close> by blast
qed

theorem pool_shutdown_completes_witness:
  "\<exists>s t. life_step sample_life s \<and> mu s = Some (Client 0) \<and> own_step\<^sup>*\<^sup>* s t \<and> stage t = Closed"
proof -
  let ?s = "sample_life\<lparr>mu := Some (Client 0)\<rparr>"
  have 1: "life_step sample_life ?s"
    unfolding life_step_def by (rule exI [of _ "Client 0"], rule op_client_lock) (simp add: sample_life_def)
  from pool_shutdown_completes [OF sample_life_init r_into_rtranclp [of life_step, OF 1]]
  obtain t where "own_step\<^sup>*\<^sup>* ?s t" "stage t = Closed" by blast
  moreover have "mu ?s = Some (Client 0)" by simp
  ultimately show ?thesis using 1 by blast
qed

end
