(* ===== verification/TimeFormat.thy ===== *)
theory TimeFormat
  imports GoTime JsonText
begin

text \<open>
  Go's \<open>Time.Format\<close> (package \<open>time\<close>, Go 1.23) for the one layout the code formats with,
  \<open>2006-01-02T15:04:05.000Z07:00\<close>, in \<open>handleCommitment\<close> of \<open>src/hashpool/adapter.go\<close>: the date of a
  count of days, the clock, milliseconds cut off, and the zone, which is given by its offset in seconds
  east of UTC. The text determines the date, the clock, the milliseconds and the minutes of the zone.
\<close>

section \<open>Dates\<close>

text \<open>
  Days are counted from 1 January of the year \<open>absoluteZeroYear\<close>, 400-year cycle after cycle; seconds
  since then have 64 bits.
\<close>

definition absoluteZeroYear :: int where "absoluteZeroYear = - 292277022399"
definition internalToAbsolute :: int where "internalToAbsolute = 9223371966579724800"

definition absolute :: "go_time \<Rightarrow> int \<Rightarrow> int" where
  "absolute t off = (t_sec t + off + internalToAbsolute) mod 2 ^ 64"

definition isLeap :: "int \<Rightarrow> bool" where
  "isLeap y \<longleftrightarrow> y mod 4 = 0 \<and> (y mod 100 \<noteq> 0 \<or> y mod 400 = 0)"

text \<open>The last part of a cycle of four may be a day longer.\<close>

definition cut :: "int \<Rightarrow> int" where
  "cut n = n - n div 4"

text \<open>The year, counted from \<open>absoluteZeroYear\<close>, and the day in it, counted from 0.\<close>

definition abs_year :: "int \<Rightarrow> int \<times> int" where
  "abs_year d =
     (let n400 = d div 146097; d = d - 146097 * n400;
          n100 = cut (d div 36524); d = d - 36524 * n100;
          n4 = d div 1461; d = d - 1461 * n4;
          n1 = cut (d div 365)
      in (400 * n400 + 100 * n100 + 4 * n4 + n1, d - 365 * n1))"

definition daysBefore :: "nat list" where
  "daysBefore = [0, 31, 59, 90, 120, 151, 181, 212, 243, 273, 304, 334, 365]"

text \<open>Month and day of a day of the year; the month is estimated and corrected.\<close>

definition month_day :: "nat \<Rightarrow> nat \<times> nat" where
  "month_day day =
     (let m = day div 31; end_m = daysBefore ! (m + 1)
      in if day \<ge> end_m then (m + 2, day - end_m + 1)
         else (m + 1, day - daysBefore ! m + 1))"

definition yday_date :: "bool \<Rightarrow> nat \<Rightarrow> nat \<times> nat" where
  "yday_date leap yday =
     (if leap \<and> yday = 59 then (2, 29)
      else month_day (if leap \<and> 59 < yday then yday - 1 else yday))"

definition absDate :: "int \<Rightarrow> int \<times> nat \<times> nat" where
  "absDate d =
     (let (y, yday) = abs_year d; year = y + absoluteZeroYear
      in (year, yday_date (isLeap year) (nat yday)))"

text \<open>The reference: the days before a year, and before a day of a month.\<close>

definition days_before_year :: "int \<Rightarrow> int" where
  "days_before_year y = 365 * y + y div 4 - y div 100 + y div 400"

definition date_yday :: "bool \<Rightarrow> nat \<times> nat \<Rightarrow> nat" where
  "date_yday leap md =
     (let (m, day) = md in daysBefore ! (m - 1) + (day - 1) + (if leap \<and> 2 < m then 1 else 0))"

definition date_days :: "int \<times> nat \<times> nat \<Rightarrow> int" where
  "date_days date =
     (let (year, md) = date
      in days_before_year (year - absoluteZeroYear) + int (date_yday (isLeap year) md))"

definition days_in_month :: "bool \<Rightarrow> nat \<Rightarrow> nat" where
  "days_in_month leap m = daysBefore ! m - daysBefore ! (m - 1) + (if leap \<and> m = 2 then 1 else 0)"

lemma cycle_days:
  assumes "0 \<le> b" "b \<le> 3" "0 \<le> c" "c \<le> 24" "0 \<le> e" "e \<le> (3 :: int)"
  shows "days_before_year (400 * a + 100 * b + 4 * c + e) = 146097 * a + 36524 * b + 1461 * c + 365 * e"
proof -
  have "(400 * a + 100 * b + 4 * c + e) div 4 = 100 * a + 25 * b + c"
    by (rule int_div_pos_eq [where r = e]) (use assms in simp_all)
  moreover have "(400 * a + 100 * b + 4 * c + e) div 100 = 4 * a + b"
    by (rule int_div_pos_eq [where r = "4 * c + e"]) (use assms in simp_all)
  moreover have "(400 * a + 100 * b + 4 * c + e) div 400 = a"
    by (rule int_div_pos_eq [where r = "100 * b + 4 * c + e"]) (use assms in simp_all)
  ultimately show ?thesis by (simp add: days_before_year_def)
qed

lemma isLeap_400: "isLeap (400 * k + x) \<longleftrightarrow> isLeap x"
proof -
  have "400 * k = 4 * (100 * k)" "400 * k = 100 * (4 * k)" by simp_all
  then have "(400 * k + x) mod 4 = x mod 4" "(400 * k + x) mod 100 = x mod 100"
    "(400 * k + x) mod 400 = x mod 400" by (metis mod_mult_self4)+
  then show ?thesis by (simp add: isLeap_def)
qed

lemma isLeap_cycle:
  assumes "0 \<le> b" "b \<le> 3" "0 \<le> c" "c \<le> 24" "0 \<le> e" "e \<le> (3 :: int)"
  shows "isLeap (400 * a + 100 * b + 4 * c + e + absoluteZeroYear) \<longleftrightarrow> e = 3 \<and> (c \<noteq> 24 \<or> b = 3)"
proof -
  define x where "x = 100 * b + 4 * c + (e + 1)"
  have "400 * a + 100 * b + 4 * c + e + absoluteZeroYear = 400 * (a - 730692556) + x"
    by (simp add: x_def absoluteZeroYear_def)
  then have "isLeap (400 * a + 100 * b + 4 * c + e + absoluteZeroYear) \<longleftrightarrow> isLeap x"
    by (simp only: isLeap_400)
  also have "\<dots> \<longleftrightarrow> e = 3 \<and> (c \<noteq> 24 \<or> b = 3)"
  proof (cases "e = 3")
    case False
    then have "x mod 4 = e + 1"
      by (intro int_mod_pos_eq [where q = "25 * b + c"]) (use assms in \<open>simp_all add: x_def\<close>)
    with False assms show ?thesis by (simp add: isLeap_def)
  next
    case e: True
    then have 4: "x mod 4 = 0"
      by (intro int_mod_pos_eq [where q = "25 * b + c + 1"]) (simp_all add: x_def)
    show ?thesis
    proof (cases "c = 24")
      case False
      then have "x mod 100 = 4 * c + 4"
        by (intro int_mod_pos_eq [where q = b]) (use assms e in \<open>simp_all add: x_def\<close>)
      with 4 e False assms show ?thesis by (simp add: isLeap_def)
    next
      case True
      then have "x = 100 * (b + 1)" by (simp add: x_def e)
      moreover have "b \<in> {0, 1, 2, 3}" using assms by auto
      ultimately show ?thesis using e True by (auto simp: isLeap_def)
    qed
  qed
  finally show ?thesis .
qed

lemma cut_correct:
  assumes "0 \<le> d" and "d < 4 * k + 1" and "1 < k" and "n = cut (d div k)"
  shows "0 \<le> n \<and> n \<le> 3 \<and> 0 \<le> d - k * n \<and> d - k * n < (if n = 3 then k + 1 else k)"
proof -
  define q where "q = d div k"
  have d: "k * q \<le> d" "d < k * q + k"
    using assms pos_mod_bound [of k d] pos_mod_sign [of k d] mult_div_mod_eq [of k d]
    unfolding q_def by linarith+
  have "0 \<le> q" using assms by (simp add: q_def pos_imp_zdiv_nonneg_iff)
  moreover have "q < 5"
  proof (rule ccontr)
    assume "\<not> q < 5"
    then have "k * 5 \<le> k * q" using assms(3) by (intro mult_left_mono) simp_all
    with d(1) assms(2,3) show False by linarith
  qed
  ultimately have "q \<in> {0, 1, 2, 3, 4}" by auto
  then show ?thesis using assms d unfolding assms(4) q_def [symmetric] cut_def by auto
qed

text \<open>The computed year contains the day.\<close>

lemma abs_year_correct:
  assumes "abs_year d = (y, yday)"
  shows "days_before_year y + yday = d \<and> 0 \<le> yday \<and>
    yday < (if isLeap (y + absoluteZeroYear) then 366 else 365)"
proof -
  define a where "a = d div 146097"
  define d1 where "d1 = d - 146097 * a"
  define b where "b = cut (d1 div 36524)"
  define d2 where "d2 = d1 - 36524 * b"
  define c where "c = d2 div 1461"
  define d3 where "d3 = d2 - 1461 * c"
  define e where "e = cut (d3 div 365)"
  have y: "y = 400 * a + 100 * b + 4 * c + e" "yday = d3 - 365 * e"
    using assms unfolding a_def d1_def b_def d2_def c_def d3_def e_def
    by (simp_all add: abs_year_def Let_def)
  have "d1 = d mod 146097" by (simp add: d1_def a_def minus_mult_div_eq_mod)
  then have d1: "0 \<le> d1" "d1 < 146097" by simp_all
  have b: "0 \<le> b" "b \<le> 3" "0 \<le> d2" "d2 < (if b = 3 then 36525 else 36524)"
    using cut_correct [OF d1(1) _ _ b_def] d1(2) by (auto simp: d2_def split: if_splits)
  have "d3 = d2 mod 1461" by (simp add: d3_def c_def minus_mult_div_eq_mod)
  then have d3: "0 \<le> d3" "d3 < 1461" by simp_all
  have d23: "d2 = d3 + 1461 * c" by (simp add: d3_def)
  have c: "0 \<le> c" "c \<le> 24" using d3 b(3,4) d23 by (auto split: if_splits)
  have e: "0 \<le> e" "e \<le> 3" "0 \<le> d3 - 365 * e" "d3 - 365 * e < (if e = 3 then 366 else 365)"
    using cut_correct [OF d3(1) _ _ e_def] d3(2) by (auto split: if_splits)
  have "d3 - 365 * e < (if e = 3 \<and> (c \<noteq> 24 \<or> b = 3) then 366 else 365)"
    using b(4) e(4) d23 by (auto split: if_splits)
  moreover have "146097 * a + 36524 * b + 1461 * c + 365 * e + yday = d"
    by (simp add: y(2) d1_def d2_def d3_def)
  ultimately show ?thesis using e(3) y(2)
    unfolding y(1) cycle_days [OF b(1,2) c e(1,2)] isLeap_cycle [OF b(1,2) c e(1,2)] by simp
qed

lemma month_day_correct:
  assumes "month_day n = (m, day)" and "n < 365"
  shows "daysBefore ! (m - 1) + (day - 1) = n \<and> 1 \<le> m \<and> m \<le> 12 \<and> 1 \<le> day \<and>
    day \<le> daysBefore ! m - daysBefore ! (m - 1) \<and> (n < 59 \<longleftrightarrow> m \<le> 2)"
proof -
  define q where "q = n div 31"
  have n: "31 * q \<le> n" "n < 31 * q + 31" "q < 12" using assms(2) by (auto simp: q_def)
  from n(3) have "q \<in> {0, 1, 2, 3, 4, 5, 6, 7, 8, 9, 10, 11}"
    unfolding insert_iff empty_iff by presburger
  with n(1,2) assms show ?thesis unfolding month_day_def q_def [symmetric]
    by (auto simp: Let_def daysBefore_def split: if_splits)
qed

lemma yday_date_correct:
  assumes "yday_date leap n = (m, day)" and "n < (if leap then 366 else 365)"
  shows "date_yday leap (m, day) = n \<and> 1 \<le> m \<and> m \<le> 12 \<and> 1 \<le> day \<and> day \<le> days_in_month leap m"
proof (cases "leap \<and> n = 59")
  case True
  with assms show ?thesis by (simp add: yday_date_def date_yday_def days_in_month_def daysBefore_def)
next
  case False
  define k where "k = (if leap \<and> 59 < n then n - 1 else n)"
  have k: "month_day k = (m, day)" "k < 365"
    using False assms by (auto simp: yday_date_def k_def split: if_splits)
  show ?thesis
    using month_day_correct [OF k] False
    by (auto simp: date_yday_def days_in_month_def k_def split: if_splits)
qed

lemma absDate_correct:
  assumes "absDate d = (year, m, day)"
  shows "date_days (year, m, day) = d \<and> 1 \<le> m \<and> m \<le> 12 \<and> 1 \<le> day \<and> day \<le> days_in_month (isLeap year) m"
proof -
  obtain y yday where y: "abs_year d = (y, yday)" by fastforce
  with assms have e: "year = y + absoluteZeroYear" "yday_date (isLeap year) (nat yday) = (m, day)"
    by (auto simp: absDate_def Let_def)
  note a = abs_year_correct [OF y]
  have "nat yday < (if isLeap year then 366 else 365)" using a by (auto simp: e(1) split: if_splits)
  from yday_date_correct [OF e(2) this] a show ?thesis by (simp add: date_days_def e(1))
qed

lemma absDate_inject: "absDate d = absDate e \<longleftrightarrow> d = e"
proof
  assume eq: "absDate d = absDate e"
  obtain y m k where d: "absDate d = (y, m, k)" by (metis prod_cases3)
  show "d = e" using absDate_correct [OF d] absDate_correct [of e] d eq by metis
qed simp

section \<open>Numbers\<close>

definition padded :: "nat \<Rightarrow> nat \<Rightarrow> string" where
  "padded w n = replicate (w - length (decimal n)) CHR ''0'' @ decimal n"

definition appendInt :: "int \<Rightarrow> nat \<Rightarrow> string" where
  "appendInt x width = (if x < 0 then ''-'' else []) @ padded width (nat \<bar>x\<bar>)"

lemma zero_digit: "is_digit CHR ''0''" "\<not> is_digit CHR ''-''" "\<not> is_digit CHR '':''" "\<not> is_digit CHR ''T''"
  "\<not> is_digit CHR ''.''" "\<not> is_digit CHR ''+''" "\<not> is_digit CHR ''Z''"
  by (simp_all add: is_digit_def between_def ord_def)

lemma padded_digits: "list_all is_digit (padded w n) \<and> padded w n \<noteq> []"
  using decimal_digits [of n] zero_digit(1) by (auto simp: padded_def list_all_iff)

lemma padded_value: "digits_value (padded w n) = int n"
proof -
  have "digits_value (replicate k CHR ''0'' @ ds) = digits_value ds" for k ds
    by (induction k) (simp_all add: digits_value_def ord_def)
  then show ?thesis by (simp add: padded_def decimal_value)
qed

text \<open>A text of numbers, each followed by a character that is not a digit, determines the numbers.\<close>

definition stops :: "string \<Rightarrow> bool" where
  "stops r \<longleftrightarrow> r = [] \<or> \<not> is_digit (hd r)"

lemma takeWhile_padded: "stops r \<Longrightarrow> takeWhile is_digit (padded w n @ r) = padded w n"
  using padded_digits [of w n] by (cases r) (simp_all add: stops_def list_all_iff takeWhile_append2)

lemma padded_inject:
  assumes "stops r" and "stops r'"
  shows "padded w n @ r = padded w m @ r' \<longleftrightarrow> n = m \<and> r = r'"
proof
  assume eq: "padded w n @ r = padded w m @ r'"
  then have p: "padded w n = padded w m"
    using takeWhile_padded [OF assms(1)] takeWhile_padded [OF assms(2)] by metis
  then have "n = m" using padded_value [of w] by (metis of_nat_eq_iff)
  with eq show "n = m \<and> r = r'" by simp
qed simp

lemma appendInt_inject:
  assumes "stops r" and "stops r'"
  shows "appendInt x w @ r = appendInt y w @ r' \<longleftrightarrow> x = y \<and> r = r'"
proof -
  have no_minus: "padded w n @ s \<noteq> CHR ''-'' # s'" for n s s'
    using padded_digits [of w n] zero_digit(2) by (cases "padded w n") auto
  then have "CHR ''-'' # s' \<noteq> padded w n @ s" for n s s' by metis
  with no_minus show ?thesis
    using padded_inject [OF assms, of w "nat \<bar>x\<bar>" "nat \<bar>y\<bar>"] by (auto simp: appendInt_def)
qed

text \<open>Cutting off the last digits of a padded number divides it.\<close>

lemma padded_butlast: "butlast (padded (Suc (Suc w)) n) = padded (Suc w) (n div 10)"
proof (cases "n < 10")
  case True
  moreover have "decimal 0 = ''0''" by (simp add: decimal.simps char_of_eq_iff)
  ultimately show ?thesis
    by (simp add: padded_def decimal.simps [of n] butlast_append replicate_append_same [symmetric])
next
  case False
  then show ?thesis by (simp add: padded_def decimal.simps [of n] butlast_append)
qed

lemma padded_cut:
  "take (length (padded (Suc w + k) n) - k) (padded (Suc w + k) n) = padded (Suc w) (n div 10 ^ k)"
proof (induction k arbitrary: n)
  case (Suc k)
  let ?b = "padded (Suc w + Suc k) n"
  have b: "butlast ?b = padded (Suc w + k) (n div 10)" using padded_butlast by simp
  have "take (length ?b - Suc k) ?b = take (length (butlast ?b) - k) (butlast ?b)"
    by (simp add: butlast_conv_take min_def)
  also have "\<dots> = padded (Suc w) (n div 10 div 10 ^ k)" unfolding b by (rule Suc)
  finally show ?case by (simp add: div_mult2_eq)
qed simp

section \<open>The layout\<close>

definition append_milli :: "int \<Rightarrow> string" where
  "append_milli nsec = (let b = appendInt nsec 9 in ''.'' @ take (length b - 6) b)"

definition zone_text :: "int \<Rightarrow> string" where
  "zone_text zone =
     (if zone < 0 then ''-'' else ''+'') @ appendInt (\<bar>zone\<bar> div 60) 2 @ '':'' @ appendInt (\<bar>zone\<bar> mod 60) 2"

definition append_zone :: "int \<Rightarrow> string" where
  "append_zone off = (if off = 0 then ''Z'' else zone_text (off sdiv 60))"

definition append_date :: "int \<times> nat \<times> nat \<Rightarrow> string" where
  "append_date date =
     (let (year, m, day) = date
      in appendInt year 4 @ ''-'' @ appendInt (int m) 2 @ ''-'' @ appendInt (int day) 2)"

definition append_clock :: "int \<Rightarrow> string" where
  "append_clock sec =
     appendInt (sec div 3600) 2 @ '':'' @ appendInt (sec mod 3600 div 60) 2 @ '':'' @ appendInt (sec mod 60) 2"

definition time_Format :: "go_time \<Rightarrow> int \<Rightarrow> string" where
  "time_Format t off =
     (let a = absolute t off
      in append_date (absDate (a div 86400)) @ ''T'' @ append_clock (a mod 86400) @
           append_milli (t_nsec t) @ append_zone off)"

lemma append_milli_eq: "0 \<le> n \<Longrightarrow> append_milli n = ''.'' @ appendInt (n div 1000000) 3"
  using padded_cut [of 2 6 "nat n"]
  by (simp add: append_milli_def appendInt_def Let_def nat_div_distrib pos_imp_zdiv_nonneg_iff not_less [symmetric])

lemma stops_Cons: "stops (c # r) \<longleftrightarrow> \<not> is_digit c"
  by (simp add: stops_def)

lemma stops_zone: "stops (append_zone off)"
  by (simp add: append_zone_def zone_text_def stops_Cons zero_digit)

lemma minutes_inject:
  "appendInt (a div 60) 2 @ '':'' @ appendInt (a mod 60) 2 = appendInt (b div 60) 2 @ '':'' @ appendInt (b mod 60) 2
     \<longleftrightarrow> a = b"
proof -
  have "stops ([] :: string)" by (simp add: stops_def)
  from appendInt_inject [OF this this]
  have "appendInt (a mod 60) 2 = appendInt (b mod 60) 2 \<longleftrightarrow> a mod 60 = b mod 60" by simp
  moreover have "a = b \<longleftrightarrow> a div 60 = b div 60 \<and> a mod 60 = b mod 60" by (metis div_mult_mod_eq)
  ultimately show ?thesis by (simp add: appendInt_inject stops_Cons zero_digit)
qed

lemma zone_text_inject: "zone_text a = zone_text b \<longleftrightarrow> a = b"
proof -
  have "zone_text a = zone_text b \<longleftrightarrow> (a < 0 \<longleftrightarrow> b < 0) \<and> \<bar>a\<bar> = \<bar>b\<bar>"
    unfolding minutes_inject [of "\<bar>a\<bar>" "\<bar>b\<bar>", symmetric] by (simp add: zone_text_def)
  then show ?thesis by auto
qed

lemma append_zone_inject:
  "append_zone a = append_zone b \<longleftrightarrow> (a = 0 \<longleftrightarrow> b = 0) \<and> a sdiv 60 = b sdiv 60"
proof -
  have "zone_text z \<noteq> ''Z''" "''Z'' \<noteq> zone_text z" for z by (simp_all add: zone_text_def)
  then show ?thesis by (auto simp: append_zone_def zone_text_inject)
qed

lemma append_date_inject:
  "append_date d @ ''T'' @ r = append_date e @ ''T'' @ r' \<longleftrightarrow> d = e \<and> r = r'"
  by (cases d; cases e) (auto simp: append_date_def appendInt_inject stops_Cons zero_digit)

lemma append_clock_inject:
  "append_clock a @ ''.'' @ r = append_clock b @ ''.'' @ r' \<longleftrightarrow> a = b \<and> r = r'"
proof -
  have "s = s div 3600 * 3600 + s mod 3600 div 60 * 60 + s mod 60" for s :: int
  proof -
    have "s mod 3600 mod 60 = s mod 60" by (rule mod_mod_cancel) simp
    then show ?thesis using div_mult_mod_eq [of s 3600] div_mult_mod_eq [of "s mod 3600" 60] by linarith
  qed
  then have "a = b" if "a div 3600 = b div 3600" "a mod 3600 div 60 = b mod 3600 div 60" "a mod 60 = b mod 60"
    using that by metis
  then show ?thesis by (auto simp: append_clock_def appendInt_inject stops_Cons zero_digit)
qed

text \<open>In the range where the seconds do not wrap, the text shows the local time down to the
  millisecond, and the zone down to the minute, with UTC as a zone of its own.\<close>

lemma absolute_inject:
  assumes "time_ok t" "time_ok u" "\<bar>a\<bar> < 2 ^ 31" "\<bar>b\<bar> < 2 ^ 31"
  shows "absolute t a = absolute u b \<longleftrightarrow> t_sec t + a = t_sec u + b"
proof -
  have "absolute t a = t_sec t + a + internalToAbsolute" if "time_ok t" "\<bar>a\<bar> < 2 ^ 31" for t a
    using that unfolding absolute_def time_ok_def internalToAbsolute_def by (intro mod_pos_pos_trivial) auto
  with assms show ?thesis by simp
qed

lemma time_Format_inject:
  assumes "time_ok t" "time_ok u" "\<bar>a\<bar> < 2 ^ 31" "\<bar>b\<bar> < 2 ^ 31"
  shows "time_Format t a = time_Format u b \<longleftrightarrow>
    t_sec t + a = t_sec u + b \<and> t_nsec t div 1000000 = t_nsec u div 1000000 \<and>
    (a = 0 \<longleftrightarrow> b = 0) \<and> a sdiv 60 = b sdiv 60"
proof -
  have n: "append_milli (t_nsec t) = ''.'' @ appendInt (t_nsec t div 1000000) 3"
    "append_milli (t_nsec u) = ''.'' @ appendInt (t_nsec u div 1000000) 3"
    using assms by (simp_all add: append_milli_eq time_ok_def)
  have "absolute t a = absolute u b \<longleftrightarrow>
      absolute t a div 86400 = absolute u b div 86400 \<and> absolute t a mod 86400 = absolute u b mod 86400"
    by (metis div_mult_mod_eq)
  then show ?thesis
    unfolding time_Format_def Let_def n append_assoc append_date_inject append_clock_inject absDate_inject
      appendInt_inject [OF stops_zone stops_zone] append_zone_inject absolute_inject [OF assms, symmetric]
    by blast
qed

definition ascii :: "string \<Rightarrow> bool" where
  "ascii s \<longleftrightarrow> list_all (\<lambda>c. ord c < 128) s"

lemma ascii_append [simp]: "ascii (s @ t) \<longleftrightarrow> ascii s \<and> ascii t"
  by (simp add: ascii_def)

lemma ascii_Cons [simp]: "ascii [] \<longleftrightarrow> True" "ascii (c # s) \<longleftrightarrow> ord c < 128 \<and> ascii s"
  by (simp_all add: ascii_def)

lemma ascii_appendInt: "ascii (appendInt x w)"
proof -
  have "ord c < 128" if "is_digit c" for c using that by (simp add: is_digit_def between_def)
  moreover have "list_all is_digit (padded w (nat \<bar>x\<bar>))" using padded_digits by blast
  moreover have "ord CHR ''-'' < 128" by (simp add: ord_def)
  ultimately show ?thesis by (auto simp: appendInt_def ascii_def list_all_iff simp del: ord_def)
qed

lemma ascii_take: "ascii s \<Longrightarrow> ascii (take k s)"
  by (auto simp: ascii_def list_all_iff dest: in_set_takeD)

lemma valid_time_Format: "valid_utf8 (time_Format t off)"
proof -
  have "ascii (append_date d)" for d
    using ascii_appendInt by (cases d) (simp add: append_date_def ord_def)
  moreover have "ascii (append_clock s)" for s
    using ascii_appendInt by (simp add: append_clock_def ord_def)
  moreover have "ascii (append_milli n)" for n
    using ascii_appendInt by (simp add: append_milli_def Let_def ascii_take ord_def)
  moreover have "ascii (append_zone off)"
    using ascii_appendInt by (simp add: append_zone_def zone_text_def ord_def)
  ultimately have "ascii (time_Format t off)" by (simp add: time_Format_def Let_def ord_def)
  then show ?thesis unfolding ascii_def by (rule valid_utf8_ascii)
qed

lemma decimal_digit: "n < 10 \<Longrightarrow> decimal n = [char_of (48 + n)]"
  "10 \<le> n \<Longrightarrow> decimal n = decimal (n div 10) @ [char_of (48 + n mod 10)]"
  by (subst decimal.simps; simp)+

text \<open>The Unix epoch, two hours ahead of UTC.\<close>

lemma time_Format_epoch: "time_Format (time_Unix 0) 7200 = ''1970-01-01T02:00:00.000+02:00''"
proof -
  have "absolute (time_Unix 0) 7200 = 9223372028715328800"
    by (simp add: absolute_def internalToAbsolute_def time_Unix_def unixToInternal_def int64_def)
  moreover have "abs_year 106751991073094 = (292277024369, 0)" by code_simp
  then have "absDate 106751991073094 = (1970, 1, 1)"
    by (simp add: absDate_def absoluteZeroYear_def isLeap_def yday_date_def month_day_def daysBefore_def)
  moreover have "append_date (1970, 1, 1) = ''1970-01-01''" "append_zone 7200 = ''+02:00''"
    "append_clock 7200 = ''02:00:00''" "append_milli 0 = ''.000''"
    by (simp_all add: append_date_def append_zone_def zone_text_def append_clock_def append_milli_eq appendInt_def
        padded_def decimal_digit char_of_eq_iff signed_divide_int_def numeral_2_eq_2)
  ultimately show ?thesis by (simp add: time_Format_def time_Unix_def)
qed

end
