(* ===== verification/Adapter.thy ===== *)
theory Adapter
  imports Pool TimeFormat
begin

text \<open>
  The hashpool adapter (\<open>src/hashpool/adapter.go\<close>, \<open>src/hashpool/config.go\<close>): its life cycle,
  the conversion of a commitment into event data, and the chaining of the events it adds. The
  hashpool node is a third-party library: its operations are a parameter. \<open>json.Marshal\<close> cannot fail on the event structure, so that branch is left out.
\<close>

section \<open>Configuration\<close>

record hashpool_config =
  ListenPort :: int
  BootstrapPeers :: "string list"
  Difficulty :: "8 word"
  RoundInterval :: int

record adapter_config =
  Hashpool :: hashpool_config
  IncludeFullHashes :: bool
  ChainCommitments :: bool
  Hp_Verbose :: bool

definition DefaultConfig :: adapter_config where
  "DefaultConfig = \<lparr>Hashpool = \<lparr>ListenPort = 0, BootstrapPeers = [], Difficulty = 16, RoundInterval = 10 * Second\<rparr>,
     IncludeFullHashes = False, ChainCommitments = True, Hp_Verbose = False\<rparr>"

section \<open>State\<close>

record hashpool_node_config =
  Node_ListenPort :: int
  Node_BootstrapPeers :: "string list"
  Node_Difficulty :: "8 word"
  Node_RoundInterval :: int
  Node_Verbose :: bool

record 'h hashpool_lib =
  hp_new :: "hashpool_node_config \<Rightarrow> string + 'h"
  hp_start :: "'h \<Rightarrow> string option \<times> 'h"
  hp_stop :: "'h \<Rightarrow> string option \<times> 'h"
  hp_submit :: "bytes \<Rightarrow> u64 \<Rightarrow> 'h \<Rightarrow> string option \<times> 'h"
  hp_difficulty :: "'h \<Rightarrow> 8 word"

text \<open>\<open>Commit_Zone\<close> is the offset of the time's location from UTC at that time, in seconds.\<close>

record commitment =
  Commit_Round :: u64
  Commit_Root :: bytes
  Commit_Hashes :: "bytes list"
  Commit_NodeID :: string
  Commit_Timestamp :: go_time
  Commit_Zone :: int

datatype adapter_error =
    NilPool
  | NilDag
  | HashpoolNew string
  | AdapterRunning
  | HashpoolStart string
  | AddCommitmentFailed u64 pool_error

text \<open>
  \<open>inflight\<close> is the counter of \<open>callbackWG\<close>; \<open>a_cancelled\<close> says that the life-cycle context has
  been cancelled.
\<close>

record 'h adapter =
  a_cfg :: adapter_config
  a_hashpool :: 'h
  lastEventID :: string
  a_running :: bool
  a_cancelled :: bool
  inflight :: nat
  a_errCh :: "adapter_error chan"

definition NewAdapter ::
    "'h hashpool_lib \<Rightarrow> bool \<Rightarrow> bool \<Rightarrow> adapter_config \<Rightarrow> adapter_error + 'h adapter" where
  "NewAdapter H has_pool has_dag c =
     (if \<not> has_pool then Inl NilPool
      else if \<not> has_dag then Inl NilDag
      else
        (let hc = Hashpool c
         in case hp_new H \<lparr>Node_ListenPort = ListenPort hc, Node_BootstrapPeers = BootstrapPeers hc,
                Node_Difficulty = Difficulty hc, Node_RoundInterval = RoundInterval hc,
                Node_Verbose = Hp_Verbose c\<rparr> of
              Inl err \<Rightarrow> Inl (HashpoolNew err)
            | Inr h \<Rightarrow>
                Inr \<lparr>a_cfg = c, a_hashpool = h, lastEventID = [], a_running = False, a_cancelled = False,
                     inflight = 0, a_errCh = make_chan 100\<rparr>))"

section \<open>Starting and stopping\<close>

definition start_lock :: "'h adapter \<Rightarrow> 'h adapter option" where
  "start_lock a = (if a_running a then None else Some (a\<lparr>a_cancelled := False, a_running := True\<rparr>))"

definition adapter_Start :: "'h hashpool_lib \<Rightarrow> 'h adapter \<Rightarrow> adapter_error option \<times> 'h adapter" where
  "adapter_Start H a =
     (case start_lock a of
        None \<Rightarrow> (Some AdapterRunning, a)
      | Some a \<Rightarrow>
          (case hp_start H (a_hashpool a) of
             (Some err, h) \<Rightarrow> (Some (HashpoolStart err), a\<lparr>a_hashpool := h, a_running := False\<rparr>)
           | (None, h) \<Rightarrow> (None, a\<lparr>a_hashpool := h\<rparr>)))"

definition stop_lock :: "'h adapter \<Rightarrow> 'h adapter option" where
  "stop_lock a = (if \<not> a_running a then None else Some (a\<lparr>a_cancelled := True, a_running := False\<rparr>))"

definition stop_close :: "'h adapter \<Rightarrow> 'h adapter exec" where
  "stop_close a = exec_bind (close_chan (a_errCh a)) (\<lambda>ch. Done (a\<lparr>a_errCh := ch\<rparr>))"

text \<open>\<open>Stop\<close> when no callback is in flight; otherwise it waits before closing the channel.\<close>

definition adapter_Stop :: "'h hashpool_lib \<Rightarrow> 'h adapter \<Rightarrow> (string option \<times> 'h adapter) exec" where
  "adapter_Stop H a =
     (case stop_lock a of
        None \<Rightarrow> Done (None, a)
      | Some a \<Rightarrow>
          (let (err, h) = hp_stop H (a_hashpool a)
           in exec_bind (stop_close (a\<lparr>a_hashpool := h\<rparr>)) (\<lambda>a. Done (err, a))))"

section \<open>Commitments\<close>

text \<open>The JSON of \<open>CommitmentEvent\<close>.\<close>

definition commitment_json :: "adapter_config \<Rightarrow> commitment \<Rightarrow> json" where
  "commitment_json ac c =
     (let hashes = (if IncludeFullHashes ac then map hex_encode (Commit_Hashes c) else [])
      in JObj
        ([(''hashpool_round'', JInt (uint (Commit_Round c))),
          (''merkle_root'', enc_string (hex_encode (Commit_Root c))),
          (''hash_count'', JInt (int (length (Commit_Hashes c)))),
          (''node_id'', enc_string (Commit_NodeID c)),
          (''timestamp'', enc_string (time_Format (Commit_Timestamp c) (Commit_Zone c)))] @
         omit_empty (hashes = []) (''hashes'', enc_slice enc_string hashes)))"

definition commitment_data :: "adapter_config \<Rightarrow> commitment \<Rightarrow> bytes" where
  "commitment_data ac c = json_marshal (commitment_json ac c)"

definition commitment_parents :: "adapter_config \<Rightarrow> string \<Rightarrow> string list" where
  "commitment_parents ac prev = (if ChainCommitments ac \<and> prev \<noteq> [] then [prev] else [])"

text \<open>
  \<open>handleCommitment\<close> in its locked beginning, which fixes the last event ID it will chain to,
  and its end, given the pool's answer.
\<close>

definition handle_begin :: "'h adapter \<Rightarrow> (string \<times> 'h adapter) option" where
  "handle_begin a = (if \<not> a_running a then None else Some (lastEventID a, a\<lparr>inflight := inflight a + 1\<rparr>))"

definition adapter_sendError :: "adapter_error \<Rightarrow> 'h adapter \<Rightarrow> 'h adapter exec" where
  "adapter_sendError err a =
     exec_bind (try_send err (a_errCh a)) (\<lambda>(sent, ch). Done (a\<lparr>a_errCh := ch\<rparr>))"

definition handle_end :: "u64 \<Rightarrow> (pool_error + string) \<Rightarrow> 'h adapter \<Rightarrow> 'h adapter exec" where
  "handle_end rnd answer a =
     exec_bind
       (case answer of
          Inl err \<Rightarrow> adapter_sendError (AddCommitmentFailed rnd err) a
        | Inr eventID \<Rightarrow> Done (a\<lparr>lastEventID := eventID\<rparr>))
       (\<lambda>a. Done (a\<lparr>inflight := inflight a - 1\<rparr>))"

definition handleCommitment ::
    "(bytes \<Rightarrow> string list \<Rightarrow> 's \<Rightarrow> (pool_error + string) \<times> 's) \<Rightarrow>
       commitment \<Rightarrow> 'h adapter \<times> 's \<Rightarrow> ('h adapter \<times> 's) exec" where
  "handleCommitment add c st =
     (let (a, s) = st
      in case handle_begin a of
           None \<Rightarrow> Done (a, s)
         | Some (prev, a) \<Rightarrow>
             (let (answer, s) = add (commitment_data (a_cfg a) c) (commitment_parents (a_cfg a) prev) s
              in exec_bind (handle_end (Commit_Round c) answer a) (\<lambda>a. Done (a, s))))"

text \<open>
  The adapter over the pool: \<open>AddEvent\<close> of the pool, where a full event channel leaves only the
  cancellation of the adapter's context; and a sequence of commitments, one after the other.
\<close>

definition pool_add :: "cid_lib \<Rightarrow> bytes \<Rightarrow> string list \<Rightarrow> 's pool \<Rightarrow> (pool_error + string) \<times> 's pool" where
  "pool_add L data parents p =
     (case pool_AddEvent_begin L data parents p of
        Inl err \<Rightarrow> (Inl err, p)
      | Inr e \<Rightarrow>
          (case pool_AddEvent_select CaseSend None e p of
             Some r \<Rightarrow> r
           | None \<Rightarrow> (Inl (ErrCtx ''context canceled''), p)))"

fun handle_all ::
    "cid_lib \<Rightarrow> commitment list \<Rightarrow> 'h adapter \<times> 's pool \<Rightarrow>
       ('h adapter \<times> 's pool) exec" where
  "handle_all L [] st = Done st"
| "handle_all L (c # cs) st =
     exec_bind (handleCommitment (pool_add L) c st) (handle_all L cs)"

definition adapter_Submit :: "'h hashpool_lib \<Rightarrow> bytes \<Rightarrow> u64 \<Rightarrow> 'h adapter \<Rightarrow> string option \<times> 'h adapter" where
  "adapter_Submit H hash nonce a =
     (let (err, h) = hp_submit H hash nonce (a_hashpool a) in (err, a\<lparr>a_hashpool := h\<rparr>))"

definition adapter_Difficulty :: "'h hashpool_lib \<Rightarrow> 'h adapter \<Rightarrow> 8 word" where
  "adapter_Difficulty H a = hp_difficulty H (a_hashpool a)"

definition adapter_LastEventID :: "'h adapter \<Rightarrow> string" where
  "adapter_LastEventID a = lastEventID a"

section \<open>The life cycle as a transition system\<close>

text \<open>
  \<open>starting\<close> counts calls of \<open>Start\<close> waiting for the hashpool node, \<open>waiting\<close> calls of \<open>Stop\<close>
  waiting for callbacks; \<open>starts\<close> how often \<open>Start\<close> has set the adapter running.
\<close>

record 'h alife =
  ad :: "'h adapter"
  starting :: nat
  waiting :: nat
  starts :: nat

definition with_ad :: "'h alife \<Rightarrow> 'h adapter exec \<Rightarrow> 'h alife exec" where
  "with_ad s r = exec_bind r (\<lambda>a. Done (s\<lparr>ad := a\<rparr>))"

inductive alife_op :: "'h alife \<Rightarrow> 'h alife exec \<Rightarrow> bool" where
  a_start: "start_lock (ad s) = Some a \<Longrightarrow>
     alife_op s (Done (s\<lparr>ad := a, starting := starting s + 1, starts := starts s + 1\<rparr>))"
| a_started: "0 < starting s \<Longrightarrow> alife_op s (Done (s\<lparr>starting := starting s - 1\<rparr>))"
| a_start_failed: "0 < starting s \<Longrightarrow>
     alife_op s (Done (s\<lparr>starting := starting s - 1, ad := (ad s)\<lparr>a_running := False\<rparr>\<rparr>))"
| a_begin: "handle_begin (ad s) = Some (prev, a) \<Longrightarrow> alife_op s (Done (s\<lparr>ad := a\<rparr>))"
| a_end: "0 < inflight (ad s) \<Longrightarrow> alife_op s (with_ad s (handle_end rnd answer (ad s)))"
| a_read: "try_recv (a_errCh (ad s)) = (r, ch) \<Longrightarrow>
     alife_op s (Done (s\<lparr>ad := (ad s)\<lparr>a_errCh := ch\<rparr>\<rparr>))"
| a_stop: "stop_lock (ad s) = Some a \<Longrightarrow> alife_op s (Done (s\<lparr>ad := a, waiting := waiting s + 1\<rparr>))"
| a_stopped: "0 < waiting s \<Longrightarrow> inflight (ad s) = 0 \<Longrightarrow>
     alife_op s (with_ad (s\<lparr>waiting := waiting s - 1\<rparr>) (stop_close (ad s)))"

definition alife_step :: "'h alife \<Rightarrow> 'h alife \<Rightarrow> bool" where
  "alife_step s t \<longleftrightarrow> alife_op s (Done t)"

definition alife_init :: "'h alife \<Rightarrow> bool" where
  "alife_init s \<longleftrightarrow> starting s = 0 \<and> waiting s = 0 \<and> starts s = 0 \<and>
     (\<exists>H hp g c. NewAdapter H hp g c = Inr (ad s))"

text \<open>While the adapter has been started at most once, the error channel is closed last.\<close>

definition alife_inv :: "'h alife \<Rightarrow> bool" where
  "alife_inv s \<longleftrightarrow> starts s \<le> 1 \<longrightarrow>
     waiting s \<le> 1 \<and> (starts s = 0 \<longrightarrow> \<not> a_running (ad s) \<and> waiting s = 0 \<and> starting s = 0 \<and> \<not> chan_closed (a_errCh (ad s))) \<and>
     (a_running (ad s) \<longrightarrow> waiting s = 0 \<and> \<not> chan_closed (a_errCh (ad s))) \<and>
     (chan_closed (a_errCh (ad s)) \<longrightarrow> waiting s = 0 \<and> inflight (ad s) = 0)"

lemma handle_end_open:
  assumes "\<not> chan_closed (a_errCh a)"
  shows "\<exists>a'. handle_end rnd answer a = Done a' \<and> \<not> chan_closed (a_errCh a') \<and> a_running a' = a_running a \<and>
    inflight a' = inflight a - 1"
proof (cases answer)
  case (Inl err)
  obtain b ch where t: "try_send (AddCommitmentFailed rnd err) (a_errCh a) = Done (b, ch)"
    using try_send_open [OF assms, of "AddCommitmentFailed rnd err"] by blast
  have "\<not> chan_closed ch" using assms try_send_Done [OF t] by simp
  with t Inl show ?thesis by (simp add: handle_end_def adapter_sendError_def)
next
  case (Inr i)
  with assms show ?thesis by (simp add: handle_end_def)
qed

lemma alife_op_inv:
  assumes inv: "alife_inv s" and op: "alife_op s r"
  shows "(starts s \<le> 1 \<longrightarrow> r \<noteq> Panic) \<and> (\<forall>t. r = Done t \<longrightarrow> alife_inv t)"
  using op
proof (cases rule: alife_op.cases)
  case (a_start a)
  with inv show ?thesis
    by (auto simp: alife_inv_def start_lock_def split: if_splits)
next
  case a_started
  with inv show ?thesis by (auto simp: alife_inv_def)
next
  case a_start_failed
  with inv show ?thesis by (auto simp: alife_inv_def)
next
  case (a_begin l a)
  with inv show ?thesis by (auto simp: alife_inv_def handle_begin_def split: if_splits)
next
  case (a_end rnd answer)
  show ?thesis
  proof (cases "chan_closed (a_errCh (ad s))")
    case True
    with inv a_end have "\<not> starts s \<le> 1" by (auto simp: alife_inv_def)
    with a_end show ?thesis by (auto simp: alife_inv_def with_ad_def exec_bind_eq_Done)
  next
    case False
    obtain a' where "handle_end rnd answer (ad s) = Done a'" "\<not> chan_closed (a_errCh a')"
      "a_running a' = a_running (ad s)" "inflight a' = inflight (ad s) - 1"
      using handle_end_open [OF False] by blast
    with a_end inv show ?thesis by (auto simp: with_ad_def alife_inv_def)
  qed
next
  case (a_read r' ch)
  with inv try_recv_frame [OF a_read(2)] show ?thesis by (auto simp: alife_inv_def)
next
  case (a_stop a)
  with inv show ?thesis by (auto simp: alife_inv_def stop_lock_def split: if_splits)
next
  case a_stopped
  show ?thesis
  proof (cases "chan_closed (a_errCh (ad s))")
    case True
    with inv a_stopped have "\<not> starts s \<le> 1" by (auto simp: alife_inv_def)
    with True a_stopped show ?thesis by (auto simp: alife_inv_def with_ad_def stop_close_def close_chan_def)
  next
    case False
    with inv a_stopped show ?thesis by (auto simp: with_ad_def stop_close_def close_chan_def alife_inv_def)
  qed
qed

lemma NewAdapter_fields:
  assumes "NewAdapter H hp g c = Inr a"
  shows "\<not> a_running a \<and> inflight a = 0 \<and> a_errCh a = make_chan 100 \<and> lastEventID a = [] \<and> a_cfg a = c"
  using assms by (auto simp: NewAdapter_def Let_def split: if_splits sum.splits)

lemma alife_init_inv: "alife_init s \<Longrightarrow> alife_inv s"
  using NewAdapter_fields by (fastforce simp: alife_init_def alife_inv_def)

interpretation alife_ts: transition_system alife_init alife_step alife_inv
proof
  fix s :: "'a alife" assume "alife_init s" then show "alife_inv s" by (rule alife_init_inv)
next
  fix s t :: "'a alife" assume "alife_inv s" and "alife_step s t"
  with alife_op_inv show "alife_inv t" unfolding alife_step_def by blast
qed

end
