(* ===== verification/AdapterProps.thy ===== *)
theory AdapterProps
  imports Adapter PoolRun
begin

text \<open>
  Properties of the hashpool adapter: no panic in any interleaving of one start and one stop with
  callbacks, the panic of a second run, the chain of commitment events in the pool, and what the
  data of a commitment event determines.
\<close>

section \<open>The life cycle\<close>

text \<open>C38: while the adapter has been started at most once, no interleaving of \<open>Start\<close>, \<open>Stop\<close>,
  commitment callbacks and readers of the error channel panics; and once the error channel is
  closed no callback is in flight and the adapter is not running.\<close>

theorem adapter_single_run_safe:
  assumes "alife_init s0" and "alife_step\<^sup>*\<^sup>* s0 s" and "starts s \<le> 1"
  shows "\<not> alife_op s Panic \<and>
    (chan_closed (a_errCh (ad s)) \<longrightarrow> inflight (ad s) = 0 \<and> \<not> a_running (ad s))"
proof -
  have inv: "alife_inv s" by (rule alife_ts.reachable_inv [OF assms(2,1)])
  with assms(3) show ?thesis using alife_op_inv [OF inv, of Panic] by (auto simp: alife_inv_def)
qed

text \<open>A hashpool node that counts its starts and never fails.\<close>

definition sample_hp :: "nat hashpool_lib" where
  "sample_hp = \<lparr>hp_new = (\<lambda>_. Inr 0), hp_start = (\<lambda>n. (None, n + 1)), hp_stop = (\<lambda>n. (None, n)),
     hp_submit = (\<lambda>_ _ n. (None, n)), hp_difficulty = (\<lambda>_. 16)\<rparr>"

definition sample_adapter :: "nat adapter" where
  "sample_adapter = projr (NewAdapter sample_hp True True DefaultConfig)"

lemma sample_adapter_eq: "sample_adapter = \<lparr>a_cfg = DefaultConfig, a_hashpool = 0, lastEventID = [],
    a_running = False, a_cancelled = False, inflight = 0, a_errCh = make_chan 100\<rparr>"
  by (simp add: sample_adapter_def NewAdapter_def sample_hp_def Let_def)

definition sample_alife :: "nat alife" where
  "sample_alife = \<lparr>ad = sample_adapter, starting = 0, waiting = 0, starts = 0\<rparr>"

lemma sample_alife_init: "alife_init sample_alife"
proof -
  have "NewAdapter sample_hp True True DefaultConfig = Inr (ad sample_alife)"
    by (simp add: sample_alife_def sample_adapter_eq NewAdapter_def sample_hp_def Let_def)
  then show ?thesis unfolding alife_init_def by (auto simp: sample_alife_def)
qed

theorem adapter_single_run_safe_witness:
  "\<exists>s. alife_step\<^sup>*\<^sup>* sample_alife s \<and> starts s = 1 \<and> inflight (ad s) = 1 \<and> \<not> alife_op s Panic"
proof -
  let ?a = "sample_adapter\<lparr>a_cancelled := False, a_running := True\<rparr>"
  let ?s1 = "sample_alife\<lparr>ad := ?a, starting := 1, starts := 1\<rparr>"
  let ?s2 = "?s1\<lparr>ad := ?a\<lparr>inflight := 1\<rparr>\<rparr>"
  have "start_lock (ad sample_alife) = Some ?a"
    by (simp add: sample_alife_def sample_adapter_eq start_lock_def)
  from a_start [OF this] have 1: "alife_step sample_alife ?s1"
    by (simp add: alife_step_def sample_alife_def)
  have "handle_begin (ad ?s1) = Some ([], ?a\<lparr>inflight := 1\<rparr>)"
    by (simp add: handle_begin_def sample_adapter_eq)
  from a_begin [OF this] have 2: "alife_step ?s1 ?s2" by (simp add: alife_step_def)
  have r: "alife_step\<^sup>*\<^sup>* sample_alife ?s2"
    by (rule rtranclp.rtrancl_into_rtrancl [where b = ?s1], rule r_into_rtranclp) (rule 1, rule 2)
  from r adapter_single_run_safe [OF sample_alife_init r] show ?thesis
    by (intro exI [of _ ?s2]) (simp add: sample_alife_def)
qed

text \<open>C39: an adapter can be started again after \<open>Stop\<close>, but its second \<open>Stop\<close> closes the error
  channel a second time and panics; and already before that, a failing commitment of the second
  run panics, as it sends on the closed channel.\<close>

theorem adapter_restart_panics:
  assumes "\<not> a_running a0" and "\<not> chan_closed (a_errCh a0)"
    and "adapter_Start H a0 = (None, a1)" and "adapter_Stop H a1 = Done (r, a2)"
    and "adapter_Start H a2 = (None, a3)"
  shows "adapter_Stop H a3 = Panic \<and> (\<exists>prev a4. handle_begin a3 = Some (prev, a4) \<and>
    handle_end rnd (Inl err) a4 = Panic)"
proof -
  have 1: "a_running a1 \<and> \<not> chan_closed (a_errCh a1)"
    using assms(1-3) by (auto simp: adapter_Start_def start_lock_def split: if_splits option.splits prod.splits)
  with assms(4) have 2: "\<not> a_running a2 \<and> chan_closed (a_errCh a2)"
    by (auto simp: adapter_Stop_def stop_lock_def stop_close_def close_chan_def split: prod.splits)
  with assms(5) have 3: "a_running a3 \<and> chan_closed (a_errCh a3)"
    by (auto simp: adapter_Start_def start_lock_def split: if_splits option.splits prod.splits)
  then show ?thesis
    by (simp add: adapter_Stop_def stop_lock_def stop_close_def close_chan_def handle_begin_def
        handle_end_def adapter_sendError_def try_send_def split: prod.splits)
qed

theorem adapter_restart_panics_witness:
  "\<exists>a1 a2 a3. adapter_Start sample_hp sample_adapter = (None, a1) \<and> adapter_Stop sample_hp a1 = Done (None, a2) \<and>
     adapter_Start sample_hp a2 = (None, a3) \<and> adapter_Stop sample_hp a3 = Panic"
proof -
  let ?a1 = "sample_adapter\<lparr>a_running := True, a_hashpool := 1\<rparr>"
  let ?a2 = "sample_adapter\<lparr>a_cancelled := True, a_hashpool := 1, a_errCh := (make_chan 100)\<lparr>chan_closed := True\<rparr>\<rparr>"
  let ?a3 = "?a2\<lparr>a_cancelled := False, a_running := True, a_hashpool := 2\<rparr>"
  have 1: "adapter_Start sample_hp sample_adapter = (None, ?a1)"
    by (simp add: adapter_Start_def start_lock_def sample_adapter_eq sample_hp_def)
  have 2: "adapter_Stop sample_hp ?a1 = Done (None, ?a2)"
    by (simp add: adapter_Stop_def stop_lock_def stop_close_def close_chan_def sample_adapter_eq sample_hp_def)
  have 3: "adapter_Start sample_hp ?a2 = (None, ?a3)"
    by (simp add: adapter_Start_def start_lock_def sample_adapter_eq sample_hp_def)
  have "\<not> a_running sample_adapter" "\<not> chan_closed (a_errCh sample_adapter)" by (simp_all add: sample_adapter_eq)
  from adapter_restart_panics [OF this 1 2 3] 1 2 3 show ?thesis by blast
qed

section \<open>The chain of commitment events\<close>

definition commitment_event ::
    "cid_lib \<Rightarrow> adapter_config \<Rightarrow> string \<Rightarrow> commitment \<Rightarrow> event" where
  "commitment_event L ac prev c =
     projr (computeEventCID L (main_event (commitment_data ac c) (commitment_parents ac prev)))"

text \<open>The events of a sequence of commitments, each with the one before it as its parent.\<close>

fun commitment_events ::
    "cid_lib \<Rightarrow> adapter_config \<Rightarrow> string \<Rightarrow> commitment list \<Rightarrow> event list" where
  "commitment_events L ac prev [] = []"
| "commitment_events L ac prev (c # cs) =
     (let e = commitment_event L ac prev c in e # commitment_events L ac (ID e) cs)"

definition last_id :: "string \<Rightarrow> event list \<Rightarrow> string" where
  "last_id prev es = (if es = [] then prev else ID (last es))"

lemma commitment_events_parents:
  "i < length cs \<Longrightarrow>
     commitment_events L ac prev cs ! i =
       commitment_event L ac (last_id prev (take i (commitment_events L ac prev cs))) (cs ! i)"
proof (induction cs arbitrary: i prev)
  case Nil
  then show ?case by simp
next
  case (Cons c cs)
  show ?case
  proof (cases i)
    case 0
    then show ?thesis by (simp add: Let_def last_id_def)
  next
    case (Suc j)
    with Cons.IH [of j] Cons.prems show ?thesis by (simp add: Let_def last_id_def)
  qed
qed

lemma length_commitment_events: "length (commitment_events L ac prev cs) = length cs"
  by (induction cs arbitrary: prev) (simp_all add: Let_def)

lemma pool_add_room:
  assumes "\<not> done_closed p" and "\<not> chan_closed (eventCh p)" and "length (buf (eventCh p)) < chan_cap (eventCh p)"
    and "computeEventCID L (main_event data parents) = Inr e"
  shows "pool_add L data parents p = (Inr (ID e), p\<lparr>eventCh := (eventCh p)\<lparr>buf := buf (eventCh p) @ [e]\<rparr>\<rparr>)"
  using assms by (simp add: pool_add_def pool_AddEvent_begin_def pool_AddEvent_select_def try_send_def)

lemma handleCommitment_room:
  assumes "a_running a" and "\<not> done_closed p" and "\<not> chan_closed (eventCh p)"
    and "length (buf (eventCh p)) < chan_cap (eventCh p)" and "\<And>e. \<exists>e'. computeEventCID L e = Inr e'"
    and e_def: "e = commitment_event L (a_cfg a) (lastEventID a) c"
  shows "handleCommitment (pool_add L) c (a, p) =
    Done (a\<lparr>lastEventID := ID e\<rparr>, p\<lparr>eventCh := (eventCh p)\<lparr>buf := buf (eventCh p) @ [e]\<rparr>\<rparr>)"
proof -
  have "computeEventCID L (main_event (commitment_data (a_cfg a) c)
      (commitment_parents (a_cfg a) (lastEventID a))) = Inr e"
    unfolding e_def commitment_event_def by (metis assms(5) sum.sel(2))
  with assms(1) pool_add_room [OF assms(2-4) this] show ?thesis
    by (simp add: handleCommitment_def handle_begin_def handle_end_def)
qed

lemma handle_all_room:
  assumes "a_running a" and "\<not> done_closed p" and "\<not> chan_closed (eventCh p)"
    and "length (buf (eventCh p)) + length cs \<le> chan_cap (eventCh p)" and "\<And>e. \<exists>e'. computeEventCID L e = Inr e'"
    and es_def: "es = commitment_events L (a_cfg a) (lastEventID a) cs"
  shows "handle_all L cs (a, p) =
    Done (a\<lparr>lastEventID := last_id (lastEventID a) es\<rparr>,
          p\<lparr>eventCh := (eventCh p)\<lparr>buf := buf (eventCh p) @ es\<rparr>\<rparr>)"
  using assms(1-4) unfolding es_def
proof (induction cs arbitrary: a p)
  case Nil
  then show ?case by (simp add: last_id_def)
next
  case (Cons c cs)
  from Cons.prems have "length (buf (eventCh p)) < chan_cap (eventCh p)" by simp
  from handleCommitment_room [OF Cons.prems(1-3) this assms(5) refl] Cons
  show ?case by (auto simp: Let_def last_id_def length_commitment_events)
qed

text \<open>C36: commitments handled one after the other reach the pool as a chain: with room in the
  event channel, every commitment becomes one main event whose data is the commitment's JSON, whose
  ID is its content identifier, and whose only parent is the event of the commitment before it (for
  the first one the last event of the adapter, if any); the adapter remembers the last.\<close>

theorem commitments_form_chain:
  assumes "a_running a" and "ChainCommitments (a_cfg a)" and "\<not> done_closed p" and "\<not> chan_closed (eventCh p)"
    and "length (buf (eventCh p)) + length cs \<le> chan_cap (eventCh p)"
    and "cid_nonempty L" and "\<And>e. \<exists>e'. computeEventCID L e = Inr e'"
  shows "\<exists>a' p' es. handle_all L cs (a, p) = Done (a', p') \<and> length es = length cs \<and>
    buf (eventCh p') = buf (eventCh p) @ es \<and> lastEventID a' = last_id (lastEventID a) es \<and>
    (\<forall>i < length cs. Type (es ! i) = MainEvent \<and> Data (es ! i) = commitment_data (a_cfg a) (cs ! i) \<and>
       ComputeCID L (Some (es ! i)) = Inr (ID (es ! i)) \<and>
       Parents (es ! i) = (if i = 0 then (if lastEventID a = [] then [] else [lastEventID a])
                           else [ID (es ! (i - 1))]))"
proof -
  let ?es = "commitment_events L (a_cfg a) (lastEventID a) cs"
  have ev: "Type e = MainEvent \<and> Data e = commitment_data (a_cfg a) c \<and> ID e \<noteq> [] \<and>
      ComputeCID L (Some e) = Inr (ID e) \<and> Parents e = (if prev = [] then [] else [prev])"
    if e: "e = commitment_event L (a_cfg a) prev c" for e prev c
  proof -
    have c: "computeEventCID L (main_event (commitment_data (a_cfg a) c) (commitment_parents (a_cfg a) prev)) = Inr e"
      unfolding e commitment_event_def by (metis assms(7) sum.sel(2))
    then obtain i where i: "ComputeCID L (Some (main_event (commitment_data (a_cfg a) c)
        (commitment_parents (a_cfg a) prev))) = Inr i"
      "e = (main_event (commitment_data (a_cfg a) c) (commitment_parents (a_cfg a) prev))\<lparr>ID := i\<rparr>"
      by (auto simp: computeEventCID_def split: sum.splits)
    then have "ComputeCID L (Some e) = Inr (ID e)" by (simp add: ComputeCID_def serializeEventContent_def)
    moreover have "ID e \<noteq> []" using computeEventCID_fresh [OF c assms(6)] by (simp add: fresh_event_def)
    ultimately show ?thesis using i(2) assms(2) by (simp add: main_event_def commitment_parents_def)
  qed
  have all: "Type (?es ! i) = MainEvent \<and> Data (?es ! i) = commitment_data (a_cfg a) (cs ! i) \<and>
       ComputeCID L (Some (?es ! i)) = Inr (ID (?es ! i)) \<and>
       Parents (?es ! i) = (if i = 0 then (if lastEventID a = [] then [] else [lastEventID a])
                           else [ID (?es ! (i - 1))])" if i: "i < length cs" for i
  proof -
    let ?prev = "last_id (lastEventID a) (take i ?es)"
    note e = ev [OF commitment_events_parents [OF i, of L "a_cfg a" "lastEventID a"]]
    show ?thesis
    proof (cases i)
      case 0
      then show ?thesis using e by (simp add: last_id_def)
    next
      case (Suc j)
      with i have j: "j < length cs" by simp
      have "take i ?es \<noteq> []" using Suc j by (simp add: take_eq_Nil) (auto simp flip: length_greater_0_conv simp: length_commitment_events)
      then have "?prev = ID (?es ! j)"
        using Suc j by (simp add: last_id_def last_conv_nth length_commitment_events)
      moreover have "ID (?es ! j) \<noteq> []"
        using ev [OF commitment_events_parents [OF j, of L "a_cfg a" "lastEventID a"]] by blast
      ultimately show ?thesis using e Suc by simp
    qed
  qed
  show ?thesis
    using handle_all_room [OF assms(1,3-5,7) refl] all length_commitment_events by auto
qed

definition sample_commitment :: "u64 \<Rightarrow> commitment" where
  "sample_commitment n = \<lparr>Commit_Round = n, Commit_Root = [1, 2], Commit_Hashes = [[3], [4]],
     Commit_NodeID = ''n'', Commit_Timestamp = time_Unix 1000, Commit_Zone = 3600\<rparr>"

theorem commitments_form_chain_witness:
  "\<exists>a' p' es. handle_all b_lib [sample_commitment 1, sample_commitment 2]
      (sample_adapter\<lparr>a_running := True\<rparr>, sample_pool NewMemoryDAG) = Done (a', p') \<and>
    buf (eventCh p') = es \<and> length es = 2 \<and> Parents (es ! 0) = [] \<and> Parents (es ! 1) = [ID (es ! 0)]"
proof -
  let ?a = "sample_adapter\<lparr>a_running := True\<rparr>"
  let ?p = "sample_pool NewMemoryDAG"
  have L: "\<exists>e'. computeEventCID b_lib e = Inr e'" for e
    by (simp add: computeEventCID_def ComputeCID_def b_lib_def split: sum.splits)
  have h: "a_running ?a" "ChainCommitments (a_cfg ?a)" "\<not> done_closed ?p" "\<not> chan_closed (eventCh ?p)"
    "length (buf (eventCh ?p)) + length [sample_commitment 1, sample_commitment 2] \<le> chan_cap (eventCh ?p)"
    by (simp_all add: sample_adapter_eq DefaultConfig_def sample_pool_eq)
  obtain a' p' es where r: "handle_all b_lib [sample_commitment 1, sample_commitment 2]
      (?a, ?p) = Done (a', p')" "length es = 2" "buf (eventCh p') = buf (eventCh ?p) @ es"
    and f: "\<forall>i < 2. Parents (es ! i) = (if i = 0 then (if lastEventID ?a = [] then [] else [lastEventID ?a])
      else [ID (es ! (i - 1))])"
    using commitments_form_chain [OF h b_lib_nonempty L] by fastforce
  have "Parents (es ! 0) = []" using f [rule_format, of 0] by (simp add: sample_adapter_eq)
  moreover have "Parents (es ! 1) = [ID (es ! 0)]" using f [rule_format, of 1] by simp
  ultimately show ?thesis using r by (auto simp: sample_pool_eq)
qed

text \<open>Two callbacks that are in flight together chain to the same event: the chain forks. A failed
  commitment leaves the chain where it was and is reported, if the error channel has room.\<close>

lemma commitments_in_flight_fork:
  assumes "handle_begin a = Some (prev, a1)" and "handle_begin a1 = Some (prev', a2)"
  shows "prev' = prev"
  using assms by (auto simp: handle_begin_def split: if_splits)

lemma failed_commitment_keeps_chain:
  assumes "\<not> chan_closed (a_errCh a)" and "handle_end rnd (Inl err) a = Done a'"
  shows "lastEventID a' = lastEventID a \<and> inflight a' = inflight a - 1 \<and>
    buf (a_errCh a') = buf (a_errCh a) @
      (if length (buf (a_errCh a)) < chan_cap (a_errCh a) then [AddCommitmentFailed rnd err] else [])"
  using assms by (auto simp: handle_end_def adapter_sendError_def try_send_def split: if_splits)

section \<open>Commitment data\<close>

lemma enc_string_inj: "enc_string s = enc_string t \<longleftrightarrow> s = t"
  by (simp add: enc_string_def)

lemma hex_encode_inj: "hex_encode a = hex_encode b \<longleftrightarrow> a = b"
  using hex_decode_encode by (metis sum.inject(2))

lemma enc_hex_inj: "enc_string (hex_encode a) = enc_string (hex_encode b) \<longleftrightarrow> a = b"
  by (simp add: enc_string_inj hex_encode_inj)

lemma map_enc_hex_inj: "map (enc_string \<circ> hex_encode) xs = map (enc_string \<circ> hex_encode) ys \<longleftrightarrow> xs = ys"
  using enc_hex_inj by (auto simp: inj_map_eq_map inj_def)

lemma reads_back_commitment:
  assumes "valid_utf8 (Commit_NodeID c)"
  shows "reads_back maxNestingDepth (commitment_json ac c)"
proof -
  have "valid_utf8 ''hashpool_round''" "valid_utf8 ''merkle_root''" "valid_utf8 ''hash_count''" "valid_utf8 ''node_id''"
    "valid_utf8 ''timestamp''" "valid_utf8 ''hashes''" by (simp_all add: valid_utf8_ascii ord_def)
  moreover have "reads_back 9999 (enc_slice enc_string (map hex_encode hs))" for hs
    by (intro reads_back_slice) (auto intro: reads_back_string valid_hex)
  ultimately show ?thesis using assms
    by (auto simp: commitment_json_def Let_def reads_back_obj maxNestingDepth_def omit_empty_def reads_back_string
        valid_hex valid_time_Format)
qed

text \<open>Two times with the same local time down to the millisecond, and zones that agree down to the
  minute, with UTC as a zone of its own.\<close>

definition same_stamp :: "commitment \<Rightarrow> commitment \<Rightarrow> bool" where
  "same_stamp c d \<longleftrightarrow>
     t_sec (Commit_Timestamp c) + Commit_Zone c = t_sec (Commit_Timestamp d) + Commit_Zone d \<and>
     t_nsec (Commit_Timestamp c) div Millisecond = t_nsec (Commit_Timestamp d) div Millisecond \<and>
     (Commit_Zone c = 0 \<longleftrightarrow> Commit_Zone d = 0) \<and> Commit_Zone c sdiv 60 = Commit_Zone d sdiv 60"

definition stamp_ok :: "commitment \<Rightarrow> bool" where
  "stamp_ok c \<longleftrightarrow> time_ok (Commit_Timestamp c) \<and> \<bar>Commit_Zone c\<bar> < 2 ^ 31"

text \<open>C37: the data of a commitment event determines the commitment's round, Merkle root, number of
  hashes, node ID and local time down to the millisecond, and with \<open>IncludeFullHashes\<close> the hashes
  themselves; without, two commitments that agree on the rest have the same data whatever their hashes
  are. The time is any within 2^62 seconds of the year 1.\<close>

theorem commitment_data_determines:
  assumes "valid_utf8 (Commit_NodeID c)" and "valid_utf8 (Commit_NodeID d)"
    and "stamp_ok c" and "stamp_ok d"
  shows "commitment_data ac c = commitment_data ac d \<longleftrightarrow>
    Commit_Round c = Commit_Round d \<and> Commit_Root c = Commit_Root d \<and>
    length (Commit_Hashes c) = length (Commit_Hashes d) \<and> Commit_NodeID c = Commit_NodeID d \<and>
    same_stamp c d \<and> (IncludeFullHashes ac \<longrightarrow> Commit_Hashes c = Commit_Hashes d)"
proof -
  let ?time = "\<lambda>c. time_Format (Commit_Timestamp c) (Commit_Zone c)"
  have time: "?time c = ?time d \<longleftrightarrow> same_stamp c d"
    using assms(3,4) by (simp add: stamp_ok_def same_stamp_def time_Format_inject Millisecond_def)
  have "commitment_data ac c = commitment_data ac d \<longleftrightarrow> commitment_json ac c = commitment_json ac d"
    unfolding commitment_data_def by (intro json_marshal_inj reads_back_commitment assms)
  also have "\<dots> \<longleftrightarrow> uint (Commit_Round c) = uint (Commit_Round d) \<and> Commit_Root c = Commit_Root d \<and>
    length (Commit_Hashes c) = length (Commit_Hashes d) \<and> Commit_NodeID c = Commit_NodeID d \<and>
    ?time c = ?time d \<and> (IncludeFullHashes ac \<longrightarrow> Commit_Hashes c = Commit_Hashes d)"
    by (auto simp: commitment_json_def Let_def omit_empty_def enc_slice_def enc_hex_inj enc_string_inj hex_encode_inj map_enc_hex_inj)
  finally show ?thesis unfolding time by (simp only: word_uint_eq_iff)
qed

theorem commitment_data_determines_witness:
  "commitment_data DefaultConfig (sample_commitment 1) \<noteq> commitment_data DefaultConfig (sample_commitment 2)"
proof -
  have v: "valid_utf8 (Commit_NodeID (sample_commitment n))" for n
    by (simp add: sample_commitment_def valid_utf8_ascii ord_def)
  have s: "stamp_ok (sample_commitment n)" for n
    by (simp add: stamp_ok_def sample_commitment_def time_ok_def time_Unix_def unixToInternal_def int64_def Second_def)
  have "Commit_Round (sample_commitment 1) \<noteq> Commit_Round (sample_commitment 2)"
    by (simp add: sample_commitment_def)
  with commitment_data_determines [OF v v s s] show ?thesis by blast
qed

end
