(* ===== verification/Network.thy ===== *)
theory Network
  imports Prelude
begin

text \<open>
  The peer-to-peer network node (\<open>src/network/network.go\<close>), a thin layer over libp2p, whose
  operations are parameters. Hosts are numbers; which hosts are opened and closed, and in which
  order, is recorded as a trace, which the whole node (\<open>src/node/node.go\<close>) continues.
\<close>

record network_config =
  Port :: int
  Peer :: string

record ('a, 'i) libp2p =
  lib_new :: "string \<Rightarrow> string + nat"              \<comment> \<open>\<open>libp2p.New\<close> listening on an address\<close>
  new_multiaddr :: "string \<Rightarrow> string + 'a"
  addr_info :: "'a \<Rightarrow> string + 'i"                \<comment> \<open>\<open>peer.AddrInfoFromP2pAddr\<close>\<close>
  lib_connect :: "nat \<Rightarrow> 'i \<Rightarrow> string option"
  lib_peers :: "nat \<Rightarrow> string list"
  lib_close :: "nat \<Rightarrow> string option"

datatype network_error =
    NetConfig string
  | CreateHost string
  | InvalidPeerAddress string
  | ConnectPeer network_error
  | InvalidAddrInfo string
  | ConnectFailed string

datatype action =
    OpenHost nat
  | CloseHost nat
  | StartBeacon
  | StopBeacon
  | OpenPool
  | ClosePool
  | CreateHashpool
  | StopHashpool

definition net_Connect :: "('a, 'i) libp2p \<Rightarrow> 'a \<Rightarrow> nat \<Rightarrow> network_error option" where
  "net_Connect N addr h =
     (case addr_info N addr of
        Inl err \<Rightarrow> Some (InvalidAddrInfo err)
      | Inr info \<Rightarrow>
          (case lib_connect N h info of Some err \<Rightarrow> Some (ConnectFailed err) | None \<Rightarrow> None))"

text \<open>The listen address of a non-negative port.\<close>

definition listen_addr :: "int \<Rightarrow> string" where
  "listen_addr port = ''/ip4/0.0.0.0/tcp/'' @ decimal (nat port)"

definition NewNode :: "('a, 'i) libp2p \<Rightarrow> network_config \<Rightarrow> (network_error + nat) \<times> action list" where
  "NewNode N c =
     (if Port c < 0 then (Inl (NetConfig ''port must be non-negative''), [])
      else
        (case lib_new N (listen_addr (Port c)) of
           Inl err \<Rightarrow> (Inl (CreateHost err), [])
         | Inr h \<Rightarrow>
             (if Peer c \<noteq> [] then
                (case new_multiaddr N (Peer c) of
                   Inl err \<Rightarrow> (Inl (InvalidPeerAddress err), [OpenHost h])
                 | Inr addr \<Rightarrow>
                     (case net_Connect N addr h of
                        Some err \<Rightarrow> (Inl (ConnectPeer err), [OpenHost h])
                      | None \<Rightarrow> (Inr h, [OpenHost h])))
              else (Inr h, [OpenHost h]))))"

definition net_Peers :: "('a, 'i) libp2p \<Rightarrow> nat \<Rightarrow> string list" where
  "net_Peers N h = lib_peers N h"

definition net_Close :: "('a, 'i) libp2p \<Rightarrow> nat \<Rightarrow> string option" where
  "net_Close N h = lib_close N h"

text \<open>
  A failed \<open>NewNode\<close> has opened a host exactly when a configured peer could not be parsed or
  dialled; nothing ever closes that host.
\<close>

lemma NewNode_cases:
  "(\<exists>h. NewNode N c = (Inr h, [OpenHost h])) \<or> (\<exists>err. NewNode N c = (Inl err, [])) \<or>
   (\<exists>err h. NewNode N c = (Inl err, [OpenHost h]) \<and> Peer c \<noteq> [])"
  by (auto simp: NewNode_def split: sum.splits option.splits)

lemma NewNode_Inr: "NewNode N c = (Inr h, tr) \<Longrightarrow> tr = [OpenHost h]"
  by (auto simp: NewNode_def split: sum.splits option.splits if_splits)

lemma NewNode_Inl:
  "NewNode N c = (Inl err, tr) \<Longrightarrow> tr = [] \<or> (\<exists>h. tr = [OpenHost h] \<and> Peer c \<noteq> [])"
  by (auto simp: NewNode_def split: sum.splits option.splits if_splits)

end
