(* ===== verification/Node.thy ===== *)
theory Node
  imports Network Adapter MemoryDag
begin

text \<open>
  The node (\<open>src/node/node.go\<close>) that puts the components together: validation of the
  configuration, construction with its clean-up on every failure, the operations it passes on,
  and shutdown. Opening and closing of resources is recorded as a trace. The DAG is the one the
  pool holds; the channel from the beacon to the pool lives in the beacon's channels under the
  number the pool's subscription got.
\<close>

section \<open>Configuration\<close>

record node_config =
  Net :: network_config
  BeaconURL :: string
  BeaconInterval :: int
  BeaconChainHash :: bytes
  BeaconPublicKey :: bytes
  BeaconGenesisTime :: int
  Cfg_EventRate :: int
  Cfg_AnchorInterval :: int
  Cfg_SubEventComplex :: float64
  Cfg_VerifyInterval :: int
  EnableHashpool :: bool
  HashpoolConfig :: "adapter_config option"

definition ValidateConfig :: "node_config \<Rightarrow> string option" where
  "ValidateConfig c =
     (if BeaconURL c = [] then Some ''BeaconURL cannot be empty''
      else if BeaconInterval c < Second then Some ''BeaconInterval must be at least 1 second''
      else if Cfg_EventRate c \<le> 0 then Some ''EventRate must be positive''
      else if Cfg_AnchorInterval c \<le> 0 then Some ''AnchorInterval must be positive''
      else if f64_less (Cfg_SubEventComplex c) (Fin 0) \<or> f64_less (Fin 1) (Cfg_SubEventComplex c)
      then Some ''SubEventComplex must be between 0 and 1''
      else if Cfg_VerifyInterval c \<le> 0 then Some ''VerifyInterval must be positive''
      else None)"

definition beacon_cfg_of :: "node_config \<Rightarrow> beacon_config" where
  "beacon_cfg_of c = \<lparr>URL = BeaconURL c, ChainHash = BeaconChainHash c, PublicKey = BeaconPublicKey c,
     Period = BeaconInterval c, GenesisTime = BeaconGenesisTime c\<rparr>"

definition pool_cfg_of :: "node_config \<Rightarrow> pool_config" where
  "pool_cfg_of c = \<lparr>EventRate = Cfg_EventRate c, AnchorInterval = Cfg_AnchorInterval c,
     SubEventComplex = Cfg_SubEventComplex c, VerifyInterval = Cfg_VerifyInterval c, RNGSeed = 0\<rparr>"

definition hashpool_cfg_of :: "node_config \<Rightarrow> adapter_config" where
  "hashpool_cfg_of c = (case HashpoolConfig c of None \<Rightarrow> DefaultConfig | Some hc \<Rightarrow> hc)"

section \<open>State\<close>

datatype node_error =
    NodeConfig string
  | CreateNetwork network_error
  | CreateBeacon beacon_error
  | StartBeaconFailed beacon_error
  | CloseNetwork string
  | CreatePool pool_error
  | CreateAdapter adapter_error
  | StartAdapter adapter_error

record 'h node =
  network :: nat
  beacon :: drandBeacon
  beacon_sub :: nat
  node_pool :: "memoryDAG pool"
  hashpoolAdapter :: "'h adapter option"

definition node_dag :: "'h node \<Rightarrow> memoryDAG" where
  "node_dag n = dag (node_pool n)"

section \<open>Construction\<close>

text \<open>\<open>Close\<close> of the pool runs its body once.\<close>

definition pool_Close_once :: "'s pool \<Rightarrow> 's pool exec" where
  "pool_Close_once p = (if done_closed p then Done p else pool_Close p)"

text \<open>
  The parts of \<open>New\<close> from the pool on, for a network node \<open>h\<close> and a started beacon \<open>b\<close>. \<open>now_ns\<close>
  and \<open>source\<close> seed the generator.
\<close>

definition node_start_adapter ::
    "('a, 'i) libp2p \<Rightarrow> 'h hashpool_lib \<Rightarrow> node_config \<Rightarrow> 'h node \<Rightarrow> action list \<Rightarrow>
       ((node_error + 'h node) \<times> action list) exec" where
  "node_start_adapter N H c n tr =
     (if \<not> EnableHashpool c then Done (Inr n, tr)
      else
        (case NewAdapter H True True (hashpool_cfg_of c) of
           Inl err \<Rightarrow>
             exec_bind (pool_Close_once (node_pool n))
               (\<lambda>p. exec_bind (beacon_Stop (beacon n))
                 (\<lambda>b. Done (Inl (CreateAdapter err), tr @ [ClosePool, StopBeacon, CloseHost (network n)])))
         | Inr a \<Rightarrow>
             (case adapter_Start H a of
                (Some err, a) \<Rightarrow>
                  exec_bind (adapter_Stop H a)
                    (\<lambda>stopped. exec_bind (pool_Close_once (node_pool n))
                      (\<lambda>p. exec_bind (beacon_Stop (beacon n))
                        (\<lambda>b. Done (Inl (StartAdapter err),
                               tr @ [CreateHashpool] @ (if a_running a then [StopHashpool] else []) @
                               [ClosePool, StopBeacon, CloseHost (network n)]))))
              | (None, a) \<Rightarrow> Done (Inr (n\<lparr>hashpoolAdapter := Some a\<rparr>), tr @ [CreateHashpool]))))"

definition node_New ::
    "('a, 'i) libp2p \<Rightarrow> 'h hashpool_lib \<Rightarrow> int \<Rightarrow> (int \<Rightarrow> rng) \<Rightarrow> node_config \<Rightarrow>
       ((node_error + 'h node) \<times> action list) exec" where
  "node_New N H now_ns source c =
     (case ValidateConfig c of
        Some msg \<Rightarrow> Done (Inl (NodeConfig msg), [])
      | None \<Rightarrow>
          (case NewNode N (Net c) of
             (Inl err, tr) \<Rightarrow> Done (Inl (CreateNetwork err), tr)
           | (Inr h, tr) \<Rightarrow>
               (case NewBeacon (beacon_cfg_of c) of
                  Inl err \<Rightarrow> Done (Inl (CreateBeacon err), tr @ [CloseHost h])
                | Inr b \<Rightarrow>
                    (case beacon_Start b of
                       (Some err, b) \<Rightarrow> Done (Inl (StartBeaconFailed err), tr @ [CloseHost h])
                     | (None, b) \<Rightarrow>
                         (let (ch, b') = beacon_Subscribe b
                          in case NewPool True True True (Inr (b_chans b' ch)) now_ns source NewMemoryDAG
                                    (pool_cfg_of c) of
                               Inl err \<Rightarrow>
                                 exec_bind (beacon_Stop b)
                                   (\<lambda>b. Done (Inl (case net_Close N h of
                                                     Some msg \<Rightarrow> CloseNetwork msg | None \<Rightarrow> CreatePool err),
                                              tr @ [StartBeacon, StopBeacon, CloseHost h]))
                             | Inr p \<Rightarrow>
                                 node_start_adapter N H c
                                   \<lparr>network = h, beacon = b', beacon_sub = ch, node_pool = p, hashpoolAdapter = None\<rparr>
                                   (tr @ [StartBeacon, OpenPool]))))))"

section \<open>Operations\<close>

definition node_GetEvent :: "string \<Rightarrow> 'h node \<Rightarrow> dag_error + event" where
  "node_GetEvent i n = memory_GetEvent i (node_dag n)"

definition node_GetMainEvents :: "string list \<Rightarrow> 'h node \<Rightarrow> event list" where
  "node_GetMainEvents ks n = memory_GetMainEvents ks (node_dag n)"

definition node_AddEvent ::
    "cid_lib \<Rightarrow> select_case \<Rightarrow> string option \<Rightarrow> bytes \<Rightarrow> string list \<Rightarrow> 'h node \<Rightarrow>
       ((pool_error + string) \<times> 'h node) option" where
  "node_AddEvent L br ctx data parents n =
     (case pool_AddEvent_begin L data parents (node_pool n) of
        Inl err \<Rightarrow> Some (Inl err, n)
      | Inr e \<Rightarrow>
          (case pool_AddEvent_select br ctx e (node_pool n) of
             None \<Rightarrow> None
           | Some (r, p) \<Rightarrow> Some (r, n\<lparr>node_pool := p\<rparr>)))"

definition node_Subscribe :: "'h node \<Rightarrow> (pool_error + nat) \<times> 'h node" where
  "node_Subscribe n = (let (r, p) = pool_Subscribe (node_pool n) in (r, n\<lparr>node_pool := p\<rparr>))"

datatype submit_error = HashpoolDisabled | SubmitFailed string

definition SubmitHash :: "'h hashpool_lib \<Rightarrow> bytes \<Rightarrow> u64 \<Rightarrow> 'h node \<Rightarrow> submit_error option \<times> 'h node" where
  "SubmitHash H hash nonce n =
     (case hashpoolAdapter n of
        None \<Rightarrow> (Some HashpoolDisabled, n)
      | Some a \<Rightarrow>
          (let (err, a') = adapter_Submit H hash nonce a
           in (map_option SubmitFailed err, n\<lparr>hashpoolAdapter := Some a'\<rparr>)))"

section \<open>The components at work\<close>

text \<open>
  The fetch loop of the beacon delivers to its subscribers; the run loop of the pool reads the
  channel it was given when it subscribed. Both hold the same channel.
\<close>

definition node_beacon_tick :: "beacon_error + round \<Rightarrow> 'h node \<Rightarrow> 'h node exec" where
  "node_beacon_tick fetched n = exec_bind (beacon_tick fetched (beacon n)) (\<lambda>b. Done (n\<lparr>beacon := b\<rparr>))"

definition node_run_event ::
    "cid_lib \<Rightarrow> go_time \<Rightarrow> (beacon_error + round) \<Rightarrow> event \<Rightarrow> 'h node \<Rightarrow> 'h node exec" where
  "node_run_event L now fetched e n =
     (let b = beacon n; p = (node_pool n)\<lparr>beaconCh := b_chans b (beacon_sub n)\<rparr>
      in exec_bind (run_event (\<lambda>e. memory_AddEvent (Some e)) memory_SetBeacon L now fetched e p)
           (\<lambda>p. Done (n\<lparr>node_pool := p, beacon := b\<lparr>b_chans := (b_chans b)(beacon_sub n := beaconCh p)\<rparr>\<rparr>)))"

text \<open>
  What the goroutines that \<open>New\<close> has started do first: both create their tickers, and a panic in either
  ends the process. \<open>New\<close> starts the beacon with the interval it also passes as the period.
\<close>

definition node_goroutines :: "'h node \<Rightarrow> 'h node exec" where
  "node_goroutines n =
     exec_bind (beacon_run_ticker (Period (b_cfg (beacon n))))
       (\<lambda>bt. exec_bind (run_tickers (cfg (node_pool n))) (\<lambda>pt. Done n))"

section \<open>Shutdown\<close>

datatype close_error = StopAdapterFailed string | CloseNetworkFailed string

text \<open>\<open>Close\<close>: every component is stopped, whatever the others returned; pool and beacon return nil.\<close>

definition node_stop_adapter ::
    "'h hashpool_lib \<Rightarrow> 'h adapter option \<Rightarrow> (close_error list \<times> 'h adapter option \<times> action list) exec" where
  "node_stop_adapter H ao =
     (case ao of
        None \<Rightarrow> Done ([], None, [])
      | Some a \<Rightarrow>
          exec_bind (adapter_Stop H a)
            (\<lambda>(err, a'). Done (case err of None \<Rightarrow> [] | Some msg \<Rightarrow> [StopAdapterFailed msg], Some a',
                              if a_running a then [StopHashpool] else [])))"

definition node_Close ::
    "('a, 'i) libp2p \<Rightarrow> 'h hashpool_lib \<Rightarrow> 'h node \<Rightarrow> (close_error list \<times> 'h node \<times> action list) exec" where
  "node_Close N H n =
     exec_bind (node_stop_adapter H (hashpoolAdapter n))
       (\<lambda>(errs, a, tr). exec_bind (pool_Close_once (node_pool n))
         (\<lambda>p. exec_bind (beacon_Stop (beacon n))
           (\<lambda>b. Done (errs @ (case net_Close N (network n) of None \<Rightarrow> [] | Some msg \<Rightarrow> [CloseNetworkFailed msg]),
                     n\<lparr>hashpoolAdapter := a, node_pool := p, beacon := b\<rparr>,
                     tr @ [ClosePool, StopBeacon, CloseHost (network n)]))))"

end
