(* ===== verification/NodeRun.thy ===== *)
theory NodeRun
  imports Node AdapterProps MemoryProps
begin

text \<open>
  A running node: what its clients, the beacon's fetch loop, the pool's run loop and the
  hashpool's callbacks do to it, one operation after the other, and the invariant that holds in
  every state a node gets into before \<open>Close\<close>. The interleavings inside an operation are those of
  the theories of the pool's and the adapter's life cycle.
\<close>

section \<open>Operations of a running node\<close>

text \<open>
  \<open>node_op n r\<close>: an operation in state \<open>n\<close> with outcome \<open>r\<close>. Clients use the methods of the node; one
  that changes the store that \<open>DAG\<close> hands out is not covered. The arguments \<open>L\<close>
  and \<open>H\<close> are the libraries.
\<close>

inductive node_op ::
    "cid_lib \<Rightarrow> 'h hashpool_lib \<Rightarrow> 'h node \<Rightarrow> 'h node exec \<Rightarrow> bool"
  for L H where
  n_add: "node_AddEvent L br ctx data parents n = Some (r, n') \<Longrightarrow> node_op L H n (Done n')"
| n_subscribe: "node_op L H n (Done (snd (node_Subscribe n)))"
| n_unsubscribe: "node_op L H n
     (exec_bind (removeSubscriber s (node_pool n)) (\<lambda>p. Done (n\<lparr>node_pool := p\<rparr>)))"
| n_submit: "node_op L H n (Done (snd (SubmitHash H hash nonce n)))"
| n_go: "node_op L H n (node_goroutines n)"
| n_tick: "node_op L H n (node_beacon_tick fetched n)"
| n_event: "try_recv (eventCh (node_pool n)) = (Some (Some e), ch) \<Longrightarrow>
     node_op L H n
       (node_run_event L now fetched e (n\<lparr>node_pool := (node_pool n)\<lparr>eventCh := ch\<rparr>\<rparr>))"
| n_verify: "range_order (mem_events (node_dag n)) ks1 \<Longrightarrow> range_order (mem_events (node_dag n)) ks2 \<Longrightarrow>
     node_op L H n
       (exec_bind (run_verify (memory_Verify ks1 ks2) (node_pool n)) (\<lambda>p. Done (n\<lparr>node_pool := p\<rparr>)))"
| n_commitment: "hashpoolAdapter n = Some a \<Longrightarrow>
     node_op L H n
       (exec_bind (handleCommitment (pool_add L) c (a, node_pool n))
         (\<lambda>(a, p). Done (n\<lparr>hashpoolAdapter := Some a, node_pool := p\<rparr>)))"

section \<open>What the run loop leaves alone\<close>

definition keeps :: "'s pool \<Rightarrow> 's pool \<Rightarrow> bool" where
  "keeps p p' \<longleftrightarrow> running p' = running p \<and> done_closed p' = done_closed p \<and> eventCh p' = eventCh p \<and>
     beaconCh p' = beaconCh p \<and> cfg p' = cfg p"

lemma keeps_trans: "keeps p q \<Longrightarrow> keeps q r \<Longrightarrow> keeps p r"
  by (simp add: keeps_def)

lemma keeps_notify: "notify_loop e ss p = Done p' \<Longrightarrow> keeps p p'"
proof (induction ss arbitrary: p)
  case Nil
  then show ?case by (simp add: keeps_def)
next
  case (Cons s ss)
  then show ?case by (force simp: exec_bind_eq_Done keeps_def split: if_splits)
qed

lemma keeps_sendError: "sendError err p = Done p' \<Longrightarrow> keeps p p'"
  by (auto simp: sendError_def exec_bind_eq_Done keeps_def)

lemma keeps_maybe_parents: "maybe_parents p = (ps, p') \<Longrightarrow> keeps p p'"
  by (auto simp: maybe_parents_def selectRandomParents_def keeps_def Let_def split: prod.splits if_splits)

lemma keeps_create:
  assumes "create_sub_event add L pid i p = Done p'" shows "keeps p p'"
proof -
  obtain ps q where q: "maybe_parents p = (ps, q)" by fastforce
  note k = keeps_maybe_parents [OF q]
  show ?thesis
  proof (cases "computeEventCID L (sub_event pid i ps)")
    case (Inl err)
    with assms q have "sendError (SubCIDFailed err) q = Done p'" by (simp add: create_sub_event_def)
    from keeps_trans [OF k keeps_sendError [OF this]] show ?thesis .
  next
    case (Inr sub)
    obtain r d where a: "add sub (dag q) = (r, d)" by fastforce
    have kd: "keeps p (q\<lparr>dag := d\<rparr>)" using k by (simp add: keeps_def)
    show ?thesis
    proof (cases r)
      case None
      with assms q Inr a obtain n where "notify_loop sub (subscribers q) (q\<lparr>dag := d\<rparr>) = Done n"
        and p': "p' = addRecentEvent (ID sub) n"
        by (auto simp: create_sub_event_def notifySubscribers_def exec_bind_eq_Done)
      then have "keeps p n" using keeps_trans [OF kd keeps_notify] by blast
      then show ?thesis unfolding p' by (simp add: keeps_def addRecentEvent_def Let_def)
    next
      case (Some err)
      with assms q Inr a have "sendError (SubAddFailed (ID sub) err) (q\<lparr>dag := d\<rparr>) = Done p'"
        by (simp add: create_sub_event_def)
      from keeps_trans [OF kd keeps_sendError [OF this]] show ?thesis .
    qed
  qed
qed

lemma keeps_create_all: "create_sub_events add L pid is p = Done p' \<Longrightarrow> keeps p p'"
proof (induction "is" arbitrary: p)
  case Nil
  then show ?case by (simp add: keeps_def)
next
  case (Cons i "is")
  then obtain q where "create_sub_event add L pid i p = Done q" "create_sub_events add L pid is q = Done p'"
    by (auto simp: exec_bind_eq_Done)
  with Cons.IH keeps_create keeps_trans show ?case by blast
qed

lemma keeps_spawn: "spawn_sub_events add L pid p = Done p' \<Longrightarrow> keeps p p'"
  by (auto simp: spawn_sub_events_def shouldCreateSubEvent_def Let_def keeps_def
      dest: keeps_create_all split: prod.splits if_splits)

text \<open>Anchoring may read the beacon channel once.\<close>

definition keeps_but_beacon :: "'s pool \<Rightarrow> 's pool \<Rightarrow> bool" where
  "keeps_but_beacon p p' \<longleftrightarrow> running p' = running p \<and> done_closed p' = done_closed p \<and>
     eventCh p' = eventCh p \<and> cfg p' = cfg p \<and>
     (beaconCh p' = beaconCh p \<or> beaconCh p' = snd (try_recv (beaconCh p)))"

lemma ensureBeaconRound_chan:
  "ensureBeaconRound now fetched p = (r, q) \<Longrightarrow> keeps_but_beacon p q"
  by (auto simp: ensureBeaconRound_def keeps_but_beacon_def split: prod.splits option.splits sum.splits)

lemma keeps_anchor:
  assumes "anchor_event anchor now fetched i p = Done p'" shows "keeps_but_beacon p p'"
proof (cases "AnchorInterval (cfg p) \<le> wrap64 (eventCount p + 1)")
  case False
  with assms show ?thesis by (auto simp: anchor_event_def keeps_but_beacon_def)
next
  case True
  obtain r q where e: "ensureBeaconRound now fetched (p\<lparr>eventCount := wrap64 (eventCount p + 1)\<rparr>) = (r, q)" by fastforce
  have k: "keeps_but_beacon p q" using ensureBeaconRound_chan [OF e] by (simp add: keeps_but_beacon_def)
  from assms True e consider err where "sendError err q = Done p'"
    | d n where "p' = q\<lparr>dag := d, lastBeaconRound := n, eventCount := 0\<rparr>"
    by (auto simp: anchor_event_def Let_def split: sum.splits if_splits)
  then show ?thesis
  proof cases
    case 1
    from k keeps_sendError [OF this] show ?thesis by (auto simp: keeps_def keeps_but_beacon_def)
  next
    case 2
    with k show ?thesis by (simp add: keeps_but_beacon_def)
  qed
qed

lemma keeps_run_event:
  assumes "run_event add anchor L now fetched e p = Done p'" shows "keeps_but_beacon p p'"
proof -
  obtain r d where a: "add e (dag p) = (r, d)" by fastforce
  show ?thesis
  proof (cases r)
    case (Some err)
    with assms a have "sendError (AddFailed (ID e) err) (p\<lparr>dag := d\<rparr>) = Done p'" by (simp add: run_event_def)
    from keeps_sendError [OF this] show ?thesis by (simp add: keeps_def keeps_but_beacon_def)
  next
    case None
    with assms a obtain n q where n: "notify_loop e (subscribers p) (p\<lparr>dag := d\<rparr>) = Done n"
      and q: "spawn_sub_events add L (ID e) (addRecentEvent (ID e) n) = Done q"
      and p': "anchor_event anchor now fetched (ID e) q = Done p'"
      by (auto simp: run_event_def notifySubscribers_def exec_bind_eq_Done)
    have "keeps p q" using keeps_notify [OF n] keeps_spawn [OF q]
      by (simp add: keeps_def addRecentEvent_def Let_def)
    with keeps_anchor [OF p'] show ?thesis by (auto simp: keeps_def keeps_but_beacon_def)
  qed
qed

section \<open>The invariant\<close>

definition adapter_live :: "'h adapter option \<Rightarrow> bool" where
  "adapter_live ao \<longleftrightarrow> (\<forall>a. ao = Some a \<longrightarrow> a_running a \<and> \<not> chan_closed (a_errCh a))"

definition pool_live :: "memoryDAG pool \<Rightarrow> bool" where
  "pool_live p \<longleftrightarrow> pool_ok mem_events p \<and> running p \<and> \<not> done_closed p \<and> \<not> chan_closed (eventCh p) \<and>
     list_all fresh_event (buf (eventCh p))"

definition node_ok :: "'h node \<Rightarrow> bool" where
  "node_ok n \<longleftrightarrow> beacon_inv (beacon n) \<and> b_running (beacon n) \<and>
     beacon_sub n \<in> set (b_subscribers (beacon n)) \<and> pool_live (node_pool n) \<and>
     adapter_live (hashpoolAdapter n)"

lemma pool_ok_chan: "pool_ok lookup (p\<lparr>eventCh := c\<rparr>) = pool_ok lookup p"
  "pool_ok lookup (p\<lparr>beaconCh := b\<rparr>) = pool_ok lookup p"
  by (simp_all add: pool_ok_def chans_open_def)

lemma fresh_main_event:
  assumes "computeEventCID L (main_event data parents) = Inr e" and "cid_nonempty L"
  shows "fresh_event e"
proof -
  note c = computeEventCID_fresh [OF assms]
  show ?thesis by (subst c(2)) (use c(1) in \<open>simp add: fresh_event_def main_event_def\<close>)
qed

lemma pool_live_send:
  assumes "pool_live p" and "fresh_event e" and "try_send e (eventCh p) = Done (True, ch)"
  shows "pool_live (p\<lparr>eventCh := ch\<rparr>)"
  using assms try_send_Done [OF assms(3)] by (simp add: pool_live_def pool_ok_chan)

lemma pool_live_select:
  assumes "pool_live p" and "fresh_event e" and "pool_AddEvent_select br ctx e p = Some (r, p')"
  shows "pool_live p'"
  using assms pool_live_send [OF assms(1,2)]
  by (auto simp: pool_AddEvent_select_def split: select_case.splits exec.splits bool.splits option.splits if_splits)

lemma pool_live_begin:
  assumes "pool_AddEvent_begin L data parents p = Inr e" and "cid_nonempty L" shows "fresh_event e"
  using assms fresh_main_event by (auto simp: pool_AddEvent_begin_def split: if_splits sum.splits)

lemma pool_live_add:
  assumes "pool_live p" and "cid_nonempty L" and "pool_add L data parents p = (r, p')"
  shows "pool_live p'"
proof (cases "pool_AddEvent_begin L data parents p")
  case (Inl err)
  with assms show ?thesis by (simp add: pool_add_def)
next
  case (Inr e)
  with assms pool_live_select [OF assms(1) pool_live_begin [OF Inr assms(2)]] show ?thesis
    by (auto simp: pool_add_def split: option.splits)
qed

lemma node_AddEvent_ok:
  assumes "node_ok n" and "cid_nonempty L" and "node_AddEvent L br ctx data parents n = Some (r, n')"
  shows "node_ok n'"
proof (cases "pool_AddEvent_begin L data parents (node_pool n)")
  case (Inl err)
  with assms show ?thesis by (simp add: node_AddEvent_def)
next
  case (Inr e)
  have "pool_live (node_pool n)" using assms(1) by (simp add: node_ok_def)
  note live = pool_live_select [OF this pool_live_begin [OF Inr assms(2)]]
  from assms(3) Inr obtain p where "pool_AddEvent_select br ctx e (node_pool n) = Some (r, p)"
    and "n' = n\<lparr>node_pool := p\<rparr>"
    by (auto simp: node_AddEvent_def split: option.splits)
  with live assms(1) show ?thesis by (auto simp: node_ok_def)
qed

lemma pool_live_Subscribe: "pool_live p \<Longrightarrow> pool_live (snd (pool_Subscribe p))"
  using pool_Subscribe_ok [of mem_events p] by (auto simp: pool_live_def pool_Subscribe_def)

lemma node_Subscribe_ok: "node_ok n \<Longrightarrow> node_ok (snd (node_Subscribe n))"
  using pool_live_Subscribe [of "node_pool n"]
  by (auto simp: node_ok_def node_Subscribe_def split: prod.splits)

lemma pool_live_remove:
  assumes "pool_live p" shows "\<exists>p'. removeSubscriber s p = Done p' \<and> pool_live p'"
proof -
  have "pool_ok mem_events p" using assms by (simp add: pool_live_def)
  from removeSubscriber_ok [OF this] obtain p' where p': "removeSubscriber s p = Done p'" "pool_ok mem_events p'"
    by blast
  then have "running p' = running p \<and> done_closed p' = done_closed p \<and> eventCh p' = eventCh p"
    by (auto simp: removeSubscriber_def exec_bind_eq_Done split: if_splits)
  with p' assms show ?thesis by (simp add: pool_live_def)
qed

lemma node_SubmitHash_ok: "node_ok n \<Longrightarrow> node_ok (snd (SubmitHash H hash nonce n))"
  by (auto simp: node_ok_def adapter_live_def SubmitHash_def adapter_Submit_def split: option.splits prod.splits)

lemma node_tick_ok:
  assumes "node_ok n" shows "\<exists>n'. node_beacon_tick fetched n = Done n' \<and> node_ok n'"
proof -
  have inv: "beacon_inv (beacon n)" using assms by (simp add: node_ok_def)
  have "\<exists>b. beacon_tick fetched (beacon n) = Done b \<and> b_running b = b_running (beacon n) \<and>
    b_subscribers b = b_subscribers (beacon n)"
  proof (cases fetched)
    case (Inr r)
    obtain b where "deliver r (b_subscribers (beacon n)) (beacon n) = Done b"
      using deliver_Done inv unfolding beacon_inv_def by blast
    with deliver_frame [OF this] Inr show ?thesis by (simp add: beacon_tick_def)
  qed (simp add: beacon_tick_def)
  then obtain b where b: "beacon_tick fetched (beacon n) = Done b" "b_running b = b_running (beacon n)"
    "b_subscribers b = b_subscribers (beacon n)" by blast
  with tick_inv [OF inv b(1)] assms show ?thesis by (simp add: node_beacon_tick_def node_ok_def)
qed

lemma beacon_inv_read:
  assumes "beacon_inv b" and "c' = b_chans b c \<or> c' = snd (try_recv (b_chans b c))"
  shows "beacon_inv (b\<lparr>b_chans := (b_chans b)(c := c')\<rparr>)"
proof -
  obtain r ch where t: "try_recv (b_chans b c) = (r, ch)" by fastforce
  have "beacon_recv c b = (r, b\<lparr>b_chans := (b_chans b)(c := ch)\<rparr>)" by (simp add: beacon_recv_def t)
  with recv_inv [OF assms(1)] have "beacon_inv (b\<lparr>b_chans := (b_chans b)(c := ch)\<rparr>)" by blast
  with assms t show ?thesis by (metis drandBeacon.surjective drandBeacon.update_convs(5) fun_upd_triv snd_conv)
qed

lemma node_run_event_ok:
  assumes ok: "node_ok n" and L: "cid_nonempty L" and t: "try_recv (eventCh (node_pool n)) = (Some (Some e), ch)"
  shows "\<exists>n'. node_run_event L now fetched e (n\<lparr>node_pool := (node_pool n)\<lparr>eventCh := ch\<rparr>\<rparr>) = Done n' \<and> node_ok n'"
proof -
  let ?p = "(node_pool n)\<lparr>eventCh := ch, beaconCh := b_chans (beacon n) (beacon_sub n)\<rparr>"
  have live: "pool_live (node_pool n)" and inv: "beacon_inv (beacon n)" using ok by (simp_all add: node_ok_def)
  have ch: "fresh_event e" "list_all fresh_event (buf ch)" "\<not> chan_closed ch"
    using live t by (auto simp: pool_live_def try_recv_def split: list.splits if_splits)
  have "pool_ok mem_events ?p" using live by (simp add: pool_live_def pool_ok_chan)
  from mem.run_event_ok [OF this L ch(1)] obtain p' where
    r: "mem_run L now fetched e ?p = Done p'" and p': "pool_ok mem_events p'" by blast
  have k: "keeps_but_beacon ?p p'" by (rule keeps_run_event [OF r])
  have "pool_live p'" using p' k ch live by (simp add: pool_live_def keeps_but_beacon_def)
  moreover have "beacon_inv ((beacon n)\<lparr>b_chans := (b_chans (beacon n))(beacon_sub n := beaconCh p')\<rparr>)"
    using k by (intro beacon_inv_read [OF inv]) (simp add: keeps_but_beacon_def)
  ultimately show ?thesis using r ok by (simp add: node_run_event_def Let_def node_ok_def)
qed

lemma node_verify_ok:
  assumes "pool_live p" and "range_order (mem_events (dag p)) ks1" and "range_order (mem_events (dag p)) ks2"
  shows "\<exists>p'. run_verify (memory_Verify ks1 ks2) p = Done p' \<and> pool_live p'"
proof -
  obtain r where r: "memory_Verify ks1 ks2 (dag p) = Done r"
    using memory_Verify_iff [OF assms(2,3)] by blast
  show ?thesis
  proof (cases r)
    case None
    with r assms(1) show ?thesis by (simp add: run_verify_def)
  next
    case (Some err)
    have "pool_ok mem_events p" using assms(1) by (simp add: pool_live_def)
    from good_step_sendError [OF this, of "\<lambda>_. True" "VerifyFailed err"] obtain p' where
      p': "sendError (VerifyFailed err) p = Done p'" "pool_ok mem_events p'"
      by (auto simp: good_step_def)
    with r Some keeps_sendError [OF p'(1)] assms(1) show ?thesis
      by (simp add: run_verify_def pool_live_def keeps_def)
  qed
qed

lemma handleCommitment_ok:
  assumes "pool_live p" and "cid_nonempty L" and "a_running a" and "\<not> chan_closed (a_errCh a)"
  shows "\<exists>a' p'. handleCommitment (pool_add L) c (a, p) = Done (a', p') \<and> pool_live p' \<and>
    a_running a' \<and> \<not> chan_closed (a_errCh a')"
proof -
  let ?a = "a\<lparr>inflight := inflight a + 1\<rparr>"
  obtain r p' where r: "pool_add L (commitment_data (a_cfg a) c)
      (commitment_parents (a_cfg a) (lastEventID a)) p = (r, p')" by fastforce
  have "\<not> chan_closed (a_errCh ?a)" using assms(4) by simp
  from handle_end_open [OF this] obtain a' where
    "handle_end (Commit_Round c) r ?a = Done a'" "\<not> chan_closed (a_errCh a')" "a_running a' = a_running ?a"
    by blast
  with r assms(3) pool_live_add [OF assms(1,2) r] show ?thesis
    by (simp add: handleCommitment_def handle_begin_def)
qed

text \<open>No operation panics but possibly the start of the goroutines, and each keeps the invariant.\<close>

lemma node_op_ok:
  assumes "node_op L H n r" and "cid_nonempty L" and "node_ok n"
  shows "r = node_goroutines n \<or> (\<exists>n'. r = Done n' \<and> node_ok n')"
  using assms(1)
proof (cases rule: node_op.cases)
  case (n_add br ctx data parents r' n')
  with node_AddEvent_ok [OF assms(3,2)] show ?thesis by blast
next
  case n_subscribe
  with node_Subscribe_ok [OF assms(3)] show ?thesis by blast
next
  case (n_unsubscribe s)
  obtain p where "removeSubscriber s (node_pool n) = Done p" "pool_live p"
    using pool_live_remove assms(3) unfolding node_ok_def by blast
  with n_unsubscribe assms(3) show ?thesis by (simp add: node_ok_def)
next
  case (n_submit hash nonce)
  with node_SubmitHash_ok [OF assms(3)] show ?thesis by blast
next
  case n_go
  then show ?thesis by simp
next
  case (n_tick fetched)
  with node_tick_ok [OF assms(3)] show ?thesis by blast
next
  case (n_event e ch now fetched)
  with node_run_event_ok [OF assms(3,2)] show ?thesis by blast
next
  case (n_verify ks1 ks2)
  have "pool_live (node_pool n)" using assms(3) by (simp add: node_ok_def)
  from node_verify_ok [OF this] n_verify obtain p where
    "run_verify (memory_Verify ks1 ks2) (node_pool n) = Done p" "pool_live p"
    unfolding node_dag_def by blast
  with n_verify assms(3) show ?thesis by (simp add: node_ok_def)
next
  case (n_commitment a c)
  have "pool_live (node_pool n)" "a_running a" "\<not> chan_closed (a_errCh a)"
    using assms(3) n_commitment(2) by (auto simp: node_ok_def adapter_live_def)
  from handleCommitment_ok [OF this(1) assms(2) this(2,3), of c] obtain a' p' where
    "handleCommitment (pool_add L) c (a, node_pool n) = Done (a', p')" "pool_live p'"
    "a_running a'" "\<not> chan_closed (a_errCh a')" by blast
  with n_commitment assms(3) show ?thesis by (simp add: node_ok_def adapter_live_def)
qed

text \<open>The configurations, which decide whether the goroutines can start, never change.\<close>

lemma node_goroutines_Done: "node_goroutines n = Done n' \<Longrightarrow> n' = n"
  by (auto simp: node_goroutines_def exec_bind_eq_Done)

lemma pool_select_cfg: "pool_AddEvent_select br ctx e p = Some (r, p') \<Longrightarrow> cfg p' = cfg p"
  by (auto simp: pool_AddEvent_select_def split: select_case.splits exec.splits bool.splits option.splits if_splits)

lemma pool_add_cfg: "pool_add L data parents p = (r, p') \<Longrightarrow> cfg p' = cfg p"
  by (auto simp: pool_add_def dest: pool_select_cfg split: sum.splits option.splits)

lemma node_op_cfg:
  assumes "node_op L H n (Done n')"
  shows "b_cfg (beacon n') = b_cfg (beacon n) \<and> cfg (node_pool n') = cfg (node_pool n)"
  using assms
proof (cases rule: node_op.cases)
  case (n_add br ctx data parents r)
  then show ?thesis by (auto simp: node_AddEvent_def dest: pool_select_cfg split: sum.splits option.splits)
next
  case n_subscribe
  then show ?thesis by (auto simp: node_Subscribe_def pool_Subscribe_def split: prod.splits if_splits)
next
  case (n_unsubscribe s)
  then show ?thesis by (auto simp: removeSubscriber_def exec_bind_eq_Done Done_eq_exec_bind split: if_splits)
next
  case (n_submit hash nonce)
  then show ?thesis by (auto simp: SubmitHash_def split: option.splits prod.splits)
next
  case n_go
  then show ?thesis by (auto dest!: sym [of "Done n'"] node_goroutines_Done)
next
  case (n_tick fetched)
  then show ?thesis
    by (auto simp: node_beacon_tick_def beacon_tick_def exec_bind_eq_Done Done_eq_exec_bind dest!: deliver_frame
        split: sum.splits)
next
  case (n_event e ch now fetched)
  then show ?thesis
    by (auto simp: node_run_event_def Let_def exec_bind_eq_Done Done_eq_exec_bind keeps_but_beacon_def
        dest!: keeps_run_event)
next
  case (n_verify ks1 ks2)
  then show ?thesis
    by (auto simp: run_verify_def exec_bind_eq_Done Done_eq_exec_bind keeps_def dest!: keeps_sendError
        split: option.splits)
next
  case (n_commitment a c)
  then show ?thesis
    by (auto simp: handleCommitment_def Let_def exec_bind_eq_Done Done_eq_exec_bind dest!: pool_add_cfg
        split: option.splits prod.splits)
qed

section \<open>A new node\<close>

text \<open>A validated configuration is one the pool accepts.\<close>

lemma ValidateConfig_pool: "ValidateConfig c = None \<Longrightarrow> check_pool_config (pool_cfg_of c) = None"
  by (simp add: ValidateConfig_def check_pool_config_def pool_cfg_of_def split: if_splits)

definition new_pool :: "(string + round chan) \<Rightarrow> int \<Rightarrow> (int \<Rightarrow> rng) \<Rightarrow> node_config \<Rightarrow> memoryDAG pool" where
  "new_pool sub now_ns source c = projr (NewPool True True True sub now_ns source NewMemoryDAG (pool_cfg_of c))"

lemma NewPool_of_config:
  assumes "ValidateConfig c = None"
  shows "NewPool True True True (Inr ch) now_ns source NewMemoryDAG (pool_cfg_of c) =
    Inr (new_pool (Inr ch) now_ns source c)"
  using ValidateConfig_pool [OF assms] by (simp add: new_pool_def NewPool_def)

lemma NewPool_fields:
  assumes "NewPool x y z (Inr ch) now_ns source d c = Inr p"
  shows "running p \<and> \<not> done_closed p \<and> eventCh p = make_chan 100 \<and> beaconCh p = ch \<and> cfg p = c \<and> dag p = d \<and>
    subscribers p = [] \<and> lastBeaconRound p = 0 \<and> eventCount p = 0"
  using assms by (auto simp: NewPool_def split: if_splits option.splits)

lemma new_pool_live:
  assumes "ValidateConfig c = None"
  defines "p \<equiv> \<lambda>ch now_ns source. new_pool (Inr ch) now_ns source c"
  shows "pool_live (p ch now_ns source) \<and> cfg (p ch now_ns source) = pool_cfg_of c \<and>
    dag (p ch now_ns source) = NewMemoryDAG \<and> subscribers (p ch now_ns source) = [] \<and>
    lastBeaconRound (p ch now_ns source) = 0 \<and> eventCount (p ch now_ns source) = 0 \<and>
    beaconCh (p ch now_ns source) = ch"
  using NewPool_fields [OF NewPool_of_config [OF assms(1)], of ch now_ns source]
    NewPool_ok [OF NewPool_of_config [OF assms(1)], of ch now_ns source]
  by (simp add: p_def pool_live_def)

text \<open>A new, started and once subscribed beacon.\<close>

definition new_beacon :: "node_config \<Rightarrow> drandBeacon" where
  "new_beacon c = snd (beacon_Subscribe ((newDrandBeacon (beacon_cfg_of c))\<lparr>b_running := True\<rparr>))"

lemma new_beacon_inv: "beacon_inv (new_beacon c) \<and> b_running (new_beacon c) \<and>
    b_subscribers (new_beacon c) = [0] \<and> b_cfg (new_beacon c) = beacon_cfg_of c \<and> b_chans (new_beacon c) 0 = make_chan 1"
  by (simp add: new_beacon_def beacon_Subscribe_def newDrandBeacon_def beacon_inv_def make_chan_ok)

definition new_node ::
    "nat \<Rightarrow> int \<Rightarrow> (int \<Rightarrow> rng) \<Rightarrow> node_config \<Rightarrow> 'h node" where
  "new_node h now_ns source c = \<lparr>network = h, beacon = new_beacon c, beacon_sub = 0,
     node_pool = new_pool (Inr (make_chan 1)) now_ns source c, hashpoolAdapter = None\<rparr>"

lemma new_node_ok: "ValidateConfig c = None \<Longrightarrow> node_ok (new_node h now_ns source c)"
  using new_pool_live [of c] new_beacon_inv [of c] by (simp add: node_ok_def new_node_def adapter_live_def)

lemma pool_live_Close: "pool_live p \<Longrightarrow> \<exists>p'. pool_Close_once p = Done p'"
  by (auto simp: pool_live_def pool_ok_def chans_open_def pool_Close_once_def pool_Close_def close_signal_def
      close_errors_def close_subscribers_def close_chan_def close_all_Done)

lemma beacon_inv_Stop: "beacon_inv b \<Longrightarrow> \<exists>b'. beacon_Stop b = Done b'"
  using beacon_Stop_Done by blast

text \<open>
  \<open>New\<close> in cases: the configuration, the network or the beacon is refused, or everything up to the
  pool is there and the adapter decides.
\<close>

lemma node_New_cases:
  "(\<exists>msg. ValidateConfig c = Some msg \<and> node_New N H now_ns source c = Done (Inl (NodeConfig msg), [])) \<or>
   (ValidateConfig c = None \<and>
     ((\<exists>err tr. NewNode N (Net c) = (Inl err, tr) \<and> node_New N H now_ns source c = Done (Inl (CreateNetwork err), tr)) \<or>
      (\<exists>h. NewNode N (Net c) = (Inr h, [OpenHost h]) \<and>
        ((\<exists>err. NewBeacon (beacon_cfg_of c) = Inl err \<and>
            node_New N H now_ns source c = Done (Inl (CreateBeacon err), [OpenHost h, CloseHost h])) \<or>
         (NewBeacon (beacon_cfg_of c) = Inr (newDrandBeacon (beacon_cfg_of c)) \<and>
            node_New N H now_ns source c =
              node_start_adapter N H c (new_node h now_ns source c) [OpenHost h, StartBeacon, OpenPool])))))"
proof (cases "ValidateConfig c")
  case (Some msg)
  then show ?thesis by (simp add: node_New_def)
next
  case None
  obtain r tr where n: "NewNode N (Net c) = (r, tr)" by fastforce
  show ?thesis
  proof (cases r)
    case (Inl err)
    with None n show ?thesis by (simp add: node_New_def)
  next
    case (Inr h)
    note tr = NewNode_Inr [OF n [unfolded Inr]]
    show ?thesis
    proof (cases "NewBeacon (beacon_cfg_of c)")
      case (Inl err)
      with None n tr \<open>r = Inr h\<close> show ?thesis by (simp add: node_New_def)
    next
      case b: (Inr b)
      then have "b = newDrandBeacon (beacon_cfg_of c)" by (auto simp: NewBeacon_def split: if_splits)
      with b None n tr \<open>r = Inr h\<close> NewPool_of_config [OF None] show ?thesis
        by (simp add: node_New_def new_node_def new_beacon_def beacon_Start_def beacon_Subscribe_def newDrandBeacon_def)
    qed
  qed
qed

text \<open>The adapter's part: what is left open depends on where it stopped.\<close>

lemma node_start_adapter_cases:
  assumes "node_ok n" and "hashpoolAdapter n = None"
  shows "(\<not> EnableHashpool c \<and> node_start_adapter N H c n tr = Done (Inr n, tr)) \<or>
    (EnableHashpool c \<and>
      ((\<exists>err. node_start_adapter N H c n tr =
          Done (Inl (CreateAdapter err), tr @ [ClosePool, StopBeacon, CloseHost (network n)])) \<or>
       (\<exists>err. node_start_adapter N H c n tr =
          Done (Inl (StartAdapter err), tr @ [CreateHashpool, ClosePool, StopBeacon, CloseHost (network n)])) \<or>
       (\<exists>a. node_start_adapter N H c n tr = Done (Inr (n\<lparr>hashpoolAdapter := Some a\<rparr>), tr @ [CreateHashpool]) \<and>
          a_running a \<and> \<not> chan_closed (a_errCh a) \<and> a_cfg a = hashpool_cfg_of c \<and> lastEventID a = [])))"
proof (cases "EnableHashpool c")
  case False
  then show ?thesis by (simp add: node_start_adapter_def)
next
  case True
  obtain p where p: "pool_Close_once (node_pool n) = Done p"
    using pool_live_Close assms(1) unfolding node_ok_def by blast
  obtain b where b: "beacon_Stop (beacon n) = Done b"
    using beacon_inv_Stop assms(1) unfolding node_ok_def by blast
  show ?thesis
  proof (cases "NewAdapter H True True (hashpool_cfg_of c)")
    case (Inl err)
    with True p b show ?thesis by (simp add: node_start_adapter_def)
  next
    case (Inr a)
    note a = NewAdapter_fields [OF Inr]
    obtain r h where s: "hp_start H (a_hashpool a) = (r, h)" by fastforce
    show ?thesis
    proof (cases r)
      case (Some err)
      with s Inr a True p b show ?thesis
        by (simp add: node_start_adapter_def adapter_Start_def start_lock_def adapter_Stop_def stop_lock_def)
    next
      case None
      let ?a = "a\<lparr>a_cancelled := False, a_running := True, a_hashpool := h\<rparr>"
      have "node_start_adapter N H c n tr = Done (Inr (n\<lparr>hashpoolAdapter := Some ?a\<rparr>), tr @ [CreateHashpool])"
        using s Inr a True None by (simp add: node_start_adapter_def adapter_Start_def start_lock_def)
      moreover have "a_running ?a \<and> \<not> chan_closed (a_errCh ?a) \<and> a_cfg ?a = hashpool_cfg_of c \<and> lastEventID ?a = []"
        using a by simp
      ultimately show ?thesis using True by blast
    qed
  qed
qed

lemma node_New_ok:
  assumes "node_New N H now_ns source c = Done (Inr n, tr)" shows "node_ok n"
proof -
  from node_New_cases [of c N H now_ns source] assms obtain h where
    v: "ValidateConfig c = None" and s: "node_start_adapter N H c (new_node h now_ns source c)
      [OpenHost h, StartBeacon, OpenPool] = Done (Inr n, tr)" by auto
  note ok = new_node_ok [OF v, of h now_ns source]
  have "hashpoolAdapter (new_node h now_ns source c) = None" by (simp add: new_node_def)
  from node_start_adapter_cases [OF ok this, of c N H "[OpenHost h, StartBeacon, OpenPool]"] s
  show ?thesis using ok by (auto simp: node_ok_def adapter_live_def)
qed

section \<open>Reachable nodes\<close>

definition node_step :: "cid_lib \<Rightarrow> 'h node \<Rightarrow> 'h node \<Rightarrow> bool" where
  "node_step L n n' \<longleftrightarrow> cid_nonempty L \<and> (\<exists>H. node_op L H n (Done n'))"

definition node_init :: "'h node \<Rightarrow> bool" where
  "node_init n \<longleftrightarrow> (\<exists>(N :: (unit, unit) libp2p) H now_ns source c tr. node_New N H now_ns source c = Done (Inr n, tr))"

interpretation node_ts: transition_system node_init "node_step L" node_ok for L
proof
  fix n :: "'a node" assume "node_init n"
  with node_New_ok show "node_ok n" unfolding node_init_def by blast
next
  fix n n' :: "'a node" assume "node_ok n" and "node_step L n n'"
  then obtain H where H: "cid_nonempty L" "node_op L H n (Done n')" unfolding node_step_def by blast
  from node_op_ok [OF H(2,1) \<open>node_ok n\<close>] show "node_ok n'"
  proof
    assume "Done n' = node_goroutines n"
    with node_goroutines_Done [of n n'] \<open>node_ok n\<close> show ?thesis by simp
  qed blast
qed

end
