(* ===== verification/NodeProps.thy ===== *)
theory NodeProps
  imports NodeRun
begin

text \<open>
  Properties of the node as a whole: what a failed construction leaves open, that a running node
  never panics and keeps a sound graph, that shutdown reaches every component, that a round goes
  from the beacon through the pool to an event, and what the configured interval means for the
  age of rounds.
\<close>

section \<open>Construction\<close>

text \<open>The resources a trace of actions has opened and not closed.\<close>

fun res_after :: "action \<Rightarrow> action set \<Rightarrow> action set" where
  "res_after (CloseHost h) s = s - {OpenHost h}"
| "res_after StopBeacon s = s - {StartBeacon}"
| "res_after ClosePool s = s - {OpenPool}"
| "res_after StopHashpool s = s - {CreateHashpool}"
| "res_after a s = insert a s"

definition left_open :: "action list \<Rightarrow> action set" where
  "left_open tr = fold res_after tr {}"

lemma NewNode_left_open:
  "NewNode N c = (Inl err, tr) \<Longrightarrow>
     (case err of InvalidPeerAddress msg \<Rightarrow> \<exists>h. left_open tr = {OpenHost h}
      | ConnectPeer cerr \<Rightarrow> \<exists>h. left_open tr = {OpenHost h} | _ \<Rightarrow> left_open tr = {})"
  by (auto simp: NewNode_def left_open_def split: if_splits sum.splits option.splits)

text \<open>C33: \<open>New\<close> always returns, without a panic (its goroutines are another matter). On success host, beacon, pool and (if enabled) the
  hashpool node are open. On failure everything that was opened is closed again, with two
  exceptions: a network node that fails on its configured peer leaves its host open, and an adapter
  that fails to start leaves its hashpool node behind, since \<open>Stop\<close> of an adapter that is not
  running does nothing.\<close>

theorem node_New_cleanup:
  "\<exists>r tr. node_New N (H :: 'h hashpool_lib) now_ns source c = Done (r, tr) \<and>
    (case r of
       Inr n \<Rightarrow> left_open tr = {OpenHost (network n), StartBeacon, OpenPool} \<union>
                  (if EnableHashpool c then {CreateHashpool} else {})
     | Inl err \<Rightarrow>
         (case err of
            CreateNetwork nerr \<Rightarrow>
              (case nerr of InvalidPeerAddress msg \<Rightarrow> \<exists>h. left_open tr = {OpenHost h}
               | ConnectPeer cerr \<Rightarrow> \<exists>h. left_open tr = {OpenHost h} | _ \<Rightarrow> left_open tr = {})
          | StartAdapter aerr \<Rightarrow> left_open tr = {CreateHashpool}
          | _ \<Rightarrow> left_open tr = {}))"
  using node_New_cases [of c N H now_ns source]
proof (elim disjE exE conjE)
  fix msg assume "node_New N H now_ns source c = Done (Inl (NodeConfig msg), [])"
  then show ?thesis by (simp add: left_open_def)
next
  fix err tr assume "NewNode N (Net c) = (Inl err, tr)"
    and "node_New N H now_ns source c = Done (Inl (CreateNetwork err), tr)"
  with NewNode_left_open show ?thesis by fastforce
next
  fix h err assume "node_New N H now_ns source c = Done (Inl (CreateBeacon err), [OpenHost h, CloseHost h])"
  then show ?thesis by (simp add: left_open_def)
next
  fix h
  let ?n = "new_node h now_ns source c :: 'h node" and ?tr = "[OpenHost h, StartBeacon, OpenPool]"
  assume v: "ValidateConfig c = None" and n: "node_New N H now_ns source c = node_start_adapter N H c ?n ?tr"
  have "hashpoolAdapter ?n = None" and h: "network ?n = h" by (simp_all add: new_node_def)
  from node_start_adapter_cases [OF new_node_ok [OF v] this(1), of c N H ?tr]
  show ?thesis
    unfolding n by (elim disjE exE conjE) (auto simp: left_open_def h)
qed

section \<open>A running node\<close>

text \<open>The configurations in a node are those it was made with.\<close>

lemma node_New_cfg:
  assumes "node_New N H now_ns source c = Done (Inr n, tr)"
  shows "ValidateConfig c = None \<and> b_cfg (beacon n) = beacon_cfg_of c \<and> cfg (node_pool n) = pool_cfg_of c"
proof -
  from node_New_cases [of c N H now_ns source] assms obtain h where
    v: "ValidateConfig c = None" and s: "node_start_adapter N H c (new_node h now_ns source c)
      [OpenHost h, StartBeacon, OpenPool] = Done (Inr n, tr)" by auto
  have "hashpoolAdapter (new_node h now_ns source c) = None" by (simp add: new_node_def)
  from node_start_adapter_cases [OF new_node_ok [OF v] this, of c N H "[OpenHost h, StartBeacon, OpenPool]"] s
  have "beacon n = new_beacon c \<and> cfg (node_pool n) = pool_cfg_of c"
    using new_pool_live [OF v] by (auto simp: new_node_def)
  with v new_beacon_inv [of c] show ?thesis by simp
qed

lemma node_steps_cfg:
  "(node_step L)\<^sup>*\<^sup>* n0 n \<Longrightarrow>
     b_cfg (beacon n) = b_cfg (beacon n0) \<and> cfg (node_pool n) = cfg (node_pool n0)"
proof (induction rule: rtranclp_induct)
  case base
  then show ?case by simp
next
  case (step y z)
  then show ?case using node_op_cfg unfolding node_step_def by metis
qed

lemma goroutines_start:
  assumes "ValidateConfig c = None" and "Cfg_VerifyInterval c * Cfg_EventRate c * Millisecond < 2 ^ 63"
    and "b_cfg (beacon n) = beacon_cfg_of c" and "cfg (node_pool n) = pool_cfg_of c"
  shows "node_goroutines n = Done n"
proof -
  have "Second \<le> BeaconInterval c" using assms(1) by (auto simp: ValidateConfig_def split: if_splits)
  then have "beacon_run_ticker (Period (b_cfg (beacon n))) = Done (BeaconInterval c)"
    by (simp add: assms(3) beacon_cfg_of_def beacon_run_ticker_def NewTicker_def Second_def)
  moreover have "VerifyInterval (pool_cfg_of c) * EventRate (pool_cfg_of c) * Millisecond < 2 ^ 63"
    using assms(2) by (simp add: pool_cfg_of_def)
  from run_tickers_exact [OF ValidateConfig_pool [OF assms(1)] this]
  have "\<exists>t. run_tickers (cfg (node_pool n)) = Done t" by (simp add: assms(4))
  ultimately show ?thesis by (auto simp: node_goroutines_def)
qed

text \<open>C31: whatever clients (through the methods of the node, not through the store that \<open>DAG\<close> hands
  out), beacon, run loop and hashpool callbacks do, one operation after the other, to a node that
  \<open>New\<close> returned: if rate and verify interval fit 64 bits as nanoseconds, none of these operations, the
  start of the goroutines included, panics or fails to return, the stored graph stays well formed and
  causally acyclic, the recent events are stored, at most a hundred, and every anchored round is at
  most the last one used and anchors a single event.\<close>

theorem node_run_safe:
  assumes "node_New N H now_ns source c = Done (Inr n0, tr)" and "cid_nonempty L"
    and "Cfg_VerifyInterval c * Cfg_EventRate c * Millisecond < 2 ^ 63" and "(node_step L)\<^sup>*\<^sup>* n0 n"
  shows "(\<forall>r. node_op L H n r \<longrightarrow> (\<exists>n'. r = Done n')) \<and> dag_wf (mem_events (node_dag n)) \<and>
    recent_ok (mem_events (node_dag n)) (recentEvents (node_pool n)) \<and>
    anchors_ok (mem_events (node_dag n)) (lastBeaconRound (node_pool n))"
proof -
  have ok: "node_ok n" by (rule node_ts.run_inv [OF assms(4) node_New_ok [OF assms(1)]])
  note c = node_New_cfg [OF assms(1)] node_steps_cfg [OF assms(4)]
  then have "node_goroutines n = Done n" by (intro goroutines_start [OF _ assms(3)]) simp_all
  then have "\<forall>r. node_op L H n r \<longrightarrow> (\<exists>n'. r = Done n')" using node_op_ok [OF _ assms(2) ok] by blast
  moreover have "pool_ok mem_events (node_pool n)" using ok by (simp add: node_ok_def pool_live_def)
  ultimately show ?thesis by (simp add: pool_ok_def node_dag_def)
qed

definition sample_net :: "(string, string) libp2p" where
  "sample_net = \<lparr>lib_new = (\<lambda>_. Inr 7), new_multiaddr = Inr, addr_info = Inr, lib_connect = (\<lambda>_ _. None),
     lib_peers = (\<lambda>_. []), lib_close = (\<lambda>_. None)\<rparr>"

definition sample_node_cfg :: node_config where
  "sample_node_cfg = \<lparr>Net = \<lparr>Port = 0, Peer = []\<rparr>, BeaconURL = ''u'', BeaconInterval = 10 * Second,
     BeaconChainHash = [1], BeaconPublicKey = [2], BeaconGenesisTime = 1000, Cfg_EventRate = 5000,
     Cfg_AnchorInterval = 1, Cfg_SubEventComplex = Fin (3 / 10), Cfg_VerifyInterval = 5,
     EnableHashpool = True, HashpoolConfig = None\<rparr>"

text \<open>The node that \<open>New\<close> builds for the sample configuration.\<close>

definition sample_node :: "nat node" where
  "sample_node = (new_node 7 0 (\<lambda>_. sample_rng) sample_node_cfg)
     \<lparr>hashpoolAdapter := Some (sample_adapter\<lparr>a_running := True, a_hashpool := 1\<rparr>)\<rparr>"

lemma sample_node_New:
  "node_New sample_net sample_hp 0 (\<lambda>_. sample_rng) sample_node_cfg =
     Done (Inr sample_node, [OpenHost 7, StartBeacon, OpenPool, CreateHashpool])"
proof -
  have v: "ValidateConfig sample_node_cfg = None"
    by (simp add: ValidateConfig_def sample_node_cfg_def Second_def)
  have "NewNode sample_net (Net sample_node_cfg) = (Inr 7, [OpenHost 7])"
    by (simp add: NewNode_def sample_net_def sample_node_cfg_def)
  moreover have "NewBeacon (beacon_cfg_of sample_node_cfg) = Inr (newDrandBeacon (beacon_cfg_of sample_node_cfg))"
    by (simp add: NewBeacon_def beacon_cfg_of_def sample_node_cfg_def Second_def)
  ultimately have "node_New sample_net sample_hp 0 (\<lambda>_. sample_rng) sample_node_cfg =
      node_start_adapter sample_net sample_hp sample_node_cfg
        (new_node 7 0 (\<lambda>_. sample_rng) sample_node_cfg) [OpenHost 7, StartBeacon, OpenPool]"
    using node_New_cases [of sample_node_cfg sample_net sample_hp 0 "\<lambda>_. sample_rng"] v by auto
  moreover have "NewAdapter sample_hp True True (hashpool_cfg_of sample_node_cfg) = Inr sample_adapter"
    by (simp add: sample_adapter_eq NewAdapter_def sample_hp_def Let_def hashpool_cfg_of_def sample_node_cfg_def)
  moreover have "EnableHashpool sample_node_cfg" by (simp add: sample_node_cfg_def)
  moreover have "adapter_Start sample_hp sample_adapter = (None, sample_adapter\<lparr>a_running := True, a_hashpool := 1\<rparr>)"
    by (simp add: adapter_Start_def start_lock_def sample_adapter_eq sample_hp_def)
  ultimately show ?thesis by (simp add: node_start_adapter_def sample_node_def)
qed

lemma sample_node_step: "node_step b_lib sample_node (snd (node_Subscribe sample_node))"
  using n_subscribe [of b_lib sample_hp sample_node] b_lib_nonempty
  unfolding node_step_def by blast

theorem node_run_safe_witness:
  "\<exists>n'. node_beacon_tick (Inr (sample_round 3)) (snd (node_Subscribe sample_node)) = Done n' \<and>
     dag_wf (mem_events (node_dag (snd (node_Subscribe sample_node))))"
proof -
  have s: "(node_step b_lib)\<^sup>*\<^sup>* sample_node (snd (node_Subscribe sample_node))"
    using sample_node_step by (rule r_into_rtranclp)
  have "node_op b_lib sample_hp (snd (node_Subscribe sample_node))
     (node_beacon_tick (Inr (sample_round 3)) (snd (node_Subscribe sample_node)))" by (rule n_tick)
  moreover have "Cfg_VerifyInterval sample_node_cfg * Cfg_EventRate sample_node_cfg * Millisecond < 2 ^ 63"
    by (simp add: sample_node_cfg_def Millisecond_def)
  ultimately show ?thesis using node_run_safe [OF sample_node_New b_lib_nonempty _ s] by blast
qed

section \<open>Shutdown\<close>

lemma node_op_frame:
  "node_op L H n (Done n') \<Longrightarrow>
     network n' = network n \<and> (hashpoolAdapter n' = None \<longleftrightarrow> hashpoolAdapter n = None)"
  by (cases rule: node_op.cases, assumption)
    (auto simp: node_AddEvent_def node_Subscribe_def SubmitHash_def node_beacon_tick_def node_run_event_def
      node_goroutines_def Let_def Done_eq_exec_bind split: sum.splits option.splits prod.splits)

lemma node_steps_frame:
  "(node_step L)\<^sup>*\<^sup>* n0 n \<Longrightarrow>
     network n = network n0 \<and> (hashpoolAdapter n = None \<longleftrightarrow> hashpoolAdapter n0 = None)"
proof (induction rule: rtranclp_induct)
  case base
  then show ?case by simp
next
  case (step y z)
  then show ?case using node_op_frame unfolding node_step_def by metis
qed

lemma node_New_trace:
  assumes "node_New N H now_ns source c = Done (Inr n, tr)"
  shows "tr = [OpenHost (network n), StartBeacon, OpenPool] @
    (if hashpoolAdapter n = None then [] else [CreateHashpool])"
proof -
  from node_New_cases [of c N H now_ns source] assms obtain h where
    v: "ValidateConfig c = None" and s: "node_start_adapter N H c (new_node h now_ns source c)
      [OpenHost h, StartBeacon, OpenPool] = Done (Inr n, tr)" by auto
  have "hashpoolAdapter (new_node h now_ns source c) = None" by (simp add: new_node_def)
  from node_start_adapter_cases [OF new_node_ok [OF v] this, of c N H "[OpenHost h, StartBeacon, OpenPool]"] s
  show ?thesis by (auto simp: new_node_def)
qed

lemma pool_Close_once_live:
  assumes "pool_live p"
  shows "\<exists>p'. pool_Close_once p = Done p' \<and> done_closed p' \<and> chan_closed (errCh p') \<and> subscribers p' = [] \<and>
    (\<forall>s \<in> set (subscribers p). chan_closed (sub_chans p' s)) \<and> dag p' = dag p"
  using assms
  by (auto simp: pool_live_def pool_ok_def chans_open_def pool_Close_once_def pool_Close_def close_signal_def
      close_errors_def close_subscribers_def close_chan_def close_all_Done)

definition adapter_stopped :: "'h adapter option \<Rightarrow> bool" where
  "adapter_stopped ao \<longleftrightarrow> (\<forall>a. ao = Some a \<longrightarrow> \<not> a_running a \<and> chan_closed (a_errCh a))"

definition stop_errors ::
    "('a, 'i) libp2p \<Rightarrow> 'h hashpool_lib \<Rightarrow> 'h node \<Rightarrow> close_error list" where
  "stop_errors N H n =
     (case hashpoolAdapter n of
        None \<Rightarrow> []
      | Some a \<Rightarrow> (case fst (hp_stop H (a_hashpool a)) of None \<Rightarrow> [] | Some msg \<Rightarrow> [StopAdapterFailed msg])) @
     (case lib_close N (network n) of None \<Rightarrow> [] | Some msg \<Rightarrow> [CloseNetworkFailed msg])"

lemma node_stop_adapter_live:
  assumes "adapter_live ao"
  shows "\<exists>ao'. node_stop_adapter H ao = Done
      ((case ao of None \<Rightarrow> [] | Some a \<Rightarrow>
          (case fst (hp_stop H (a_hashpool a)) of None \<Rightarrow> [] | Some msg \<Rightarrow> [StopAdapterFailed msg])),
       ao', if ao = None then [] else [StopHashpool]) \<and>
    adapter_stopped ao' \<and> (ao' = None \<longleftrightarrow> ao = None)"
proof (cases ao)
  case None
  then show ?thesis by (simp add: node_stop_adapter_def adapter_stopped_def)
next
  case (Some a)
  then have a: "a_running a" "\<not> chan_closed (a_errCh a)" using assms by (simp_all add: adapter_live_def)
  obtain r h where h: "hp_stop H (a_hashpool a) = (r, h)" by fastforce
  with a Some show ?thesis
    by (simp add: node_stop_adapter_def adapter_Stop_def stop_lock_def stop_close_def close_chan_def adapter_stopped_def)
qed

lemma node_stop_adapter_again:
  "adapter_stopped ao \<Longrightarrow> node_stop_adapter H ao = Done ([], ao, [])"
  by (cases ao) (auto simp: adapter_stopped_def node_stop_adapter_def adapter_Stop_def stop_lock_def)

lemma beacon_Stop_running:
  assumes "beacon_inv b" and "b_running b"
  shows "\<exists>b'. beacon_Stop b = Done b' \<and> \<not> b_running b' \<and> b_subscribers b' = [] \<and>
    (\<forall>c \<in> set (b_subscribers b). chan_closed (b_chans b' c))"
  using beacon_Stop_Done [OF assms(1)] assms(2) by simp

text \<open>\<open>Close\<close> of a node in a state it can be in, and a second \<open>Close\<close> of the result.\<close>

definition closed_from :: "'h node \<Rightarrow> 'h node \<Rightarrow> bool" where
  "closed_from n n' \<longleftrightarrow> network n' = network n \<and> adapter_stopped (hashpoolAdapter n') \<and>
     done_closed (node_pool n') \<and> chan_closed (errCh (node_pool n')) \<and> \<not> b_running (beacon n') \<and>
     (\<forall>s \<in> set (subscribers (node_pool n)). chan_closed (sub_chans (node_pool n') s)) \<and>
     (\<forall>s \<in> set (b_subscribers (beacon n)). chan_closed (b_chans (beacon n') s)) \<and> node_dag n' = node_dag n"

definition close_actions :: "'h node \<Rightarrow> action list" where
  "close_actions n = (if hashpoolAdapter n = None then [] else [StopHashpool]) @
     [ClosePool, StopBeacon, CloseHost (network n)]"

lemma node_Close_ok:
  assumes "node_ok n"
  shows "\<exists>n'. node_Close N H n = Done (stop_errors N H n, n', close_actions n) \<and> closed_from n n'"
proof -
  obtain ao where ao: "node_stop_adapter H (hashpoolAdapter n) = Done
      ((case hashpoolAdapter n of None \<Rightarrow> [] | Some a \<Rightarrow>
          (case fst (hp_stop H (a_hashpool a)) of None \<Rightarrow> [] | Some msg \<Rightarrow> [StopAdapterFailed msg])),
       ao, if hashpoolAdapter n = None then [] else [StopHashpool])" "adapter_stopped ao"
    using node_stop_adapter_live [of "hashpoolAdapter n" H] assms unfolding node_ok_def by blast
  obtain p where p: "pool_Close_once (node_pool n) = Done p" "done_closed p" "chan_closed (errCh p)"
    "\<forall>s \<in> set (subscribers (node_pool n)). chan_closed (sub_chans p s)" "dag p = dag (node_pool n)"
    using pool_Close_once_live [of "node_pool n"] assms unfolding node_ok_def by blast
  obtain b where b: "beacon_Stop (beacon n) = Done b" "\<not> b_running b"
    "\<forall>s \<in> set (b_subscribers (beacon n)). chan_closed (b_chans b s)"
    using beacon_Stop_running [of "beacon n"] assms unfolding node_ok_def by blast
  let ?n = "n\<lparr>hashpoolAdapter := ao, node_pool := p, beacon := b\<rparr>"
  have "node_Close N H n = Done (stop_errors N H n, ?n, close_actions n)"
    by (simp add: node_Close_def ao(1) p(1) b(1) stop_errors_def net_Close_def close_actions_def)
  moreover have "closed_from n ?n" using ao(2) p b by (simp add: closed_from_def node_dag_def)
  ultimately show ?thesis by blast
qed

lemma node_Close_again:
  assumes "closed_from n n'"
  shows "\<exists>errs. node_Close N H n' = Done (errs, n', [ClosePool, StopBeacon, CloseHost (network n)])"
proof -
  have "node_stop_adapter H (hashpoolAdapter n') = Done ([], hashpoolAdapter n', [])"
    using assms by (intro node_stop_adapter_again) (simp add: closed_from_def)
  with assms show ?thesis by (simp add: node_Close_def pool_Close_once_def beacon_Stop_def closed_from_def)
qed

lemma left_open_closed:
  assumes "node_New N H now_ns source c = Done (Inr n0, tr)" and "(node_step L)\<^sup>*\<^sup>* n0 n"
  shows "left_open (tr @ close_actions n) = {}"
  using node_New_trace [OF assms(1)] node_steps_frame [OF assms(2)] by (auto simp: left_open_def close_actions_def)

text \<open>C34: \<open>Close\<close> of a running node reaches every component, in the order hashpool adapter, pool,
  beacon, network, whatever the others return, and reports exactly the errors of the adapter and the
  network; it never panics. Nothing is left open, every channel the node has handed out to
  subscribers or errors is closed, the graph is unchanged, and \<open>AddEvent\<close> is refused. A second
  \<open>Close\<close> changes nothing.\<close>

theorem node_Close_complete:
  assumes "node_New N H now_ns source c = Done (Inr n0, tr)" and "(node_step L)\<^sup>*\<^sup>* n0 n"
  shows "\<exists>n'. node_Close N H n = Done (stop_errors N H n, n', close_actions n) \<and>
    left_open (tr @ close_actions n) = {} \<and> closed_from n n' \<and>
    node_AddEvent L br ctx d ps n' = Some (Inl ErrPoolClosed, n') \<and>
    (\<exists>errs tr'. node_Close N H n' = Done (errs, n', tr'))"
proof -
  have ok: "node_ok n" by (rule node_ts.run_inv [OF assms(2) node_New_ok [OF assms(1)]])
  obtain n' where 1: "node_Close N H n = Done (stop_errors N H n, n', close_actions n)" "closed_from n n'"
    using node_Close_ok [OF ok] by blast
  moreover have "node_AddEvent L br ctx d ps n' = Some (Inl ErrPoolClosed, n')"
    using 1(2) by (simp add: closed_from_def node_AddEvent_def pool_AddEvent_begin_def)
  ultimately show ?thesis using left_open_closed [OF assms] node_Close_again [OF 1(2)] by blast
qed

theorem node_Close_complete_witness:
  "\<exists>n'. node_Close sample_net sample_hp (snd (node_Subscribe sample_node)) =
       Done ([], n', [StopHashpool, ClosePool, StopBeacon, CloseHost 7]) \<and> chan_closed (errCh (node_pool n'))"
proof -
  let ?n = "snd (node_Subscribe sample_node)"
  have s: "(node_step b_lib)\<^sup>*\<^sup>* sample_node ?n"
    using sample_node_step by (rule r_into_rtranclp)
  have "stop_errors sample_net sample_hp ?n = []"
    by (simp add: stop_errors_def sample_hp_def sample_net_def split: option.splits)
  moreover have "close_actions ?n = [StopHashpool, ClosePool, StopBeacon, CloseHost 7]"
    by (simp add: close_actions_def node_Subscribe_def sample_node_def new_node_def split: prod.splits)
  ultimately show ?thesis
    using node_Close_complete [OF sample_node_New s, of CaseSend None "[]" "[]"] unfolding closed_from_def by auto
qed

section \<open>From the beacon to an event\<close>

lemma anchor_event_from_channel:
  assumes "buf (beaconCh p) = r # rs" and "validateBeaconRound now (Some r) = None"
    and "lastBeaconRound p < Number r" and "AnchorInterval (cfg p) \<le> wrap64 (eventCount p + 1)"
  shows "anchor_event anchor now fetched i p = Done (p\<lparr>beaconCh := (beaconCh p)\<lparr>buf := rs\<rparr>,
    dag := anchor i (anchor_of r) (dag p), lastBeaconRound := Number r, eventCount := 0\<rparr>)"
  using assms by (simp add: anchor_event_def ensureBeaconRound_def try_recv_def anchor_of_def Let_def)

lemma mem_run_from_channel:
  assumes "pool_ok mem_events p" and "cid_nonempty L" and "fresh_event e" and "addable (mem_events (dag p)) e"
    and "buf (beaconCh p) = r # rs" and "validateBeaconRound now (Some r) = None"
    and "lastBeaconRound p < Number r" and "AnchorInterval (cfg p) \<le> wrap64 (eventCount p + 1)"
  shows "\<exists>p' x. mem_run L now fetched e p = Done p' \<and> mem_events (dag p') (ID e) = Some x \<and> same_refs e x \<and>
    Beacon x = Some (anchor_of r) \<and> lastBeaconRound p' = Number r \<and> eventCount p' = 0 \<and>
    buf (beaconCh p') = rs"
proof -
  obtain d where a: "mem_add e (dag p) = (None, d)" using mem_add_addable [OF assms(4)] by blast
  from mem.run_event_reaches_anchor [OF assms(1-3) a] obtain q where
    q: "mem_run L now fetched e p = anchor_event memory_SetBeacon now fetched (ID e) q"
    and g: "good_step mem_events sub_error p q"
    and x: "\<exists>x. mem_events (dag q) (ID e) = Some x \<and> same_refs e x \<and> Beacon x = None" by blast
  obtain x where x: "mem_events (dag q) (ID e) = Some x" "same_refs e x" using x by blast
  have f: "cfg q = cfg p" "lastBeaconRound q = lastBeaconRound p" "eventCount q = eventCount p"
    "beaconCh q = beaconCh p" using g by (simp_all add: good_step_def pool_ext_def)
  let ?p = "q\<lparr>beaconCh := (beaconCh q)\<lparr>buf := rs\<rparr>,
    dag := memory_SetBeacon (ID e) (anchor_of r) (dag q), lastBeaconRound := Number r, eventCount := 0\<rparr>"
  have "mem_run L now fetched e p = Done ?p"
    unfolding q using assms(5-8) f by (intro anchor_event_from_channel) simp_all
  moreover have "mem_events (dag ?p) (ID e) = Some (x\<lparr>Beacon := Some (anchor_of r)\<rparr>)"
    using x(1) by (simp add: mem.lookup_write set_beacon_def)
  moreover have "same_refs e (x\<lparr>Beacon := Some (anchor_of r)\<rparr>)" using x(2) by (simp add: same_refs_def)
  ultimately show ?thesis by (intro exI [of _ ?p] exI [of _ "x\<lparr>Beacon := Some (anchor_of r)\<rparr>"]) simp
qed

text \<open>C32: the way of a round through the node: if the pool has read every earlier round, a valid round
  newer than the last one used that the beacon fetches reaches, through the pool's subscription, the
  next event the store accepts once the anchor interval is due: that event carries exactly this
  round, whatever sub-events are created on the way and whatever a direct fetch would return.\<close>

theorem node_round_reaches_event:
  assumes "node_New N H now_ns source c = Done (Inr n0, tr)" and L: "cid_nonempty L"
    and "(node_step L)\<^sup>*\<^sup>* n0 n"
    and "buf (b_chans (beacon n) (beacon_sub n)) = []" and "validateBeaconRound now (Some r) = None"
    and "lastBeaconRound (node_pool n) < Number r"
    and "AnchorInterval (cfg (node_pool n)) \<le> wrap64 (eventCount (node_pool n) + 1)"
    and t: "try_recv (eventCh (node_pool n)) = (Some (Some e), ch)" and "addable (mem_events (node_dag n)) e"
  shows "\<exists>n1 n2 x. node_beacon_tick (Inr r) n = Done n1 \<and>
    node_run_event L now fetched e (n1\<lparr>node_pool := (node_pool n1)\<lparr>eventCh := ch\<rparr>\<rparr>) = Done n2 \<and>
    mem_events (node_dag n2) (ID e) = Some x \<and> same_refs e x \<and> Beacon x = Some (anchor_of r) \<and>
    lastBeaconRound (node_pool n2) = Number r \<and> eventCount (node_pool n2) = 0"
proof -
  have ok: "node_ok n" by (rule node_ts.run_inv [OF assms(3) node_New_ok [OF assms(1)]])
  then have inv: "beacon_inv (beacon n)" and sub: "beacon_sub n \<in> set (b_subscribers (beacon n))"
    and live: "pool_live (node_pool n)" by (simp_all add: node_ok_def)
  obtain b where b: "beacon_tick (Inr r) (beacon n) = Done b" "buf (b_chans b (beacon_sub n)) = [r]"
    using beacon_tick_inv_Done [OF inv, of r] sub assms(4) by auto
  let ?n1 = "n\<lparr>beacon := b\<rparr>"
  let ?p = "(node_pool n)\<lparr>eventCh := ch, beaconCh := b_chans b (beacon_sub n)\<rparr>"
  have fe: "fresh_event e"
    using live t by (auto simp: pool_live_def try_recv_def split: list.splits if_splits)
  have okp: "pool_ok mem_events ?p" using live by (simp add: pool_live_def pool_ok_chan)
  obtain p' x where p': "mem_run L now fetched e ?p = Done p'" "mem_events (dag p') (ID e) = Some x"
    "same_refs e x" "Beacon x = Some (anchor_of r)" "lastBeaconRound p' = Number r" "eventCount p' = 0"
    using mem_run_from_channel [OF okp L fe _ _ assms(5), of "[]" fetched] b(2) assms(6,7,9)
    by (auto simp: node_dag_def)
  have "node_beacon_tick (Inr r) n = Done ?n1" using b(1) by (simp add: node_beacon_tick_def)
  moreover have "\<exists>n2. node_run_event L now fetched e (?n1\<lparr>node_pool := (node_pool ?n1)\<lparr>eventCh := ch\<rparr>\<rparr>) = Done n2 \<and>
      node_pool n2 = p'"
    using p'(1) by (simp add: node_run_event_def Let_def)
  ultimately show ?thesis using p' unfolding node_dag_def by blast
qed

lemma sample_node_pool: "node_pool sample_node = (sample_pool NewMemoryDAG)
    \<lparr>cfg := pool_cfg_of sample_node_cfg, beaconCh := make_chan 1\<rparr>"
proof -
  have "check_pool_config (pool_cfg_of sample_node_cfg) = None"
    by (rule ValidateConfig_pool) (simp add: ValidateConfig_def sample_node_cfg_def Second_def)
  then show ?thesis
    by (simp add: sample_node_def new_node_def new_pool_def NewPool_def sample_pool_eq)
qed

theorem node_round_reaches_event_witness:
  "\<exists>e n n1 n2 x. node_AddEvent b_lib CaseSend None [1] [] sample_node = Some (Inr (ID e), n) \<and>
     node_beacon_tick (Inr (sample_round 3)) n = Done n1 \<and>
     node_run_event b_lib (time_Unix 1000) (Inl (ErrFetch [])) e
       (n1\<lparr>node_pool := (node_pool n1)\<lparr>eventCh := make_chan 100\<rparr>\<rparr>) = Done n2 \<and>
     mem_events (node_dag n2) (ID e) = Some x \<and> Beacon x = Some (anchor_of (sample_round 3))"
proof -
  obtain e where e: "computeEventCID b_lib (main_event [1] []) = Inr e"
    by (simp add: computeEventCID_def ComputeCID_def b_lib_def)
  let ?p = "(node_pool sample_node)\<lparr>eventCh := (make_chan 100)\<lparr>buf := [e]\<rparr>\<rparr>"
  let ?n = "sample_node\<lparr>node_pool := ?p\<rparr>"
  have add: "node_AddEvent b_lib CaseSend None [1] [] sample_node = Some (Inr (ID e), ?n)"
    by (simp add: node_AddEvent_def pool_AddEvent_begin_def e pool_AddEvent_select_def try_send_def
        sample_node_pool sample_pool_eq make_chan_def)
  have s: "(node_step b_lib)\<^sup>*\<^sup>* sample_node ?n"
    using n_add [OF add, of sample_hp] b_lib_nonempty
    unfolding node_step_def by blast
  have fe: "e = (main_event [1] [])\<lparr>ID := ID e\<rparr>" "ID e \<noteq> []"
    using computeEventCID_fresh [OF e b_lib_nonempty] by simp_all
  have ad: "addable (mem_events (node_dag ?n)) e"
    by (subst fe(1)) (use fe(2) in \<open>simp add: addable_def node_dag_def sample_node_pool sample_pool_eq
        NewMemoryDAG_def refs_def main_event_def\<close>)
  have b: "buf (b_chans (beacon ?n) (beacon_sub ?n)) = []"
    using new_beacon_inv [of sample_node_cfg] by (simp add: sample_node_def new_node_def)
  have t: "try_recv (eventCh (node_pool ?n)) = (Some (Some e), make_chan 100)"
    by (simp add: try_recv_def make_chan_def)
  have r: "lastBeaconRound (node_pool ?n) < Number (sample_round 3)"
    "AnchorInterval (cfg (node_pool ?n)) \<le> wrap64 (eventCount (node_pool ?n) + 1)"
    by (simp_all add: sample_node_pool sample_pool_eq sample_round_fields pool_cfg_of_def sample_node_cfg_def int64_def)
  have v: "validateBeaconRound (time_Unix 1000) (Some (sample_round 3)) = None"
    by (rule sample_round_accepted) simp
  obtain n1 n2 x where "node_beacon_tick (Inr (sample_round 3)) ?n = Done n1"
    "node_run_event b_lib (time_Unix 1000) (Inl (ErrFetch [])) e
       (n1\<lparr>node_pool := (node_pool n1)\<lparr>eventCh := make_chan 100\<rparr>\<rparr>) = Done n2"
    "mem_events (node_dag n2) (ID e) = Some x" "Beacon x = Some (anchor_of (sample_round 3))"
    using node_round_reaches_event [OF sample_node_New b_lib_nonempty s b v r t ad, of "Inl (ErrFetch [])"] by blast
  with add show ?thesis by (intro exI [of _ e] exI [of _ ?n] exI [of _ n1] exI [of _ n2] exI [of _ x]) simp
qed

section \<open>The configured interval as the period of the chain\<close>

text \<open>C35: the node passes its fetch interval as the beacon's period, from which the timestamps of
  rounds are computed. For a chain that really emits a round every \<open>T\<close> seconds, a complete round
  taken at the very moment it is emitted is accepted exactly when \<open>(T - interval) * (n - 1)\<close> is at
  most an hour: with an interval below the chain's period every current round is refused after some
  number of rounds, and with one above it, old rounds are accepted for longer than an hour.\<close>

theorem interval_as_period:
  assumes "BeaconInterval c = i * Second" and "0 < i" and "i \<le> 3600" and "0 < T" and "T \<le> 3600"
    and "0 \<le> BeaconGenesisTime c" and "BeaconGenesisTime c < 2 ^ 40"
    and "0 < unat n" and "unat n \<le> 2 ^ 20"
    and "Number r = n" and "Randomness r \<noteq> []" and "Signature r \<noteq> []"
    and "Timestamp r = roundTimestamp (beacon_cfg_of c) n"
  shows "validateBeaconRound (time_Unix (BeaconGenesisTime c + T * (int (unat n) - 1))) (Some r) = None \<longleftrightarrow>
    (T - i) * (int (unat n) - 1) \<le> 3600"
proof -
  define k g x y where "k = int (unat n) - 1" and "g = BeaconGenesisTime c" and "x = k * i" and "y = T * k"
  from assms(9) have "int (unat n) \<le> int (2 ^ 20)" by (simp only: of_nat_le_iff)
  then have un: "int (unat n) \<le> 2 ^ 20" by (simp only: of_nat_power of_nat_numeral)
  have k: "0 \<le> k" "k < 2 ^ 20" using assms(8) un by (simp_all only: k_def)
  have x: "0 \<le> x" "x \<le> 2 ^ 20 * 3600" and y: "0 \<le> y" "y \<le> 3600 * 2 ^ 20"
    using k assms(2-5) unfolding x_def y_def by (auto intro!: mult_mono simp del: power_numeral)
  have g: "0 \<le> g" "g < 2 ^ 40" using assms(6,7) by (simp_all add: g_def)
  have kx: "k * (i * Second) = x * Second" by (simp add: x_def)
  have cfg: "GenesisTime (beacon_cfg_of c) = g" "Period (beacon_cfg_of c) = i * Second"
    using assms(1) by (simp_all add: beacon_cfg_of_def g_def)
  have "int64 (x * Second)" using x by (simp add: int64_def Second_def)
  moreover have "unat n \<le> 2 ^ 63" using assms(9) by simp
  ultimately have ts: "time_ns (Timestamp r) = (g + unixToInternal) * Second + x * Second"
    "0 \<le> t_nsec (Timestamp r)" "t_nsec (Timestamp r) < Second"
    using g assms(8) roundTimestamp_exact [of "beacon_cfg_of c" n]
    unfolding cfg assms(13) k_def [symmetric] kx by simp_all
  have now: "time_ok (time_Unix (g + y))" "time_ns (time_Unix (g + y)) = (g + y + unixToInternal) * Second"
    using time_Unix_exact [of "g + y"] g y by simp_all
  have "t_sec (Timestamp r) = g + unixToInternal + x"
    using ts by (simp add: time_ns_def Second_def)
  then have "time_ok (Timestamp r)"
    using ts(2,3) g x by (simp add: time_ok_def unixToInternal_def)
  moreover have d: "time_ns (time_Unix (g + y)) - time_ns (Timestamp r) = (y - x) * Second"
    using ts(1) now(2) by (simp add: algebra_simps)
  moreover have "int64 ((y - x) * Second)" using x y by (simp add: int64_def Second_def)
  ultimately have sub: "time_Sub (time_Unix (g + y)) (Timestamp r) = (y - x) * Second"
    using time_Sub_exact [OF now(1)] by simp
  have e: "(T - i) * k = y - x" by (simp add: x_def y_def algebra_simps)
  have "n \<noteq> 0" using assms(8) by auto
  then show ?thesis using assms(10-12) sub
    unfolding k_def [symmetric] g_def [symmetric] y_def [symmetric] e
    by (simp add: validateBeaconRound_def Let_def Hour_def Second_def)
qed

text \<open>With the default interval of 10 seconds and drand's period of 30, round 182 is the first
  refused.\<close>

theorem interval_as_period_witness:
  "validateBeaconRound (time_Unix (1000 + 30 * 180)) (Some ((sample_round 181)\<lparr>Timestamp :=
      roundTimestamp (beacon_cfg_of sample_node_cfg) 181\<rparr>)) = None \<and>
   validateBeaconRound (time_Unix (1000 + 30 * 181)) (Some ((sample_round 182)\<lparr>Timestamp :=
      roundTimestamp (beacon_cfg_of sample_node_cfg) 182\<rparr>)) \<noteq> None"
proof -
  let ?r = "\<lambda>n. (sample_round n)\<lparr>Timestamp := roundTimestamp (beacon_cfg_of sample_node_cfg) n\<rparr>"
  have c: "BeaconInterval sample_node_cfg = 10 * Second" "BeaconGenesisTime sample_node_cfg = 1000"
    by (simp_all add: sample_node_cfg_def)
  have "validateBeaconRound (time_Unix (1000 + 30 * (int (unat n) - 1))) (Some (?r n)) = None \<longleftrightarrow>
      (30 - 10) * (int (unat n) - 1) \<le> 3600" if "0 < unat n" "unat n \<le> 2 ^ 20" for n
    using interval_as_period [OF c(1), of 30 n "?r n"] that c(2) by (simp add: sample_round_fields)
  from this [of 181] this [of 182] show ?thesis by simp
qed

section \<open>An added event can be retrieved\<close>

lemma mem_run_keeps:
  assumes "pool_ok mem_events p" and "cid_nonempty L" and "fresh_event e" and "addable (mem_events (dag p)) e"
  shows "\<exists>p'. mem_run L now fetched e p = Done p' \<and>
    (\<exists>x. mem_events (dag p') (ID e) = Some x \<and> same_refs e x) \<and>
    (\<forall>i y. mem_events (dag p) i = Some y \<longrightarrow> (\<exists>z. mem_events (dag p') i = Some z \<and> same_refs y z))"
proof -
  obtain d where a: "mem_add e (dag p) = (None, d)" using mem_add_addable [OF assms(4)] by blast
  obtain q p' where r: "mem_run L now fetched e p = Done p'" and g: "good_step mem_events sub_error p q"
    and x: "\<exists>x. mem_events (dag q) (ID e) = Some x \<and> same_refs e x \<and> Beacon x = None"
    and an: "not_anchored mem_events q p' \<or> (\<exists>r. anchored mem_events now (ID e) r q p')"
    using mem.run_event_accepted [OF assms(1-3) a] by blast
  have later: "\<exists>z. mem_events (dag p') i = Some z \<and> same_refs y z" if "mem_events (dag q) i = Some y" for i y
    using an that by (auto simp: not_anchored_def anchored_def set_beacon_def same_refs_def split: option.splits)
  have trans: "same_refs u v \<Longrightarrow> same_refs v w \<Longrightarrow> same_refs u w" for u v w by (simp add: same_refs_def)
  have "\<exists>z. mem_events (dag q) i = Some z \<and> same_refs y z" if "mem_events (dag p) i = Some y" for i y
    using g that unfolding good_step_def pool_ext_def by blast
  with r x later trans show ?thesis by meson
qed

text \<open>C29: adding and retrieving: once \<open>AddEvent\<close> of a running node with an empty queue has returned an
  ID, the run loop finds the event, and after it has processed it, \<open>GetEvent\<close> of that ID returns a
  main event with exactly the data and the parents given, whose content identifier is the ID, if the
  parents are stored and the ID is new; every event stored before is still returned with its content.\<close>

theorem node_add_then_get:
  assumes "node_New N H now_ns source c = Done (Inr n0, tr)" and L: "cid_nonempty L"
    and "(node_step L)\<^sup>*\<^sup>* n0 n" and "buf (eventCh (node_pool n)) = []"
    and add: "node_AddEvent L CaseSend ctx data parents n = Some (Inr i, n1)"
    and "set parents \<subseteq> dom (mem_events (node_dag n))" and "i \<notin> dom (mem_events (node_dag n))"
  shows "\<exists>e ch n2 x. try_recv (eventCh (node_pool n1)) = (Some (Some e), ch) \<and>
    node_run_event L now fetched e (n1\<lparr>node_pool := (node_pool n1)\<lparr>eventCh := ch\<rparr>\<rparr>) = Done n2 \<and>
    node_GetEvent i n2 = Inr x \<and> Type x = MainEvent \<and> Data x = data \<and> Parents x = parents \<and>
    ComputeCID L (Some x) = Inr i \<and>
    (\<forall>j y. node_GetEvent j n = Inr y \<longrightarrow> (\<exists>z. node_GetEvent j n2 = Inr z \<and> same_refs y z))"
proof -
  have ok: "node_ok n" by (rule node_ts.run_inv [OF assms(3) node_New_ok [OF assms(1)]])
  then have live: "pool_live (node_pool n)" by (simp add: node_ok_def)
  obtain e ch0 where e: "pool_AddEvent_begin L data parents (node_pool n) = Inr e" "ID e = i"
    and s: "try_send e (eventCh (node_pool n)) = Done (True, ch0)"
    and n1: "n1 = n\<lparr>node_pool := (node_pool n)\<lparr>eventCh := ch0\<rparr>\<rparr>"
    using add by (auto simp: node_AddEvent_def pool_AddEvent_select_def split: sum.splits option.splits exec.splits bool.splits)
  have c: "computeEventCID L (main_event data parents) = Inr e"
    using e(1) by (auto simp: pool_AddEvent_begin_def split: if_splits sum.splits)
  note fe = computeEventCID_fresh [OF c L] and fresh = pool_live_begin [OF e(1) L]
  have me: "Type e = MainEvent" "Data e = data" "Parents e = parents" "ParentID e = []"
    by (subst fe(2), simp add: main_event_def)+
  have cid: "ComputeCID L (Some x) = Inr i" if x: "same_refs e x" for x
  proof -
    have "serializeEventContent x = serializeEventContent (main_event data parents)"
      using x me by (simp add: same_refs_def serializeEventContent_def main_event_def)
    with c e(2) show ?thesis
      by (auto simp: computeEventCID_def ComputeCID_def split: sum.splits)
  qed
  let ?ch = "ch0\<lparr>buf := []\<rparr>"
  have t: "try_recv (eventCh (node_pool n1)) = (Some (Some e), ?ch)"
    using try_send_Done [OF s] assms(4) by (simp add: n1 try_recv_def)
  let ?p = "(node_pool n)\<lparr>eventCh := ?ch, beaconCh := b_chans (beacon n) (beacon_sub n)\<rparr>"
  have "pool_ok mem_events ?p" using live by (simp add: pool_live_def pool_ok_chan)
  moreover have "addable (mem_events (dag ?p)) e"
    using fe(1) me e(2) assms(6,7) by (simp add: addable_def refs_def node_dag_def MainEvent_def SubEvent_def)
  ultimately obtain p' x where p': "mem_run L now fetched e ?p = Done p'" "mem_events (dag p') i = Some x" "same_refs e x"
    "\<forall>j y. mem_events (dag ?p) j = Some y \<longrightarrow> (\<exists>z. mem_events (dag p') j = Some z \<and> same_refs y z)"
    using mem_run_keeps [OF _ L fresh] e(2) by blast
  obtain n2 where n2: "node_run_event L now fetched e (n1\<lparr>node_pool := (node_pool n1)\<lparr>eventCh := ?ch\<rparr>\<rparr>) = Done n2"
    "node_pool n2 = p'"
    using p'(1) by (simp add: node_run_event_def Let_def n1)
  have "node_GetEvent i n2 = Inr x"
    using p'(2) fe(1) e(2) n2(2) by (simp add: node_GetEvent_def memory_GetEvent_def node_dag_def)
  moreover have "Type x = MainEvent \<and> Data x = data \<and> Parents x = parents"
    using p'(3) me by (simp add: same_refs_def)
  moreover have "\<exists>z. node_GetEvent j n2 = Inr z \<and> same_refs y z" if "node_GetEvent j n = Inr y" for j y
    using that p'(4) n2(2)
    by (fastforce simp: node_GetEvent_def memory_GetEvent_def node_dag_def split: if_splits option.splits)
  ultimately show ?thesis using t n2(1) cid [OF p'(3)] by blast
qed

theorem node_add_then_get_witness:
  "\<exists>i n1 e n2 x. node_AddEvent b_lib CaseSend None [1] [] sample_node = Some (Inr i, n1) \<and>
     node_run_event b_lib (time_Unix 1000) (Inl (ErrFetch [])) e
       (n1\<lparr>node_pool := (node_pool n1)\<lparr>eventCh := make_chan 100\<rparr>\<rparr>) = Done n2 \<and>
     node_GetEvent i n2 = Inr x \<and> Data x = [1]"
proof -
  obtain e where e: "computeEventCID b_lib (main_event [1] []) = Inr e"
    by (simp add: computeEventCID_def ComputeCID_def b_lib_def)
  let ?n1 = "sample_node\<lparr>node_pool := (node_pool sample_node)\<lparr>eventCh := (make_chan 100)\<lparr>buf := [e]\<rparr>\<rparr>\<rparr>"
  have add: "node_AddEvent b_lib CaseSend None [1] [] sample_node = Some (Inr (ID e), ?n1)"
    by (simp add: node_AddEvent_def pool_AddEvent_begin_def e pool_AddEvent_select_def try_send_def
        sample_node_pool sample_pool_eq make_chan_def)
  have "buf (eventCh (node_pool sample_node)) = []" "set [] \<subseteq> dom (mem_events (node_dag sample_node))"
    "ID e \<notin> dom (mem_events (node_dag sample_node))"
    by (simp_all add: sample_node_pool sample_pool_eq node_dag_def NewMemoryDAG_def)
  from node_add_then_get [OF sample_node_New b_lib_nonempty rtranclp.rtrancl_refl this(1) add this(2,3),
      of "time_Unix 1000" "Inl (ErrFetch [])"]
  obtain e' ch n2 x where t: "try_recv (eventCh (node_pool ?n1)) = (Some (Some e'), ch)"
    and r: "node_run_event b_lib (time_Unix 1000) (Inl (ErrFetch [])) e' (?n1\<lparr>node_pool := (node_pool ?n1)\<lparr>eventCh := ch\<rparr>\<rparr>) = Done n2"
    and x: "node_GetEvent (ID e) n2 = Inr x" "Data x = [1]" by blast
  from t have "ch = make_chan 100" by (simp add: try_recv_def make_chan_def)
  with add r x show ?thesis by blast
qed

end
