(* ===== verification/EventTyping.thy ===== *)
theory EventTyping
  imports NodeProps
begin

text \<open>
  A type discipline of events. That a main event has no \<open>ParentID\<close> and a sub-event names a main event is
  what \<open>src/dag/dag.go\<close> says at the fields of \<open>Event\<close>; that only main events are anchored is how the run
  loop of \<open>src/pool/pool.go\<close> behaves, where the README promises that an event at any level can be
  anchored. Stores do not enforce the discipline; it is shown here for what the pool puts into any store,
  and for every state a node gets into.
\<close>

section \<open>Typed stores\<close>

definition main_ids :: "event_map \<Rightarrow> string set" where
  "main_ids m = {i. \<exists>e. m i = Some e \<and> Type e = MainEvent}"

definition typed_in :: "event_map \<Rightarrow> event \<Rightarrow> bool" where
  "typed_in m e \<longleftrightarrow> (Type e = MainEvent \<and> ParentID e = []) \<or>
     (Type e = SubEvent \<and> ParentID e \<in> main_ids m \<and> Beacon e = None)"

definition well_typed :: "event_map \<Rightarrow> bool" where
  "well_typed m \<longleftrightarrow> (\<forall>i e. m i = Some e \<longrightarrow> typed_in m e)"

definition main_typed :: "event \<Rightarrow> bool" where
  "main_typed e \<longleftrightarrow> ID e \<noteq> [] \<and> Type e = MainEvent \<and> ParentID e = []"

text \<open>What steps do to a typed store: it stays typed and keeps its main events.\<close>

definition typed_step :: "event_map \<Rightarrow> event_map \<Rightarrow> bool" where
  "typed_step m m' \<longleftrightarrow> (well_typed m \<longrightarrow> well_typed m') \<and> main_ids m \<subseteq> main_ids m'"

lemma typed_step_refl [simp]: "typed_step m m"
  by (simp add: typed_step_def)

lemma typed_step_trans: "typed_step a b \<Longrightarrow> typed_step b c \<Longrightarrow> typed_step a c"
  by (auto simp: typed_step_def)

lemma typed_step_wt: "typed_step m m' \<Longrightarrow> well_typed m \<Longrightarrow> well_typed m'"
  by (simp add: typed_step_def)

lemma typed_in_mono: "main_ids m \<subseteq> main_ids m' \<Longrightarrow> typed_in m e \<Longrightarrow> typed_in m' e"
  by (auto simp: typed_in_def)

lemma typed_in_same: "same_refs a b \<Longrightarrow> Beacon b = Beacon a \<Longrightarrow> typed_in m a \<Longrightarrow> typed_in m b"
  by (simp add: same_refs_def typed_in_def)

lemma main_ids_same:
  assumes "same_graph m m'" shows "main_ids m' = main_ids m"
proof -
  have "main_ids a \<subseteq> main_ids b" if "same_graph a b" for a b
  proof
    fix i assume "i \<in> main_ids a"
    then obtain e where e: "a i = Some e" "Type e = MainEvent" by (auto simp: main_ids_def)
    from same_graphD [OF that e(1)] obtain e' where "b i = Some e'" "same_refs e e'" .
    with e(2) show "i \<in> main_ids b" by (simp add: main_ids_def same_refs_def)
  qed
  from this [OF assms] this [OF same_graph_sym [OF assms]] show ?thesis by blast
qed

lemma typed_step_same:
  assumes "same_graph m m'" and "\<And>i x y. m i = Some x \<Longrightarrow> m' i = Some y \<Longrightarrow> Beacon y = Beacon x"
  shows "typed_step m m'"
proof -
  note mains = main_ids_same [OF assms(1)]
  have "typed_in m' y" if w: "well_typed m" and y: "m' i = Some y" for i y
  proof -
    from same_graphD [OF same_graph_sym [OF assms(1)] y] obtain x where x: "m i = Some x" "same_refs y x" .
    with w have "typed_in m x" by (simp add: well_typed_def)
    with typed_in_same [OF same_refs_sym [OF x(2)] assms(2) [OF x(1) y]] mains show ?thesis
      by (simp add: typed_in_def)
  qed
  then show ?thesis using mains by (simp add: typed_step_def well_typed_def)
qed

text \<open>Inserting a typed event under a new ID; anchoring a main event.\<close>

lemma typed_step_insert:
  assumes "typed_in m e" and "i \<notin> dom m"
  shows "typed_step m (m(i \<mapsto> e))"
proof -
  have "main_ids m \<subseteq> main_ids (m(i \<mapsto> e))" using assms(2) by (auto simp: main_ids_def)
  with assms(1) typed_in_mono [OF this] show ?thesis by (auto simp: typed_step_def well_typed_def)
qed

lemma typed_step_anchor:
  assumes "i \<in> main_ids m" shows "typed_step m (set_beacon i a m)"
proof -
  obtain e where e: "m i = Some e" "Type e = MainEvent" using assms by (auto simp: main_ids_def)
  have mains: "main_ids (set_beacon i a m) = main_ids m" by (rule main_ids_same [OF set_beacon_same_graph])
  have "typed_in (set_beacon i a m) y" if w: "well_typed m" and y: "set_beacon i a m j = Some y" for j y
  proof (cases "j = i")
    case True
    have "typed_in m e" using w e by (simp add: well_typed_def)
    moreover have "y = e\<lparr>Beacon := Some a\<rparr>" using y e True by (simp add: set_beacon_def)
    ultimately show ?thesis using e(2) by (simp add: typed_in_def)
  next
    case False
    with y e have "m j = Some y" by (simp add: set_beacon_def)
    with w mains show ?thesis by (simp add: well_typed_def typed_in_def)
  qed
  then show ?thesis using mains by (simp add: typed_step_def well_typed_def)
qed

section \<open>The pool's steps over any store\<close>

lemma notify_dag: "notifySubscribers e p = Done p' \<Longrightarrow> dag p' = dag p"
proof -
  have "notify_loop e ss p = Done p' \<Longrightarrow> dag p' = dag p" for ss
    by (induction ss arbitrary: p) (auto simp: exec_bind_eq_Done split: if_splits)
  then show "notifySubscribers e p = Done p' \<Longrightarrow> dag p' = dag p" unfolding notifySubscribers_def .
qed

lemma sendError_dag: "sendError err p = Done p' \<Longrightarrow> dag p' = dag p"
  by (auto simp: sendError_def exec_bind_eq_Done)

lemma maybe_parents_dag: "maybe_parents p = (ps, p') \<Longrightarrow> dag p' = dag p"
  using maybe_parents_frame by (metis pool.select_convs(2) pool.surjective pool.update_convs(13))

lemma ensureBeaconRound_dag: "ensureBeaconRound now fetched p = (r, q) \<Longrightarrow> dag q = dag p"
  by (auto simp: ensureBeaconRound_def split: prod.splits option.splits sum.splits)

context dag_store begin

lemma add_typed_step:
  assumes "add e s = (r, s')" and "ID e \<noteq> []" and "typed_in (lookup s) e"
  shows "typed_step (lookup s) (lookup s')"
proof (cases r)
  case None
  with assms add_ok have a: "addable (lookup s) e" "same_graph ((lookup s)(ID e \<mapsto> e)) (lookup s')"
    "lookup s' (ID e) = Some e" "\<forall>i x y. lookup s i = Some x \<longrightarrow> lookup s' i = Some y \<longrightarrow> Beacon y = Beacon x"
    by blast+
  have "typed_step (lookup s) ((lookup s)(ID e \<mapsto> e))"
    using assms(3) a(1) by (intro typed_step_insert) (simp_all add: addable_def)
  moreover have "typed_step ((lookup s)(ID e \<mapsto> e)) (lookup s')"
    using a(3,4) by (intro typed_step_same [OF a(2)]) (auto split: if_splits)
  ultimately show ?thesis by (rule typed_step_trans)
next
  case (Some err)
  with assms add_err have "same_graph (lookup s) (lookup s')"
    "\<forall>i x y. lookup s i = Some x \<longrightarrow> lookup s' i = Some y \<longrightarrow> Beacon y = Beacon x" by blast+
  then show ?thesis by (intro typed_step_same) blast+
qed

lemma create_sub_event_typed:
  assumes "create_sub_event add L pid i p = Done p'" and "cid_nonempty L" and "pid \<in> main_ids (lookup (dag p))"
  shows "typed_step (lookup (dag p)) (lookup (dag p'))"
proof -
  obtain ps q where q: "maybe_parents p = (ps, q)" by fastforce
  note dq = maybe_parents_dag [OF q]
  show ?thesis
  proof (cases "computeEventCID L (sub_event pid i ps)")
    case (Inl err)
    with assms(1) q dq show ?thesis by (auto simp: create_sub_event_def dest: sendError_dag)
  next
    case (Inr sub)
    obtain r d where a: "add sub (dag q) = (r, d)" by fastforce
    have "dag p' = d"
      using assms(1) q Inr a
      by (cases r) (auto simp: create_sub_event_def exec_bind_eq_Done dest!: sendError_dag notify_dag)
    moreover have "ID sub \<noteq> []" "typed_in (lookup (dag p)) sub"
      using computeEventCID_fresh [OF Inr assms(2)] assms(3)
      by (simp_all add: typed_in_def sub_event_def) (metis event.select_convs)+
    ultimately show ?thesis using add_typed_step [OF a] dq by simp
  qed
qed

lemma create_sub_events_typed:
  "create_sub_events add L pid is p = Done p' \<Longrightarrow> cid_nonempty L \<Longrightarrow> pid \<in> main_ids (lookup (dag p)) \<Longrightarrow>
     typed_step (lookup (dag p)) (lookup (dag p'))"
proof (induction "is" arbitrary: p)
  case (Cons i "is")
  then obtain q where q: "create_sub_event add L pid i p = Done q" "create_sub_events add L pid is q = Done p'"
    by (auto simp: exec_bind_eq_Done)
  note s = create_sub_event_typed [OF q(1) Cons.prems(2,3)]
  with Cons.prems(3) have "pid \<in> main_ids (lookup (dag q))" by (auto simp: typed_step_def)
  from typed_step_trans [OF s Cons.IH [OF q(2) Cons.prems(2) this]] show ?case .
qed simp

lemma spawn_sub_events_typed:
  assumes "spawn_sub_events add L pid p = Done p'" and "cid_nonempty L" and "pid \<in> main_ids (lookup (dag p))"
  shows "typed_step (lookup (dag p)) (lookup (dag p'))"
proof -
  obtain b q where q: "shouldCreateSubEvent p = (b, q)" by fastforce
  then have dq: "dag q = dag p" by (auto simp: shouldCreateSubEvent_def split: prod.splits)
  show ?thesis
  proof (cases b)
    case False
    with assms(1) q dq show ?thesis by (simp add: spawn_sub_events_def)
  next
    case True
    obtain n g where "rngIntn 3 (rng q) = (n, g)" by fastforce
    with assms(1) q True have "create_sub_events add L pid [0..<n + 1] (q\<lparr>rng := g\<rparr>) = Done p'"
      by (simp add: spawn_sub_events_def)
    from create_sub_events_typed [OF this assms(2)] assms(3) dq show ?thesis by simp
  qed
qed

lemma anchor_event_typed:
  assumes "anchor_event write_beacon now fetched i p = Done p'" and "i \<in> main_ids (lookup (dag p))"
  shows "typed_step (lookup (dag p)) (lookup (dag p'))"
proof (cases "AnchorInterval (cfg p) \<le> wrap64 (eventCount p + 1)")
  case False
  with assms(1) show ?thesis by (auto simp: anchor_event_def)
next
  case True
  obtain r q where e: "ensureBeaconRound now fetched (p\<lparr>eventCount := wrap64 (eventCount p + 1)\<rparr>) = (r, q)" by fastforce
  have dq: "dag q = dag p" using ensureBeaconRound_dag [OF e] by simp
  from assms(1) True e consider err where "sendError err q = Done p'"
    | a where "dag p' = write_beacon i a (dag q)"
    by (auto simp: anchor_event_def Let_def split: sum.splits if_splits)
  then show ?thesis
  proof cases
    case 1
    from sendError_dag [OF this] dq show ?thesis by simp
  next
    case 2
    with typed_step_anchor [OF assms(2)] dq show ?thesis by (simp add: lookup_write)
  qed
qed

lemma run_event_typed:
  assumes "run_event add write_beacon L now fetched e p = Done p'" and "cid_nonempty L" and "main_typed e"
  shows "typed_step (lookup (dag p)) (lookup (dag p'))"
proof -
  obtain r d where a: "add e (dag p) = (r, d)" by fastforce
  have e: "ID e \<noteq> []" "typed_in (lookup (dag p)) e" using assms(3) by (simp_all add: main_typed_def typed_in_def)
  note s = add_typed_step [OF a e]
  show ?thesis
  proof (cases r)
    case (Some err)
    with assms(1) a have "dag p' = d" by (auto simp: run_event_def dest: sendError_dag)
    with s show ?thesis by simp
  next
    case None
    with assms(1) a obtain n q where "notifySubscribers e (p\<lparr>dag := d\<rparr>) = Done n"
      and q: "spawn_sub_events add L (ID e) (addRecentEvent (ID e) n) = Done q"
      and p': "anchor_event write_beacon now fetched (ID e) q = Done p'"
      by (auto simp: run_event_def exec_bind_eq_Done)
    then have n: "dag (addRecentEvent (ID e) n) = d" by (auto dest: notify_dag)
    have m: "ID e \<in> main_ids (lookup d)"
      using add_ok a e(1) assms(3) None by (auto simp: main_ids_def main_typed_def)
    have 1: "typed_step (lookup d) (lookup (dag q))"
      using spawn_sub_events_typed [OF q assms(2)] m n by simp
    with m have "ID e \<in> main_ids (lookup (dag q))" by (auto simp: typed_step_def)
    from typed_step_trans [OF typed_step_trans [OF s 1] anchor_event_typed [OF p' this]] show ?thesis .
  qed
qed

end

section \<open>The node\<close>

text \<open>Events on their way to the store are main events, and the store is typed.\<close>

definition pool_typed :: "memoryDAG pool \<Rightarrow> bool" where
  "pool_typed p \<longleftrightarrow> list_all main_typed (buf (eventCh p)) \<and> well_typed (mem_events (dag p))"

definition node_typed :: "'h node \<Rightarrow> bool" where
  "node_typed n \<longleftrightarrow> pool_typed (node_pool n)"

lemma main_typed_begin:
  assumes "pool_AddEvent_begin L data parents p = Inr e" and "cid_nonempty L" shows "main_typed e"
proof -
  have c: "computeEventCID L (main_event data parents) = Inr e"
    using assms(1) by (auto simp: pool_AddEvent_begin_def split: if_splits sum.splits)
  note f = computeEventCID_fresh [OF c assms(2)]
  show ?thesis by (subst f(2)) (use f(1) in \<open>simp add: main_typed_def main_event_def\<close>)
qed

lemma pool_typed_select:
  assumes "pool_typed p" and "main_typed e" and "pool_AddEvent_select br ctx e p = Some (r, p')"
  shows "pool_typed p'"
  using assms
  by (auto simp: pool_AddEvent_select_def pool_typed_def dest!: try_send_Done
      split: select_case.splits exec.splits bool.splits option.splits if_splits)

lemma pool_typed_add:
  assumes "pool_typed p" and "cid_nonempty L" and "pool_add L data parents p = (r, p')"
  shows "pool_typed p'"
proof (cases "pool_AddEvent_begin L data parents p")
  case (Inl err)
  with assms show ?thesis by (simp add: pool_add_def)
next
  case (Inr e)
  with assms pool_typed_select [OF assms(1) main_typed_begin [OF Inr assms(2)]] show ?thesis
    by (auto simp: pool_add_def split: option.splits)
qed

lemma pool_typed_frame:
  "eventCh p' = eventCh p \<Longrightarrow> dag p' = dag p \<Longrightarrow> pool_typed p \<Longrightarrow> pool_typed p'"
  by (simp add: pool_typed_def)

lemma node_run_event_typed:
  assumes "node_typed n" and "cid_nonempty L" and t: "try_recv (eventCh (node_pool n)) = (Some (Some e), ch)"
    and r: "node_run_event L now fetched e (n\<lparr>node_pool := (node_pool n)\<lparr>eventCh := ch\<rparr>\<rparr>) = Done n'"
  shows "node_typed n'"
proof -
  let ?p = "(node_pool n)\<lparr>eventCh := ch, beaconCh := b_chans (beacon n) (beacon_sub n)\<rparr>"
  have e: "main_typed e" "list_all main_typed (buf ch)"
    using assms(1) t by (auto simp: node_typed_def pool_typed_def try_recv_def split: list.splits if_splits)
  obtain p' where p': "mem_run L now fetched e ?p = Done p'" and n': "node_pool n' = p'"
    using r by (auto simp: node_run_event_def Let_def exec_bind_eq_Done)
  have "eventCh p' = ch" using keeps_run_event [OF p'] by (simp add: keeps_but_beacon_def)
  moreover have "well_typed (mem_events (dag p'))"
    using typed_step_wt [OF mem.run_event_typed [OF p' assms(2) e(1)]] assms(1)
    by (simp add: node_typed_def pool_typed_def)
  ultimately show ?thesis using e(2) n' by (simp add: node_typed_def pool_typed_def)
qed

lemma node_op_typed:
  assumes "node_op L H n (Done n')" and L: "cid_nonempty L" and n: "node_typed n"
  shows "node_typed n'"
  using assms(1)
proof (cases rule: node_op.cases)
  case (n_add br ctx data parents r)
  then show ?thesis
    using n pool_typed_select [OF _ main_typed_begin [OF _ L], of "node_pool n"]
    by (auto simp: node_AddEvent_def node_typed_def split: sum.splits option.splits)
next
  case n_subscribe
  then show ?thesis using n
    by (auto simp: node_Subscribe_def node_typed_def pool_Subscribe_def pool_typed_def split: prod.splits if_splits)
next
  case (n_unsubscribe s)
  then show ?thesis using n
    by (auto simp: node_typed_def removeSubscriber_def pool_typed_def exec_bind_eq_Done Done_eq_exec_bind split: if_splits)
next
  case (n_submit hash nonce)
  then show ?thesis using n
    by (auto simp: node_typed_def SubmitHash_def split: option.splits prod.splits)
next
  case n_go
  then show ?thesis using n by (auto dest!: sym [of "Done n'"] node_goroutines_Done)
next
  case (n_tick fetched)
  then show ?thesis using n by (auto simp: node_typed_def node_beacon_tick_def Done_eq_exec_bind)
next
  case (n_event e ch now fetched)
  then show ?thesis using node_run_event_typed [OF n L n_event(2)] by simp
next
  case (n_verify ks1 ks2)
  then show ?thesis using n
    by (auto simp: node_typed_def run_verify_def pool_typed_def exec_bind_eq_Done Done_eq_exec_bind sendError_def
        split: option.splits)
next
  case (n_commitment a c)
  obtain r p where r: "pool_add L (commitment_data (a_cfg a) c)
      (commitment_parents (a_cfg a) (lastEventID a)) (node_pool n) = (r, p)" by fastforce
  have "pool_typed p" using pool_typed_add [OF _ L r] n by (simp add: node_typed_def)
  with n_commitment n r show ?thesis
    by (auto simp: node_typed_def handleCommitment_def handle_begin_def Let_def exec_bind_eq_Done Done_eq_exec_bind
        split: option.splits if_splits)
qed

lemma new_node_typed:
  assumes "ValidateConfig c = None" shows "node_typed (new_node h now_ns source c)"
  using NewPool_fields [OF NewPool_of_config [OF assms], of "make_chan 1" now_ns source]
  by (simp add: node_typed_def pool_typed_def new_node_def well_typed_def NewMemoryDAG_def make_chan_def)

lemma node_New_typed:
  assumes "node_New N H now_ns source c = Done (Inr n, tr)" shows "node_typed n"
proof -
  from node_New_cases [of c N H now_ns source] assms obtain h where
    v: "ValidateConfig c = None" and s: "node_start_adapter N H c (new_node h now_ns source c)
      [OpenHost h, StartBeacon, OpenPool] = Done (Inr n, tr)" by auto
  have "hashpoolAdapter (new_node h now_ns source c) = None" by (simp add: new_node_def)
  from node_start_adapter_cases [OF new_node_ok [OF v] this, of c N H "[OpenHost h, StartBeacon, OpenPool]"] s
  show ?thesis using new_node_typed [OF v, of h now_ns source] by (auto simp: node_typed_def)
qed

interpretation typed_ts: transition_system node_init "node_step L" node_typed for L
proof
  fix n :: "'a node" assume "node_init n"
  with node_New_typed show "node_typed n" unfolding node_init_def by blast
next
  fix n n' :: "'a node" assume "node_typed n" and "node_step L n n'"
  with node_op_typed show "node_typed n'" unfolding node_step_def by blast
qed

text \<open>C26: in every state a node gets into, whatever its clients do through its methods, and whatever its
  beacon and the hashpool do, every stored event is a main event without a \<open>ParentID\<close>, or a sub-event
  whose \<open>ParentID\<close> is a stored main event, as \<open>dag.go\<close> says of the two types, and no other value of
  \<open>EventType\<close> is ever stored. No sub-event is ever anchored: the run loop anchors only the main event it
  has just taken, although the README says that any event at any level can reference the beacon.\<close>

theorem node_store_typed:
  assumes "node_New N H now_ns source c = Done (Inr n0, tr)" and "(node_step L)\<^sup>*\<^sup>* n0 n"
    and "mem_events (node_dag n) i = Some e"
  shows "(Type e = MainEvent \<and> ParentID e = []) \<or>
    (Type e = SubEvent \<and> Beacon e = None \<and>
      (\<exists>p. mem_events (node_dag n) (ParentID e) = Some p \<and> Type p = MainEvent))"
proof -
  have "node_typed n" by (rule typed_ts.run_inv [OF assms(2) node_New_typed [OF assms(1)]])
  with assms(3) have "typed_in (mem_events (node_dag n)) e"
    by (simp add: node_typed_def pool_typed_def well_typed_def node_dag_def)
  then show ?thesis by (auto simp: typed_in_def main_ids_def)
qed

lemma sample_node_stores: "\<exists>n i x. (node_step b_lib)\<^sup>*\<^sup>* sample_node n \<and> mem_events (node_dag n) i = Some x"
proof -
  obtain e where e: "computeEventCID b_lib (main_event [1] []) = Inr e"
    by (simp add: computeEventCID_def ComputeCID_def b_lib_def)
  let ?p = "(node_pool sample_node)\<lparr>eventCh := (make_chan 100)\<lparr>buf := [e]\<rparr>\<rparr>"
  let ?n1 = "sample_node\<lparr>node_pool := ?p\<rparr>"
  have add: "node_AddEvent b_lib CaseSend None [1] [] sample_node = Some (Inr (ID e), ?n1)"
    by (simp add: node_AddEvent_def pool_AddEvent_begin_def e pool_AddEvent_select_def try_send_def
        sample_node_pool sample_pool_eq make_chan_def)
  have 1: "node_step b_lib sample_node ?n1"
    using n_add [OF add, of sample_hp] b_lib_nonempty unfolding node_step_def by blast
  have fe: "e = (main_event [1] [])\<lparr>ID := ID e\<rparr>" "ID e \<noteq> []"
    using computeEventCID_fresh [OF e b_lib_nonempty] by simp_all
  let ?q = "(node_pool ?n1)\<lparr>eventCh := make_chan 100, beaconCh := b_chans (beacon ?n1) (beacon_sub ?n1)\<rparr>"
  have "node_ok ?n1" by (rule node_ts.run_inv [OF r_into_rtranclp [of "node_step b_lib", OF 1] node_New_ok [OF sample_node_New]])
  then have "pool_ok mem_events ?q" by (simp add: node_ok_def pool_live_def pool_ok_chan)
  moreover have "addable (mem_events (dag ?q)) e"
    by (subst fe(1)) (use fe(2) in \<open>simp add: addable_def sample_node_pool sample_pool_eq
        NewMemoryDAG_def refs_def main_event_def\<close>)
  ultimately obtain p' x where p': "mem_run b_lib (time_Unix 1000) (Inl (ErrFetch [])) e ?q = Done p'"
    "mem_events (dag p') (ID e) = Some x"
    using mem_run_keeps [OF _ b_lib_nonempty fresh_main_event [OF e b_lib_nonempty]] by blast
  obtain n2 where n2: "node_run_event b_lib (time_Unix 1000) (Inl (ErrFetch [])) e
      (?n1\<lparr>node_pool := (node_pool ?n1)\<lparr>eventCh := make_chan 100\<rparr>\<rparr>) = Done n2" "node_pool n2 = p'"
    using p'(1) by (simp add: node_run_event_def Let_def)
  have "try_recv (eventCh (node_pool ?n1)) = (Some (Some e), make_chan 100)"
    by (simp add: try_recv_def make_chan_def)
  from n_event [OF this, of b_lib sample_hp "time_Unix 1000" "Inl (ErrFetch [])"] n2(1) b_lib_nonempty
  have 2: "node_step b_lib ?n1 n2" unfolding node_step_def by metis
  from p'(2) n2(2) have "mem_events (node_dag n2) (ID e) = Some x" by (simp add: node_dag_def)
  with rtranclp.rtrancl_into_rtrancl [OF r_into_rtranclp [of "node_step b_lib", OF 1] 2] show ?thesis by blast
qed

theorem node_store_typed_witness:
  "\<exists>n i x. (node_step b_lib)\<^sup>*\<^sup>* sample_node n \<and> mem_events (node_dag n) i = Some x \<and>
     Type x \<in> {MainEvent, SubEvent}"
proof -
  obtain n i x where n: "(node_step b_lib)\<^sup>*\<^sup>* sample_node n" "mem_events (node_dag n) i = Some x"
    using sample_node_stores by blast
  with node_store_typed [OF sample_node_New n] show ?thesis by blast
qed

text \<open>The store itself checks less: the parents of a main event may be sub-events, although the comment
  at \<open>Parents\<close> says that they are other main events, and an event of any other type is accepted.\<close>

lemma main_event_with_sub_parent:
  "\<exists>d d'. memory_AddEvent (Some (main_ev ''m'' [])) NewMemoryDAG = (None, d) \<and>
     memory_AddEvent (Some (sub_ev ''s'' ''m'' [])) d = (None, d') \<and>
     fst (memory_AddEvent (Some (main_ev ''n'' [''s''])) d') = None \<and>
     fst (memory_AddEvent (Some ((main_ev ''t'' [])\<lparr>Type := 7\<rparr>)) d') = None"
proof -
  have "SubEvent \<noteq> 7" by (simp add: SubEvent_def)
  then show ?thesis
    by (simp add: memory_AddEvent_def NewMemoryDAG_def link_sub_def main_ev_def sub_ev_def append_child_def)
qed

text \<open>
  What the comments of \<open>dag.go\<close> ask of a sub-event and \<open>AddEvent\<close> does not check: a sub-event is accepted
  without its main event among the \<open>Parents\<close>, and with a sub-event as its \<open>ParentID\<close>.
\<close>

lemma AddEvent_sub_event_unchecked:
  "\<exists>d d'. memory_AddEvent (Some (main_ev ''m'' [])) NewMemoryDAG = (None, d) \<and>
     memory_AddEvent (Some (sub_ev ''s'' ''m'' [])) d = (None, d') \<and>
     fst (memory_AddEvent (Some (sub_ev ''u'' ''s'' [])) d') = None"
  by (simp add: memory_AddEvent_def NewMemoryDAG_def link_sub_def main_ev_def sub_ev_def append_child_def)

end
