(* ===== verification/Cli.thy ===== *)
theory Cli
  imports NodeProps
begin

text \<open>
  The command \<open>dagtime\<close> (\<open>src/cmd/dagtime/main.go\<close>) from its parsed flags to its shutdown, and the
  example program (\<open>src/examples/events/main.go\<close>). Parsing of the command line, logging and signals
  are left out; what the node does between its start and the signal is a parameter.
\<close>

section \<open>Flags\<close>

record cli_flags =
  Flag_Port :: int
  Flag_Peer :: string
  Flag_DrandURL :: string
  Flag_DrandInterval :: int
  Flag_ChainHash :: string
  Flag_PublicKey :: string
  Flag_GenesisTime :: int
  Flag_EventRate :: int
  Flag_AnchorInterval :: int
  Flag_SubEventComplex :: float64
  Flag_VerifyInterval :: int

definition defaultChainHash :: string where
  "defaultChainHash = ''8990e7a9aaed2ffed73dbd7092123d6f289930540d7651336225dc172e51b2ce''"

definition defaultPublicKey :: string where
  "defaultPublicKey = ''868f005eb8e6e4ca0a47c8a77ceaa5309a47978a7c71bc5cce96366b5d7a569937c529eeda66c7293784bc9402c6bc2d6cd7750008daea6c7d18e75c34b853677747f823''"

text \<open>The default complexity is the \<open>float64\<close> nearest to 0.3.\<close>

definition default_flags :: cli_flags where
  "default_flags = \<lparr>Flag_Port = 0, Flag_Peer = [], Flag_DrandURL = ''https://api.drand.sh'',
     Flag_DrandInterval = 10 * Second, Flag_ChainHash = defaultChainHash, Flag_PublicKey = defaultPublicKey,
     Flag_GenesisTime = 1595431050, Flag_EventRate = 5000, Flag_AnchorInterval = 5,
     Flag_SubEventComplex = Fin (5404319552844595 / 18014398509481984), Flag_VerifyInterval = 5\<rparr>"

datatype cli_error =
    InvalidChainHash hex_error
  | InvalidPublicKey hex_error
  | InvalidConfiguration string
  | NodeFailed node_error

definition cli_config :: "cli_flags \<Rightarrow> cli_error + node_config" where
  "cli_config f =
     (case hex_decode (Flag_ChainHash f) of
        Inl err \<Rightarrow> Inl (InvalidChainHash err)
      | Inr chainHash \<Rightarrow>
          (case hex_decode (Flag_PublicKey f) of
             Inl err \<Rightarrow> Inl (InvalidPublicKey err)
           | Inr publicKey \<Rightarrow>
               Inr \<lparr>Net = \<lparr>Port = Flag_Port f, Peer = Flag_Peer f\<rparr>, BeaconURL = Flag_DrandURL f,
                    BeaconInterval = Flag_DrandInterval f, BeaconChainHash = chainHash,
                    BeaconPublicKey = publicKey, BeaconGenesisTime = Flag_GenesisTime f,
                    Cfg_EventRate = Flag_EventRate f, Cfg_AnchorInterval = Flag_AnchorInterval f,
                    Cfg_SubEventComplex = Flag_SubEventComplex f,
                    Cfg_VerifyInterval = Flag_VerifyInterval f, EnableHashpool = False,
                    HashpoolConfig = None\<rparr>))"

section \<open>The program\<close>

text \<open>
  \<open>life n\<close> is the node when the signal arrives. Every error exits with status 1; otherwise the
  node is closed explicitly, its error only logged, and closed once more by the deferred call. The
  result has the error or the errors of the first \<open>Close\<close>, and the trace of all actions.
\<close>

definition cli_main ::
    "('a, 'i) libp2p \<Rightarrow> 'h hashpool_lib \<Rightarrow> int \<Rightarrow> (int \<Rightarrow> rng) \<Rightarrow> ('h node \<Rightarrow> 'h node) \<Rightarrow> cli_flags \<Rightarrow>
       ((cli_error + close_error list) \<times> action list) exec" where
  "cli_main N H now_ns source life f =
     (case cli_config f of
        Inl err \<Rightarrow> Done (Inl err, [])
      | Inr c \<Rightarrow>
          (case ValidateConfig c of
             Some msg \<Rightarrow> Done (Inl (InvalidConfiguration msg), [])
           | None \<Rightarrow>
               exec_bind (node_New N H now_ns source c)
                 (\<lambda>(r, tr). case r of
                    Inl err \<Rightarrow> Done (Inl (NodeFailed err), tr)
                  | Inr n \<Rightarrow>
                      exec_bind (node_goroutines n)
                        (\<lambda>n. exec_bind (node_Close N H (life n))
                          (\<lambda>(errs, n, tr1). exec_bind (node_Close N H n)
                            (\<lambda>(errs2, n, tr2). Done (Inr errs, tr @ tr1 @ tr2)))))))"

section \<open>The example program\<close>

definition example_config :: node_config where
  "example_config = \<lparr>Net = \<lparr>Port = 3000, Peer = []\<rparr>, BeaconURL = ''https://api.drand.sh'',
     BeaconInterval = 10 * Second, BeaconChainHash = str_bytes defaultChainHash,
     BeaconPublicKey = str_bytes defaultPublicKey, BeaconGenesisTime = 1595431050, Cfg_EventRate = 1000,
     Cfg_AnchorInterval = 5, Cfg_SubEventComplex = Fin (3602879701896397 / 4503599627370496),
     Cfg_VerifyInterval = 5, EnableHashpool = False, HashpoolConfig = None\<rparr>"

definition example_tick ::
    "cid_lib \<Rightarrow> select_case \<Rightarrow> string option \<Rightarrow> 'h node \<Rightarrow> ((pool_error + string) \<times> 'h node) option" where
  "example_tick L br ctx n = node_AddEvent L br ctx (str_bytes ''example-event'') [] n"

text \<open>The example closes its node once, by the deferred call.\<close>

definition example_main ::
    "('a, 'i) libp2p \<Rightarrow> 'h hashpool_lib \<Rightarrow> int \<Rightarrow> (int \<Rightarrow> rng) \<Rightarrow> ('h node \<Rightarrow> 'h node) \<Rightarrow>
       ((node_error + close_error list) \<times> action list) exec" where
  "example_main N H now_ns source life =
     exec_bind (node_New N H now_ns source example_config)
       (\<lambda>(r, tr). case r of
          Inl err \<Rightarrow> Done (Inl err, tr)
        | Inr n \<Rightarrow>
            exec_bind (node_goroutines n)
              (\<lambda>n. exec_bind (node_Close N H (life n)) (\<lambda>(errs, n, tr1). Done (Inr errs, tr @ tr1))))"

section \<open>Properties\<close>

text \<open>The defaults decode; the default public key has 68 bytes, where a key of the chain has 48.\<close>

lemma default_keys:
  "\<exists>h k. hex_decode defaultChainHash = Inr h \<and> length h = 32 \<and> hex_decode defaultPublicKey = Inr k \<and> length k = 68"
  by (simp add: defaultChainHash_def defaultPublicKey_def hex_value_def)

text \<open>C40: the command, whatever its flags, as long as rate and verify interval fit 64 bits as
  nanoseconds, and whatever happens to the node until the signal: it never panics. If it exits early on its flags, nothing has been opened; if the construction of the
  node fails, nothing stays open but possibly the one host of a network node whose peer failed; and
  after the two calls of \<open>Close\<close> on the regular way out nothing is open.\<close>

theorem cli_main_cleans_up:
  assumes "\<And>n. \<exists>L. (node_step L)\<^sup>*\<^sup>* n (life n)"
    and "Flag_VerifyInterval f * Flag_EventRate f * Millisecond < 2 ^ 63"
  shows "\<exists>r tr. cli_main N (H :: 'h hashpool_lib) now_ns source life f = Done (r, tr) \<and>
    (case r of Inr errs \<Rightarrow> left_open tr = {}
     | Inl err \<Rightarrow>
         (case err of
            NodeFailed nerr \<Rightarrow>
              (case nerr of CreateNetwork e \<Rightarrow> \<exists>h. left_open tr \<subseteq> {OpenHost h} | _ \<Rightarrow> left_open tr = {})
          | _ \<Rightarrow> tr = []))"
proof (cases "cli_config f")
  case (Inl err)
  then have "\<forall>e. err \<noteq> NodeFailed e" by (auto simp: cli_config_def split: sum.splits)
  with Inl show ?thesis by (simp add: cli_main_def split: cli_error.splits)
next
  case (Inr c)
  then have hp: "\<not> EnableHashpool c" and small: "Cfg_VerifyInterval c * Cfg_EventRate c * Millisecond < 2 ^ 63"
    using assms(2) by (auto simp: cli_config_def split: sum.splits)
  show ?thesis
    using node_New_cases [of c N H now_ns source]
  proof (elim disjE exE conjE)
    fix msg assume "ValidateConfig c = Some msg"
    with Inr show ?thesis by (simp add: cli_main_def)
  next
    fix err tr assume v: "ValidateConfig c = None" and n: "NewNode N (Net c) = (Inl err, tr)"
      and "node_New N H now_ns source c = Done (Inl (CreateNetwork err), tr)"
    then have "cli_main N H now_ns source life f = Done (Inl (NodeFailed (CreateNetwork err)), tr)"
      using Inr by (simp add: cli_main_def)
    moreover have "\<exists>h. left_open tr \<subseteq> {OpenHost h}" using NewNode_Inl [OF n] by (auto simp: left_open_def)
    ultimately show ?thesis by fastforce
  next
    fix h err assume "ValidateConfig c = None"
      and "node_New N H now_ns source c = Done (Inl (CreateBeacon err), [OpenHost h, CloseHost h])"
    with Inr show ?thesis by (simp add: cli_main_def left_open_def)
  next
    fix h
    let ?n = "new_node h now_ns source c :: 'h node"
    assume v: "ValidateConfig c = None"
      and "node_New N H now_ns source c = node_start_adapter N H c ?n [OpenHost h, StartBeacon, OpenPool]"
    then have new: "node_New N H now_ns source c = Done (Inr ?n, [OpenHost h, StartBeacon, OpenPool])"
      using hp by (simp add: node_start_adapter_def)
    obtain L where L: "(node_step L)\<^sup>*\<^sup>* ?n (life ?n)" using assms by blast
    have go: "node_goroutines ?n = Done ?n"
      using node_New_cfg [OF new] by (intro goroutines_start [OF v small]) simp_all
    have ok: "node_ok (life ?n)" by (rule node_ts.run_inv [OF L new_node_ok [OF v]])
    obtain n' where 1: "node_Close N H (life ?n) = Done (stop_errors N H (life ?n), n', close_actions (life ?n))"
      "closed_from (life ?n) n'" using node_Close_ok [OF ok] by blast
    obtain errs where 2: "node_Close N H n' = Done (errs, n', [ClosePool, StopBeacon, CloseHost (network (life ?n))])"
      using node_Close_again [OF 1(2)] by blast
    have "left_open (([OpenHost h, StartBeacon, OpenPool] @ close_actions (life ?n)) @
        [ClosePool, StopBeacon, CloseHost (network (life ?n))]) = {}"
      using left_open_closed [OF new L] by (simp add: left_open_def)
    with Inr v new go 1 2 show ?thesis by (simp add: cli_main_def)
  qed
qed

lemma default_config: "\<exists>c. cli_config default_flags = Inr c \<and> ValidateConfig c = None"
proof -
  obtain h k where "hex_decode defaultChainHash = Inr h" "hex_decode defaultPublicKey = Inr k"
    using default_keys by blast
  then show ?thesis by (simp add: cli_config_def default_flags_def ValidateConfig_def Second_def)
qed

theorem cli_main_cleans_up_witness:
  "\<exists>r tr. cli_main sample_net sample_hp 0 (\<lambda>_. sample_rng) (\<lambda>n. snd (node_Subscribe n)) default_flags = Done (r, tr) \<and>
     (\<exists>h. left_open tr \<subseteq> {OpenHost h})"
proof -
  have "node_step b_lib n (snd (node_Subscribe n))" for n :: "nat node"
    using n_subscribe [of b_lib sample_hp n] b_lib_nonempty unfolding node_step_def by blast
  then have l: "\<exists>L. (node_step L)\<^sup>*\<^sup>* n (snd (node_Subscribe n))" for n :: "nat node" by blast
  have s: "Flag_VerifyInterval default_flags * Flag_EventRate default_flags * Millisecond < 2 ^ 63"
    by (simp add: default_flags_def Millisecond_def)
  from cli_main_cleans_up [of "\<lambda>n. snd (node_Subscribe n)", OF l s] obtain r tr where
    c: "cli_main sample_net sample_hp 0 (\<lambda>_. sample_rng) (\<lambda>n. snd (node_Subscribe n)) default_flags = Done (r, tr)"
    and o: "case r of Inr errs \<Rightarrow> left_open tr = {}
     | Inl err \<Rightarrow>
         (case err of
            NodeFailed nerr \<Rightarrow>
              (case nerr of CreateNetwork e \<Rightarrow> \<exists>h. left_open tr \<subseteq> {OpenHost h} | _ \<Rightarrow> left_open tr = {})
          | _ \<Rightarrow> tr = [])" by blast
  from o have "\<exists>h. left_open tr \<subseteq> {OpenHost h}"
    by (auto simp: left_open_def split: sum.splits cli_error.splits node_error.splits)
  with c show ?thesis by blast
qed

text \<open>Without that bound the command can crash: an event rate of \<open>10 ^ 13\<close> milliseconds is accepted, and
  the run loop's goroutine panics on the wrapped period.\<close>

lemma cli_main_event_rate_panics:
  "cli_main sample_net sample_hp now_ns source life (default_flags\<lparr>Flag_EventRate := 10000000000000\<rparr>) = Panic"
proof -
  let ?f = "default_flags\<lparr>Flag_EventRate := 10000000000000\<rparr>"
  obtain c where c: "cli_config ?f = Inr c" "ValidateConfig c = None" "\<not> EnableHashpool c" "Net c = \<lparr>Port = 0, Peer = []\<rparr>"
    "EventRate (pool_cfg_of c) = 10000000000000" "BeaconURL c \<noteq> []" "BeaconChainHash c \<noteq> []"
    "BeaconPublicKey c \<noteq> []" "BeaconInterval c = 10 * Second" "BeaconGenesisTime c = 1595431050"
  proof -
    obtain h k where "hex_decode defaultChainHash = Inr h" "length h = 32" "hex_decode defaultPublicKey = Inr k" "length k = 68"
      using default_keys by blast
    then show thesis
      by (intro that [of "projr (cli_config ?f)"])
        (auto simp: cli_config_def default_flags_def ValidateConfig_def Second_def pool_cfg_of_def)
  qed
  have net: "NewNode sample_net (Net c) = (Inr 7, [OpenHost 7])" by (simp add: c(4) NewNode_def sample_net_def)
  have "NewBeacon (beacon_cfg_of c) = Inr (newDrandBeacon (beacon_cfg_of c))"
    by (simp add: NewBeacon_def beacon_cfg_of_def c Second_def)
  with node_New_cases [of c sample_net sample_hp now_ns source] c(2,3) net
  have new: "node_New sample_net sample_hp now_ns source c =
      Done (Inr (new_node 7 now_ns source c), [OpenHost 7, StartBeacon, OpenPool])"
    by (auto simp: node_start_adapter_def)
  have "run_tickers (pool_cfg_of c) = Panic"
    by (simp add: run_tickers_def c(5) NewTicker_def dur_mult_def wrap64_def Millisecond_def)
  then have "run_tickers (cfg (node_pool (new_node 7 now_ns source c :: nat node))) = Panic"
    using node_New_cfg [OF new] by simp
  then have "node_goroutines (new_node 7 now_ns source c :: nat node) = Panic"
    by (simp add: node_goroutines_def) (simp add: beacon_run_ticker_def NewTicker_def)
  with c(1,2) new show ?thesis by (simp add: cli_main_def)
qed

text \<open>Every event of the example program has the same content, hence the same ID: once one is stored,
  the store rejects each later one as a duplicate and does not change.\<close>

lemma example_event_duplicate:
  assumes "computeEventCID L (main_event (str_bytes ''example-event'') []) = Inr e" and "cid_nonempty L"
    and "ID e \<in> dom (mem_events d)"
  shows "memory_AddEvent (Some e) d = (Some (ErrDuplicateEvent (ID e)), d)"
  using computeEventCID_fresh [OF assms(1,2)] assms(3)
  by (auto simp: memory_AddEvent_spec addEvent_spec_def)

text \<open>The configuration of the example is accepted, with the hexadecimal text itself as chain hash and
  public key, which the command decodes first.\<close>

lemma example_config_accepted:
  "ValidateConfig example_config = None \<and> length (BeaconChainHash example_config) = 64 \<and>
     hex_decode (map char_of_byte (BeaconChainHash example_config)) \<noteq> Inr (BeaconChainHash example_config)"
proof -
  obtain h where h: "hex_decode defaultChainHash = Inr h" "length h = 32" using default_keys by blast
  have "length defaultChainHash = 64" by (simp add: defaultChainHash_def)
  moreover have "h \<noteq> str_bytes defaultChainHash" using h(2) calculation by auto
  ultimately show ?thesis
    using h(1) by (simp add: example_config_def ValidateConfig_def Second_def defaultPublicKey_def)
qed

text \<open>The example leaves nothing open once it has run, and its node never panics.\<close>

lemma example_main_cleans_up:
  assumes "\<And>n. \<exists>L. (node_step L)\<^sup>*\<^sup>* n (life n)"
  shows "\<exists>r tr. example_main N (H :: 'h hashpool_lib) now_ns source life = Done (r, tr) \<and>
    (case r of Inr errs \<Rightarrow> left_open tr = {} | Inl err \<Rightarrow> \<exists>h. left_open tr \<subseteq> {OpenHost h})"
proof -
  have v: "ValidateConfig example_config = None" using example_config_accepted by blast
  have hp: "\<not> EnableHashpool example_config" by (simp add: example_config_def)
  have small: "Cfg_VerifyInterval example_config * Cfg_EventRate example_config * Millisecond < 2 ^ 63"
    by (simp add: example_config_def Millisecond_def)
  show ?thesis
    using node_New_cases [of example_config N H now_ns source]
  proof (elim disjE exE conjE)
    fix msg assume "ValidateConfig example_config = Some msg"
    with v show ?thesis by simp
  next
    fix err tr assume n: "NewNode N (Net example_config) = (Inl err, tr)"
      and "node_New N H now_ns source example_config = Done (Inl (CreateNetwork err), tr)"
    then show ?thesis using NewNode_Inl [OF n] by (auto simp: example_main_def left_open_def)
  next
    fix h err assume "node_New N H now_ns source example_config = Done (Inl (CreateBeacon err), [OpenHost h, CloseHost h])"
    then show ?thesis by (simp add: example_main_def left_open_def)
  next
    fix h
    let ?n = "new_node h now_ns source example_config :: 'h node"
    assume "node_New N H now_ns source example_config =
      node_start_adapter N H example_config ?n [OpenHost h, StartBeacon, OpenPool]"
    then have new: "node_New N H now_ns source example_config = Done (Inr ?n, [OpenHost h, StartBeacon, OpenPool])"
      using hp by (simp add: node_start_adapter_def)
    obtain L where L: "(node_step L)\<^sup>*\<^sup>* ?n (life ?n)" using assms by blast
    have go: "node_goroutines ?n = Done ?n"
      using node_New_cfg [OF new] by (intro goroutines_start [OF v small]) simp_all
    have ok: "node_ok (life ?n)" by (rule node_ts.run_inv [OF L new_node_ok [OF v]])
    obtain n' where "node_Close N H (life ?n) = Done (stop_errors N H (life ?n), n', close_actions (life ?n))"
      using node_Close_ok [OF ok] by blast
    with new go left_open_closed [OF new L] show ?thesis by (simp add: example_main_def)
  qed
qed

end
