(* ===== verification/Spec2Isabelle.thy ===== *)
theory Spec2Isabelle
  imports MemoryProps CidProps BeaconProps SnapshotProps NilProps IpfsRace PoolProps PoolRun PoolLife
    AdapterProps NodeProps EventTyping Cli
begin

text \<open>
  A verification development for DAG-Time: a node that keeps a directed acyclic graph of
  content-addressed events, derives sub-events from them, and anchors every few events to a round of
  the drand randomness beacon.

  \<^bold>\<open>The program and the theories.\<close> Each theory names the Go files it models; definitions keep the
  names of the code, with the type in front where Go has a method (\<open>memoryDAG.AddEvent\<close> is
  \<open>memory_AddEvent\<close>).

  \<^item> \<open>Prelude\<close>: outcomes of running code (\<open>exec\<close>: a value, a panic, fuel used up), buffered channels
    with their panics, and the locale \<open>transition_system\<close> that carries an invariant over runs.
  \<^item> \<open>Events\<close>, \<open>CycleCheck\<close>, \<open>SubEvents\<close>, \<open>StoreOps\<close> (\<open>src/dag/dag.go\<close> and the code the two stores
    share): events, errors, the well-formedness of a graph (\<open>dag_wf\<close>), the depth-first cycle check,
    the sub-event traversal, an abstract specification of \<open>AddEvent\<close> (\<open>addEvent_spec\<close>), and the
    locale \<open>dag_store\<close>: what a client of the interface \<open>DAG\<close> may rely on.
  \<^item> \<open>MemoryDag\<close>, \<open>MemoryProps\<close> (\<open>src/dag/memory.go\<close>): the in-memory store, an instance of
    \<open>dag_store\<close>, and its properties.
  \<^item> \<open>Cid\<close>, \<open>CidProps\<close> (\<open>src/dag/cid.go\<close>): the byte serialisation of an event's content and the
    identifier made from it. A decoder that the code does not have specifies that the format is
    unambiguous.
  \<^item> \<open>Base64\<close>, \<open>Json\<close>, \<open>JsonText\<close>: what the code uses of Go's \<open>encoding/json\<close>: values and how they
    are decoded into variables; the bytes that \<open>Marshal\<close> and an indenting \<open>Encoder\<close> write, and the
    \<open>Decoder\<close> as an automaton over tokens, which reads back what was written.
  \<^item> \<open>Snapshot\<close>, \<open>SnapshotProps\<close> (\<open>src/dag/export.go\<close>): export and import of a store.
  \<^item> \<open>IpfsDag\<close>, \<open>IpfsProps\<close> (\<open>src/dag/ipfs.go\<close>): the store over an IPFS daemon, a second instance of
    \<open>dag_store\<close>, and the refinement to the in-memory store.
  \<^item> \<open>NilEvents\<close>, \<open>NilProps\<close> (\<open>src/dag/memory.go\<close>, \<open>src/dag/ipfs.go\<close>): an import can store nil
    event pointers; the methods that look into stored events over maps of pointers, their agreement with
    the definitions above where no event is nil, and when they panic.
  \<^item> \<open>IpfsRace\<close> (\<open>src/dag/ipfs.go\<close>): the steps of \<open>GetEvent\<close> between its locks, interleaved with other
    clients, over explicit event pointers.
  \<^item> \<open>GoTime\<close>, \<open>Hex\<close>, \<open>Beacon\<close>, \<open>BeaconProps\<close> (\<open>src/beacon/\<close>): 64-bit time arithmetic with its
    overflows, hex, the drand client and its subscriber channels.
  \<^item> \<open>TimeFormat\<close>: the text of a time, with its date, as the adapter writes it into an event.
  \<^item> \<open>Pool\<close> with \<open>PoolInv\<close>, \<open>PoolSteps\<close>, \<open>PoolProps\<close>, \<open>PoolRun\<close>, \<open>PoolLife\<close> (\<open>src/pool/pool.go\<close>):
    the event pool over any \<open>dag_store\<close>: its invariant and the effect of each part of the run loop,
    the properties of single operations, whole histories over the in-memory store, and every
    interleaving of run loop, clients and \<open>Close\<close>, with the lock \<open>p.mu\<close> and the cancelled context.
  \<^item> \<open>Adapter\<close>, \<open>AdapterProps\<close> (\<open>src/hashpool/\<close>): the bridge from hashpool commitments to events.
  \<^item> \<open>Network\<close>, \<open>Node\<close>, \<open>NodeRun\<close>, \<open>NodeProps\<close> (\<open>src/network/network.go\<close>, \<open>src/node/node.go\<close>):
    construction with clean-up, the running node as a transition system, shutdown. What is opened and
    closed is recorded as a trace of actions.
  \<^item> \<open>EventTyping\<close>: the type discipline of events, for every store the pool fills and for every state
    of a node: what \<open>dag.go\<close> says of the two types, and that only main events are anchored, where the
    README says otherwise.
  \<^item> \<open>Cli\<close> (\<open>src/cmd/dagtime/main.go\<close>, \<open>src/examples/events/main.go\<close>): the command from its flags to
    its exit.
  \<^item> \<open>Samples\<close>: small stores that the witnesses use.

  \<^bold>\<open>How the parts interact.\<close> The node gives the pool a store and a subscription of the beacon, and the
  adapter the pool. The pool knows the store only through \<open>AddEvent\<close>, \<open>Verify\<close> and the anchor it
  writes into a stored event; its lemmas are proved in \<open>dag_store\<close> and used for the in-memory store.
  A channel between two parts is one channel: the pool's beacon channel lives in the beacon's heap of
  channels, and \<open>node_run_event\<close> reads it there.

  \<^bold>\<open>What the lemmas show.\<close> For the stores: which events \<open>AddEvent\<close> takes, that every outcome keeps the
  graph well formed and acyclic, what \<open>Verify\<close> decides (a cycle through \<open>ParentID\<close> is not among what
  it finds), what the queries return, that the IPFS store simulates the in-memory one, that an entry of it
  is stable once no older fetch is under way and what such a fetch can lose, when nil events make a
  query panic, and that export and import are inverse. For identifiers: the serialisation can be decoded, so the identifier is determined by type, parent, data and the set of
  parents (as a multiset) and nothing else. For the beacon and the pool: no panic in any reachable
  state or interleaving, exact timestamps and ages within 64 bits, anchors at fixed intervals with
  strictly increasing rounds, sub-events whose parents exist, and a shutdown that completes from every
  reachable state, wherever the run loop is and whoever holds the lock. For the adapter: commitments form a chain of events, and an event's data determines
  its commitment. For the node: no operation of a running node panics, if its
  intervals fit 64 bits, stored events are typed, an added event can be retrieved, a round
  travels from the beacon to an event, construction and shutdown leave nothing open, with the exceptions
  the theorems name.

  \<^bold>\<open>Bounds and fuel.\<close> The cycle check has one more unit of fuel than there are events, the traversal of
  \<open>GetSubEvents\<close> any amount above the number of events; both are proved never to run out of it. The JSON
  decoder keeps at most 10000 open arrays and objects, the limit of the library. All other recursion
  is structural or has a measure. Round numbers, counters (also the run loop's event count) and times have 64 bits, lengths in
  the serialisation 32 (they are truncated, as in the code); lengths of Go slices are unbounded.

  \<^bold>\<open>Parameters.\<close> Code that is not in the repository is an argument: SHA-256 multihashes and the text
  form of CIDs (\<open>cid_lib\<close>), libp2p (\<open>libp2p\<close>), the hashpool node (\<open>hashpool_lib\<close>), the IPFS daemon
  and HTTP (\<open>daemon\<close>), the UTC offset of a time's zone, the clock, random numbers (a tape), the
  order in which Go ranges over a map, the choice of a \<open>select\<close>, and what a context's cancellation
  interrupts. Where a property needs more than the type says, it is a hypothesis: the text form of a
  CID is not empty (\<open>cid_nonempty\<close>).

  \<^bold>\<open>Not modelled.\<close> The difference between a nil and an empty slice (JSON writes \<open>null\<close> and \<open>[]\<close>, and
  reads both back as no elements), and the capacity of a slice beyond its length, which Go's decoder can
  bring back when a key occurs three times; the nil pointers of \<open>NilEvents\<close> in the pool and the node,
  which never import; logging; the contents of error messages, where no caller looks at them; the data race
  on an event that the pool anchors while a subscriber holds a pointer to it (channels carry the event
  as it is when it is sent); file handling of the IPFS index beyond open, read and write; flag
  parsing and signals; tests.
\<close>

end
